(* ===== verification/Prelude.thy ===== *)
theory Prelude
  imports Main "HOL-Library.Word"
begin

text \<open>
  Shared vocabulary of the development: the machine types of the sources (\<open>uint32_t\<close>,
  \<open>uint64_t\<close>), the faults a C++ function can end in (a failed \<open>assert\<close>, the undefined
  behaviour of \<open>IMPOSSIBLE_COND\<close>, an array access out of bounds), and the generic facts on
  words and lists that every component uses.
\<close>

unbundle bit_operations_syntax

section \<open>Types\<close>

type_synonym u8 = "8 word"
type_synonym u16 = "16 word"
type_synonym u32 = "32 word"
type_synonym u64 = "64 word"

text \<open>
  The asserts of the sources are live (no build file defines \<open>NDEBUG\<close>), so they are
  branches of the model. \<open>Unreachable\<close> is the condition of an \<open>IMPOSSIBLE_COND\<close> that
  holds, \<open>Out_Of_Bounds\<close> an array index outside the array, \<open>Null_Deref\<close> a field access
  through a null pointer, \<open>Div_By_Zero\<close> the trap of the division instruction,
  \<open>Int_Overflow\<close> a signed computation that leaves its type.
\<close>

datatype fault = Assert_Failed | Unreachable | Out_Of_Bounds | Null_Deref | Div_By_Zero | Int_Overflow

type_synonym 'a result = "fault + 'a"

fun bind_res :: "'a result \<Rightarrow> ('a \<Rightarrow> 'b result) \<Rightarrow> 'b result" where
  "bind_res (Inl e) f = Inl e"
| "bind_res (Inr x) f = f x"

lemma bind_res_Inr_iff [simp]:
  "bind_res m f = Inr y \<longleftrightarrow> (\<exists>x. m = Inr x \<and> f x = Inr y)"
  by (cases m) auto

text \<open>Conversion to the 32-bit \<open>int\<close>, and the test that a signed result fits in it.\<close>

definition c_int :: "int \<Rightarrow> int" where
  "c_int x = (x + 2 ^ 31) mod 2 ^ 32 - 2 ^ 31"

definition fits_int :: "int \<Rightarrow> bool" where
  "fits_int x \<longleftrightarrow> - (2 ^ 31) \<le> x \<and> x < 2 ^ 31"

lemma c_int_id: "fits_int x \<Longrightarrow> c_int x = x"
  by (simp add: fits_int_def c_int_def)

named_theorems slab_simps "field equations of the slab operations"
named_theorems wf_intros "preservation of well-formedness"

section \<open>Bits of words\<close>

lemma unat_u64_bound: "unat (x :: u64) < 18446744073709551616"
proof -
  have "(unsigned x :: nat) < 2 ^ LENGTH(64)" by (rule unsigned_less)
  then show ?thesis by simp
qed

lemma word_eq_zero_iff_bits: "(w :: 'a :: len word) = 0 \<longleftrightarrow> (\<forall>n < LENGTH('a). \<not> bit w n)"
proof
  assume "\<forall>n < LENGTH('a). \<not> bit w n"
  then show "w = 0" by (intro bit_word_eqI) simp
qed simp

lemma word_nonzero_bit: "(w :: 'a :: len word) \<noteq> 0 \<Longrightarrow> \<exists>n < LENGTH('a). bit w n"
  by (simp add: word_eq_zero_iff_bits)

text \<open>
  The trailing-zero count as a natural number: the length of the run of clear bits from
  bit 0. It is \<open>LENGTH('a)\<close> on 0, as the \<open>tzcnt\<close> instruction is.
\<close>

definition ctz :: "'a :: len word \<Rightarrow> nat" where
  "ctz w = length (takeWhile (\<lambda>n. \<not> bit w n) [0..<LENGTH('a)])"

definition clz :: "'a :: len word \<Rightarrow> nat" where
  "clz w = length (takeWhile (\<lambda>n. \<not> bit w n) (rev [0..<LENGTH('a)]))"

lemma takeWhile_upt_least:
  assumes "P m" and "m < n" and "\<And>k. k < m \<Longrightarrow> \<not> P k"
  shows "length (takeWhile (\<lambda>k. \<not> P k) [0..<n]) = m"
proof -
  have split: "[0..<n] = [0..<m] @ m # [Suc m..<n]"
    using assms(2) upt_add_eq_append [of 0 m "n - m"] by (simp add: upt_conv_Cons)
  have "takeWhile (\<lambda>k. \<not> P k) [0..<n] = [0..<m]"
    unfolding split using assms(1,3)
    by (subst takeWhile_append2) auto
  then show ?thesis by simp
qed

lemma ctz_eqI:
  fixes w :: "'a :: len word"
  assumes "bit w m" and "\<And>k. k < m \<Longrightarrow> \<not> bit w k"
  shows "ctz w = m"
  unfolding ctz_def
  using assms(1) bit_imp_le_length [OF assms(1)] assms(2) by (rule takeWhile_upt_least)

lemma ctz_zero [simp]: "ctz (0 :: 'a :: len word) = LENGTH('a)"
  by (simp add: ctz_def takeWhile_eq_all_conv [THEN iffD2])

lemma ctz_props:
  fixes w :: "'a :: len word"
  assumes "w \<noteq> 0"
  shows "bit w (ctz w)" and "ctz w < LENGTH('a)" and "k < ctz w \<Longrightarrow> \<not> bit w k"
proof -
  let ?m = "LEAST n. bit w n"
  from assms obtain n where n: "bit w n" using word_nonzero_bit by blast
  then have m: "bit w ?m" by (rule LeastI)
  have low: "\<And>k. k < ?m \<Longrightarrow> \<not> bit w k" by (rule not_less_Least)
  have eq: "ctz w = ?m" using m low by (rule ctz_eqI)
  show "bit w (ctz w)" using m by (simp add: eq)
  then show "ctz w < LENGTH('a)" by (rule bit_imp_le_length)
  show "k < ctz w \<Longrightarrow> \<not> bit w k" unfolding eq by (rule low)
qed

lemma ctz_le: "bit (w :: 'a :: len word) k \<Longrightarrow> ctz w \<le> k"
  by (cases "w = 0") (auto intro: leI dest: ctz_props(3))

lemma ctz_less_iff: "ctz (w :: 'a :: len word) < LENGTH('a) \<longleftrightarrow> w \<noteq> 0"
  by (cases "w = 0") (simp_all add: ctz_props(2))

text \<open>Clearing the lowest set bit, \<open>w & (w - 1)\<close> (the \<open>blsr\<close> instruction).\<close>

lemma minus_one_lowest:
  fixes w :: "'a :: len word"
  assumes "w \<noteq> 0"
  shows "w - 1 = unset_bit (ctz w) w OR mask (ctz w)"
proof -
  let ?k = "ctz w"
  let ?u = "unset_bit ?k w"
  note k = ctz_props [OF assms]
  have "w = ?u OR push_bit ?k 1"
    by (rule bit_word_eqI) (auto simp: bit_simps k)
  also have "\<dots> = ?u + push_bit ?k 1"
    by (rule disjunctive_add [symmetric]) (auto simp: bit_simps)
  finally have w: "w = ?u + 2 ^ ?k" by simp
  have "w - 1 = (?u + 2 ^ ?k) - 1"
    using w by (rule arg_cong)
  also have "\<dots> = ?u + mask ?k"
    by (simp only: mask_eq_exp_minus_1 add_diff_eq)
  also have "\<dots> = ?u OR mask ?k"
    using k(3) by (intro disjunctive_add) (auto simp: bit_simps)
  finally show ?thesis .
qed

lemma blsr_unset_bit:
  fixes w :: "'a :: len word"
  shows "w AND (w - 1) = unset_bit (ctz w) w"
proof (cases "w = 0")
  case True
  then show ?thesis by (simp add: bit_eq_iff bit_simps)
next
  case False
  have "w AND (unset_bit (ctz w) w OR mask (ctz w)) = unset_bit (ctz w) w"
    using ctz_props [OF False] by (intro bit_word_eqI) (auto simp: bit_simps)
  then show ?thesis by (simp only: minus_one_lowest [OF False])
qed

lemma bit_blsr:
  fixes w :: "'a :: len word"
  shows "bit (w AND (w - 1)) n \<longleftrightarrow> bit w n \<and> n \<noteq> ctz w"
  unfolding blsr_unset_bit by (auto simp: bit_unset_bit_iff)

lemma blsr_less:
  fixes w :: "'a :: len word"
  assumes "w \<noteq> 0"
  shows "unat (w AND (w - 1)) < unat w"
proof -
  have "w AND (w - 1) \<le> w" by (rule word_and_le2)
  moreover have "w AND (w - 1) \<noteq> w"
    using bit_blsr [of w "ctz w"] ctz_props(1) [OF assms] by auto
  ultimately have "w AND (w - 1) < w" by order
  then show ?thesis by (simp only: word_less_nat_alt)
qed

text \<open>A word given by its bits.\<close>

definition word_of_bits :: "(nat \<Rightarrow> bool) \<Rightarrow> 'a :: len word" where
  "word_of_bits f = foldr (\<lambda>i w. if f i then set_bit i w else w) [0..<LENGTH('a)] 0"

lemma bit_foldr_set_bit:
  "bit (foldr (\<lambda>i w. if f i then set_bit i w else w) xs (0 :: 'a :: len word)) n
     \<longleftrightarrow> n < LENGTH('a) \<and> n \<in> set xs \<and> f n"
  by (induction xs) (auto simp: bit_simps)

lemma bit_word_of_bits [simp]:
  "bit (word_of_bits f :: 'a :: len word) n \<longleftrightarrow> n < LENGTH('a) \<and> f n"
  unfolding word_of_bits_def bit_foldr_set_bit by simp

section \<open>Casts between the integer types\<close>

lemma unat_ucast_up [simp]: "unat (ucast (w :: u32) :: u64) = unat w"
proof -
  have "unat w < 2 ^ 32" using unsigned_less [of w, where 'a = nat] by simp
  then show ?thesis by (simp add: unsigned_ucast_eq take_bit_nat_eq_self_iff)
qed

lemma unat_ucast_down: "unat (ucast (w :: u64) :: u32) = unat w mod 2 ^ 32"
  by (simp add: unsigned_ucast_eq take_bit_nat_def)

section \<open>Decimal numerals\<close>

fun decimal :: "nat \<Rightarrow> string" where
  "decimal n = (if n < 10 then [char_of (48 + n)] else decimal (n div 10) @ [char_of (48 + n mod 10)])"

declare decimal.simps [simp del]

lemma of_char_digit: "d < 10 \<Longrightarrow> (of_char (char_of (48 + d) :: char) :: int) = 48 + int d"
proof -
  assume d: "d < 10"
  have "(of_char (char_of (48 + d) :: char) :: nat) = 48 + d" using d by simp
  then show ?thesis by (metis of_nat_of_char of_nat_add of_nat_numeral)
qed

end
