(* ===== verification/Bits.thy ===== *)
theory Bits
  imports Prelude
begin

text \<open>
  The bit primitives of \<open>src/lib/optimized/bits.h\<close>. The C++ functions are templates over
  \<open>uint32_t\<close> and \<open>uint64_t\<close>; the model is polymorphic in the width \<open>LENGTH('a)\<close>, so one
  definition stands for both instances. A shift by the width or more is undefined in C++:
  statements about a shift assume the amount is below the width.
\<close>

section \<open>Counting instructions\<close>

definition popc :: "'a :: len word \<Rightarrow> nat" where
  "popc w = length (filter (bit w) [0..<LENGTH('a)])"

definition popc_below :: "'a :: len word \<Rightarrow> nat \<Rightarrow> nat" where
  "popc_below w j = length (filter (bit w) [0..<j])"

definition bitcount :: "'a :: len word \<Rightarrow> 'a word" where
  "bitcount v = of_nat (popc v)"

definition tzcnt :: "'a :: len word \<Rightarrow> 'a word" where
  "tzcnt v = of_nat (ctz v)"

definition lzcnt :: "'a :: len word \<Rightarrow> 'a word" where
  "lzcnt v = of_nat (clz v)"

text \<open>
  The parallel bit deposit: the low bits of the first operand go, in order, to the
  positions of the set bits of the second.
\<close>

definition pdep :: "'a :: len word \<Rightarrow> 'a word \<Rightarrow> 'a word" where
  "pdep src m = word_of_bits (\<lambda>j. bit m j \<and> bit src (popc_below m j))"

section \<open>Searching\<close>

definition find_first_one :: "'a :: len word \<Rightarrow> 'a word" where
  "find_first_one v = tzcnt v"

definition find_first_zero :: "'a :: len word \<Rightarrow> 'a word" where
  "find_first_zero v = tzcnt (NOT v)"

definition find_last_one :: "'a :: len word \<Rightarrow> 'a word" where
  "find_last_one v = of_nat (LENGTH('a) - 1) - lzcnt v"

definition find_last_zero :: "'a :: len word \<Rightarrow> 'a word" where
  "find_last_zero v = of_nat (LENGTH('a) - 1) - lzcnt (NOT v)"

text \<open>The byte reversal of \<open>__builtin_bswap16/32/64\<close>, on a width of whole bytes.\<close>

definition bswap :: "'a :: len word \<Rightarrow> 'a word" where
  "bswap v = word_of_bits (\<lambda>i. bit v (8 * (LENGTH('a) div 8 - 1 - i div 8) + i mod 8))"

definition bits_next_p2 :: "'a :: len word \<Rightarrow> 'a word" where
  "bits_next_p2 v = (if v = 1 then 0 else push_bit (LENGTH('a) - unat (lzcnt (v - 1))) 1)"

definition to_mask :: "'a :: len word \<Rightarrow> 'a word" where
  "to_mask v = push_bit (unat v) 1 - 1"

definition nth_bit :: "'a :: len word \<Rightarrow> 'a word \<Rightarrow> 'a word" where
  "nth_bit v n = drop_bit (unat n) v AND 1"

definition get_nth_set_bit :: "'a :: len word \<Rightarrow> 'a word \<Rightarrow> 'a word" where
  "get_nth_set_bit v n = tzcnt (pdep (push_bit (unat n) 1) v)"

definition get_nth_unset_bit :: "'a :: len word \<Rightarrow> 'a word \<Rightarrow> 'a word" where
  "get_nth_unset_bit v n = tzcnt (pdep (push_bit (unat n) 1) (NOT v))"

section \<open>Facts about the counts\<close>

lemma length_less_exp: "LENGTH('a :: len) < 2 ^ LENGTH('a)"
  by (rule less_exp)

lemma ctz_le_length: "ctz (w :: 'a :: len word) \<le> LENGTH('a)"
  by (cases "w = 0") (auto dest: ctz_props(2))

lemma clz_le_length: "clz (w :: 'a :: len word) \<le> LENGTH('a)"
  unfolding clz_def by (metis length_rev length_takeWhile_le length_upt minus_nat.diff_0)

lemma unat_of_nat_le_length:
  "n \<le> LENGTH('a) \<Longrightarrow> unat (of_nat n :: 'a :: len word) = n"
  using le_less_trans [OF _ length_less_exp] by (auto simp: unat_of_nat intro: mod_less)

lemma unat_tzcnt [simp]: "unat (tzcnt (w :: 'a :: len word)) = ctz w"
  by (simp add: tzcnt_def unat_of_nat_le_length ctz_le_length)

lemma unat_lzcnt [simp]: "unat (lzcnt (w :: 'a :: len word)) = clz w"
  by (simp add: lzcnt_def unat_of_nat_le_length clz_le_length)

lemma clz_zero [simp]: "clz (0 :: 'a :: len word) = LENGTH('a)"
  unfolding clz_def by (simp add: takeWhile_eq_all_conv [THEN iffD2])

lemma clz_eqI:
  fixes w :: "'a :: len word"
  assumes "bit w m" and "\<And>k. m < k \<Longrightarrow> \<not> bit w k"
  shows "clz w = LENGTH('a) - 1 - m"
proof -
  have m: "m < LENGTH('a)" using assms(1) by (rule bit_imp_le_length)
  have split: "rev [0..<LENGTH('a)] = rev [Suc m..<LENGTH('a)] @ m # rev [0..<m]"
    using m upt_add_eq_append [of 0 m "LENGTH('a) - m"] by (simp add: upt_conv_Cons)
  have "takeWhile (\<lambda>k. \<not> bit w k) (rev [0..<LENGTH('a)]) = rev [Suc m..<LENGTH('a)]"
    unfolding split using assms by (subst takeWhile_append2) auto
  then show ?thesis unfolding clz_def by simp
qed

lemma clz_props:
  fixes w :: "'a :: len word"
  assumes "w \<noteq> 0"
  shows "clz w < LENGTH('a)" and "bit w (LENGTH('a) - 1 - clz w)"
    and "LENGTH('a) - 1 - clz w < k \<Longrightarrow> \<not> bit w k"
proof -
  let ?S = "{n. bit w n}"
  have fin: "finite ?S"
    by (rule finite_subset [of _ "{..<LENGTH('a)}"]) (auto dest: bit_imp_le_length)
  have ne: "?S \<noteq> {}" using word_nonzero_bit [OF assms] by blast
  let ?m = "Max ?S"
  have m: "bit w ?m" using Max_in [OF fin ne] by simp
  have hi: "\<not> bit w k" if "?m < k" for k
    using Max_ge [OF fin, of k] that by (metis mem_Collect_eq not_le)
  have len: "?m < LENGTH('a)" using m by (rule bit_imp_le_length)
  have eq: "clz w = LENGTH('a) - 1 - ?m" using m hi by (rule clz_eqI)
  then have pos: "LENGTH('a) - 1 - clz w = ?m" using len by linarith
  show "clz w < LENGTH('a)" using eq len by linarith
  show "bit w (LENGTH('a) - 1 - clz w)" unfolding pos by (rule m)
  show "LENGTH('a) - 1 - clz w < k \<Longrightarrow> \<not> bit w k" unfolding pos by (rule hi)
qed

lemma popc_eq_0_iff: "popc (w :: 'a :: len word) = 0 \<longleftrightarrow> w = 0"
  by (auto simp: popc_def filter_empty_conv word_eq_zero_iff_bits)

lemma popc_below_Suc: "popc_below w (Suc j) = popc_below w j + (if bit w j then 1 else 0)"
  by (simp add: popc_below_def)

lemma popc_below_length: "popc_below (w :: 'a :: len word) LENGTH('a) = popc w"
  by (simp add: popc_def popc_below_def)

lemma popc_below_mono: "i \<le> j \<Longrightarrow> popc_below w i \<le> popc_below w j"
  by (induction j rule: dec_induct) (auto simp: popc_below_Suc)

lemma popc_below_strict: "bit w i \<Longrightarrow> i < j \<Longrightarrow> popc_below w i < popc_below w j"
  using popc_below_mono [of "Suc i" j w] by (simp add: popc_below_Suc)

lemma popc_below_inj:
  "bit w i \<Longrightarrow> bit w j \<Longrightarrow> popc_below w i = popc_below w j \<Longrightarrow> i = j"
  by (metis nat_neq_iff popc_below_strict)

lemma nth_set_bit_exists:
  fixes w :: "'a :: len word"
  assumes "n < popc_below w m"
  shows "\<exists>k < m. bit w k \<and> popc_below w k = n"
  using assms
proof (induction m)
  case 0
  then show ?case by (simp add: popc_below_def)
next
  case (Suc m)
  show ?case
  proof (cases "n < popc_below w m")
    case True
    then show ?thesis using Suc.IH less_SucI by blast
  next
    case False
    then show ?thesis using Suc.prems by (auto simp: popc_below_Suc split: if_splits)
  qed
qed

section \<open>Correctness of the searches\<close>

lemma find_first_one_props:
  fixes v :: "'a :: len word"
  assumes "v \<noteq> 0"
  shows "bit v (unat (find_first_one v))" and "k < unat (find_first_one v) \<Longrightarrow> \<not> bit v k"
  using ctz_props [OF assms] by (simp_all add: find_first_one_def)

lemma unat_push_bit_one:
  assumes "n < LENGTH('a)"
  shows "unat (push_bit n (1 :: 'a :: len word)) = 2 ^ n"
proof -
  have "unat (of_nat (2 ^ n) :: 'a word) = 2 ^ n"
    using assms by (simp only: unat_of_nat) simp
  then show ?thesis by simp
qed

lemma bit_highest_bounds:
  fixes w :: "'a :: len word"
  assumes "bit w m" and "\<And>k. m < k \<Longrightarrow> \<not> bit w k"
  shows "2 ^ m \<le> unat w" and "unat w < 2 ^ Suc m"
proof -
  have m: "m < LENGTH('a)" using assms(1) by (rule bit_imp_le_length)
  have "take_bit (Suc m) w = w"
    by (rule bit_word_eqI) (use assms(2) in \<open>auto simp: bit_simps dest: not_less_eq [THEN iffD1]\<close>)
  then have "take_bit (Suc m) (unat w) = unat w"
    by (metis unsigned_take_bit_eq)
  then show "unat w < 2 ^ Suc m"
    by (metis take_bit_nat_eq_self_iff)
  have "bit (unat w) m" using assms(1) by (simp add: bit_unsigned_iff)
  then show "2 ^ m \<le> unat w"
    by (metis bit_nat_iff div_less even_zero not_less bit_iff_odd)
qed

lemma get_nth_set_bit_ctz:
  fixes v n :: "'a :: len word"
  assumes "unat n < popc v"
  shows "bit v (unat (get_nth_set_bit v n)) \<and> popc_below v (unat (get_nth_set_bit v n)) = unat n"
proof -
  obtain k where k: "k < LENGTH('a)" "bit v k" "popc_below v k = unat n"
    using nth_set_bit_exists [of "unat n" v "LENGTH('a)"] assms by (auto simp: popc_below_length)
  have n: "unat n < LENGTH('a)"
    using assms by (metis length_filter_le length_upt minus_nat.diff_0 order_less_le_trans popc_def)
  have "ctz (pdep (push_bit (unat n) 1) v) = k"
  proof (rule ctz_eqI)
    show "bit (pdep (push_bit (unat n) 1) v) k"
      using k n by (simp add: pdep_def bit_simps)
    show "\<not> bit (pdep (push_bit (unat n) 1) v) j" if "j < k" for j
      using k popc_below_inj [of v j k] that by (auto simp: pdep_def bit_simps)
  qed
  then show ?thesis using k by (simp add: get_nth_set_bit_def)
qed


lemma unat_find_last_one:
  fixes v :: "'a :: len word"
  assumes "v \<noteq> 0"
  shows "unat (find_last_one v) = LENGTH('a) - 1 - clz v"
proof -
  have c: "clz v \<le> LENGTH('a) - 1" using clz_props(1) [OF assms] by linarith
  have "find_last_one v = of_nat (LENGTH('a) - 1 - clz v)"
    unfolding find_last_one_def lzcnt_def of_nat_diff [OF c] by (rule refl)
  then show ?thesis by (simp only: unat_of_nat_le_length [OF diff_le_self [THEN order_trans, OF diff_le_self]])
qed

lemma to_mask_bit:
  fixes v :: "'a :: len word"
  assumes "unat v < LENGTH('a)"
  shows "bit (to_mask v) n \<longleftrightarrow> n < unat v"
proof -
  have "to_mask v = mask (unat v)"
    by (simp add: to_mask_def mask_eq_exp_minus_1)
  then show ?thesis using assms by (auto simp: bit_simps)
qed

lemma nth_bit_iff: "nth_bit v n = (if bit v (unat n) then 1 else 0)"
  by (simp add: nth_bit_def bit_iff_odd_drop_bit and_one_eq mod_2_eq_odd)

lemma next_p2_shift:
  fixes v :: "'a :: len word"
  assumes "1 < unat v" and "unat v \<le> 2 ^ (LENGTH('a) - 1)"
  defines "m \<equiv> LENGTH('a) - 1 - clz (v - 1)"
  shows "unat (bits_next_p2 v) = 2 ^ Suc m" and "2 ^ m < unat v" and "unat v \<le> 2 ^ Suc m"
proof -
  have v1: "v \<noteq> 1" using assms(1) by auto
  have "v \<noteq> 0" using assms(1) by auto
  then have uv: "unat (v - 1) = unat v - 1" by (rule unat_minus_one)
  then have nz: "v - 1 \<noteq> 0" using v1 by simp
  note c = clz_props [OF nz]
  have b: "2 ^ m \<le> unat (v - 1)" "unat (v - 1) < 2 ^ Suc m"
    using bit_highest_bounds [OF c(2) c(3)] by (simp_all add: m_def)
  have pred: "a < b" if "a \<le> b - 1" "1 < b" for a b :: nat using that by linarith
  have succ: "b \<le> a" if "b - 1 < a" for a b :: nat using that by linarith
  show lo: "2 ^ m < unat v" using b(1) assms(1) unfolding uv by (rule pred)
  show "unat v \<le> 2 ^ Suc m" using b(2) unfolding uv by (rule succ)
  have "(2 :: nat) ^ m < 2 ^ (LENGTH('a) - 1)" using lo assms(2) by (rule less_le_trans)
  then have "m < LENGTH('a) - 1" by (rule power_less_imp_less_exp [rotated]) simp
  then have m: "Suc m < LENGTH('a)" by linarith
  have "LENGTH('a) - clz (v - 1) = Suc m" using c(1) by (simp add: m_def)
  then show "unat (bits_next_p2 v) = 2 ^ Suc m"
    using v1 unat_push_bit_one [OF m] by (simp add: bits_next_p2_def)
qed

section \<open>Properties\<close>

text \<open>
  \<open>find_first_one\<close> and \<open>find_last_one\<close> return the lowest and the highest set bit of a
  non-zero word: the bit at the result is set and every bit before (after) it is clear.
\<close>

theorem find_one_extremes:
  fixes v :: "'a :: len word"
  assumes "v \<noteq> 0"
  shows "bit v (unat (find_first_one v)) \<and> bit v (unat (find_last_one v))
    \<and> (\<forall>k. bit v k \<longrightarrow> unat (find_first_one v) \<le> k \<and> k \<le> unat (find_last_one v))"
proof -
  have "bit v (unat (find_first_one v))" using assms by (rule find_first_one_props)
  moreover have "bit v (unat (find_last_one v))"
    using clz_props(2) [OF assms] by (simp add: unat_find_last_one [OF assms])
  moreover have "unat (find_first_one v) \<le> k" if "bit v k" for k
    using find_first_one_props(2) [OF assms] that by (meson leI)
  moreover have "k \<le> unat (find_last_one v)" if "bit v k" for k
    using clz_props(3) [OF assms] that unfolding unat_find_last_one [OF assms] by (meson leI)
  ultimately show ?thesis by blast
qed

theorem find_one_extremes_witness:
  "(40 :: u32) \<noteq> 0 \<and> bit (40 :: u32) (unat (find_last_one (40 :: u32)))"
  using find_one_extremes [of "40 :: u32"] by simp

text \<open>
  \<open>get_nth_set_bit v n\<close> is the position of the set bit of \<open>v\<close> with exactly \<open>n\<close> set
  bits below it, whenever \<open>v\<close> has more than \<open>n\<close> set bits; with fewer it is the width.
\<close>

theorem get_nth_set_bit_select:
  fixes v n :: "'a :: len word"
  shows "if unat n < popc v
    then bit v (unat (get_nth_set_bit v n)) \<and> popc_below v (unat (get_nth_set_bit v n)) = unat n
    else get_nth_set_bit v n = of_nat LENGTH('a)"
proof (cases "unat n < popc v")
  case True
  then show ?thesis using get_nth_set_bit_ctz by simp
next
  case False
  have "\<not> bit (pdep (push_bit (unat n) 1) v) j" for j
  proof
    assume "bit (pdep (push_bit (unat n) 1) v) j"
    then have j: "bit v j" "j < LENGTH('a)" "popc_below v j = unat n"
      by (auto simp: pdep_def bit_simps)
    then show False
      using popc_below_strict [OF j(1,2)] False by (simp add: popc_below_length)
  qed
  then have "pdep (push_bit (unat n) 1) v = 0" by (simp add: word_eq_zero_iff_bits)
  with False show ?thesis by (simp add: get_nth_set_bit_def tzcnt_def)
qed

text \<open>
  \<open>bits::next_p2\<close> on an argument from 2 up to the highest power of two of the type is the
  least power of two that is at least the argument.
\<close>

theorem bits_next_p2_least:
  fixes v :: "'a :: len word"
  assumes "1 < unat v" and "unat v \<le> 2 ^ (LENGTH('a) - 1)"
  shows "\<exists>k. unat (bits_next_p2 v) = 2 ^ k \<and> unat v \<le> 2 ^ k \<and> (\<forall>j. unat v \<le> 2 ^ j \<longrightarrow> k \<le> j)"
proof -
  let ?m = "LENGTH('a) - 1 - clz (v - 1)"
  note np = next_p2_shift [OF assms]
  have least: "Suc ?m \<le> j" if "unat v \<le> 2 ^ j" for j
  proof -
    have "(2 :: nat) ^ ?m < 2 ^ j" using np(2) that by (rule less_le_trans)
    then have "?m < j" by (rule power_less_imp_less_exp [rotated]) simp
    then show ?thesis by (rule Suc_leI)
  qed
  show ?thesis using np(1,3) least by (intro exI [of _ "Suc ?m"] conjI allI impI)
qed

theorem bits_next_p2_least_witness:
  "\<exists>k. unat (bits_next_p2 (100 :: u32)) = 2 ^ k \<and> (100 :: nat) \<le> 2 ^ k"
  using bits_next_p2_least [of "100 :: u32"] by auto

text \<open>
  the two corners where \<open>bits::next_p2\<close> and \<open>cmath::next_p2\<close>-style rounding differ
  from the name: \<open>bits::next_p2(1)\<close> is 0, which is not a power of two, and \<open>find_last_one(0)\<close>
  is the all-ones word (the documented -1).
\<close>

theorem bits_corner_values:
  "bits_next_p2 (1 :: 'a :: len word) = 0 \<and> find_last_one (0 :: 'a word) = - 1"
proof -
  have "find_last_one (0 :: 'a word) = of_nat (LENGTH('a) - 1) - of_nat LENGTH('a)"
    by (simp add: find_last_one_def lzcnt_def)
  also have "\<dots> = - 1"
    by (simp add: of_nat_diff Suc_le_eq)
  finally show ?thesis by (simp add: bits_next_p2_def)
qed

end
