(* ===== verification/Const_Math.thy ===== *)
theory Const_Math
  imports Bits
begin

text \<open>
  The arithmetic helpers of \<open>src/lib/optimized/const_math.h\<close> (namespace \<open>cmath\<close>) and of
  \<open>src/lib/util/const_utils.h\<close>: rounding to a multiple, integer logarithm, powers of two.
  All of them work on \<open>'a word\<close>, so sums and products wrap as they do in C++.
\<close>

section \<open>Definitions\<close>

definition cmath_min :: "'a :: len word \<Rightarrow> 'a word \<Rightarrow> 'a word" where
  "cmath_min a b = (if a < b then a else b)"

definition cmath_max :: "'a :: len word \<Rightarrow> 'a word \<Rightarrow> 'a word" where
  "cmath_max a b = (if a > b then a else b)"

definition roundup :: "'a :: len word \<Rightarrow> 'a word \<Rightarrow> 'a word" where
  "roundup a b = b * ((a + (b - 1)) div b)"

definition rounddown :: "'a :: len word \<Rightarrow> 'a word \<Rightarrow> 'a word" where
  "rounddown a b = b * (a div b)"

definition roundup_div :: "'a :: len word \<Rightarrow> 'a word \<Rightarrow> 'a word" where
  "roundup_div a b = (a + (b - 1)) div b"

definition fast_mod :: "'a :: len word \<Rightarrow> 'a word \<Rightarrow> 'a word" where
  "fast_mod v m = (if v < m then v else v mod m)"

text \<open>
  One of the unrolled stages of \<open>ulog2\<close>: \<open>s = (v > 2^k - 1) << log k; v >>= s; r |= s\<close>.
\<close>

definition ulog2_stage :: "nat \<Rightarrow> 'a :: len word \<times> u32 \<Rightarrow> 'a word \<times> u32" where
  "ulog2_stage k vr = (let s = (if fst vr > mask k then k else 0)
     in (drop_bit s (fst vr), snd vr OR of_nat s))"

definition ulog2 :: "'a :: len word \<Rightarrow> u32" where
  "ulog2 v =
     (let vr = (if LENGTH('a) = 64 then ulog2_stage 16 (ulog2_stage 32 (v, 0))
                else ulog2_stage 16 (v, 0));
          vr = ulog2_stage 2 (ulog2_stage 4 (ulog2_stage 8 vr))
      in snd vr OR ucast (drop_bit 1 (fst vr)))"

text \<open>\<open>v |= v >> n\<close>, and the five or six of them that \<open>next_p2\<close> and \<open>prev_p2\<close> share.\<close>

definition or_shift :: "nat \<Rightarrow> 'a :: len word \<Rightarrow> 'a word" where
  "or_shift n v = v OR drop_bit n v"

definition smear :: "'a :: len word \<Rightarrow> 'a word" where
  "smear v =
     (let v = or_shift 16 (or_shift 8 (or_shift 4 (or_shift 2 (or_shift 1 v))))
      in if LENGTH('a) = 64 then or_shift 32 v else v)"

definition cmath_next_p2 :: "'a :: len word \<Rightarrow> 'a word" where
  "cmath_next_p2 v = smear (v - 1) + 1"

definition prev_p2 :: "'a :: len word \<Rightarrow> 'a word" where
  "prev_p2 v = smear (drop_bit 1 v) + 1"

definition is_pow2 :: "'a :: len word \<Rightarrow> u32" where
  "is_pow2 v = (if v AND (v - 1) = 0 then 1 else 0)"

text \<open>\<open>cutil::type_size_log<T>()\<close> and \<open>cutil::sizeof_bits<T>()\<close>, of \<open>sizeof(T)\<close>.\<close>

definition type_size_log :: "u64 \<Rightarrow> u32" where
  "type_size_log size_of = ulog2 (cmath_next_p2 size_of)"

definition sizeof_bits :: "u64 \<Rightarrow> u32" where
  "sizeof_bits size_of = ucast (8 * size_of)"

section \<open>Rounding\<close>

lemma unat_roundup:
  fixes a b :: "'a :: len word"
  assumes "0 < b" and "unat a + unat b \<le> 2 ^ LENGTH('a)"
  shows "unat (roundup a b) = unat b * ((unat a + (unat b - 1)) div unat b)"
proof -
  have b: "0 < unat b" using assms(1) by (simp add: word_less_nat_alt)
  have b1: "unat (b - 1) = unat b - 1" using assms(1) by (intro unat_minus_one) auto
  have lt: "unat a + (unat b - 1) < 2 ^ LENGTH('a)" using assms(2) b by linarith
  have sum: "unat (a + (b - 1)) = unat a + (unat b - 1)"
    using lt by (simp add: unat_word_ariths b1)
  have "unat b * ((unat a + (unat b - 1)) div unat b) \<le> unat a + (unat b - 1)"
    by (rule times_div_less_eq_dividend)
  then have "unat b * ((unat a + (unat b - 1)) div unat b) < 2 ^ LENGTH('a)"
    using lt by (rule le_less_trans)
  then show ?thesis
    by (simp add: roundup_def unat_word_ariths(2) unat_div sum)
qed

lemma unat_rounddown:
  fixes a b :: "'a :: len word"
  shows "unat (rounddown a b) = unat b * (unat a div unat b)"
proof -
  have "unat b * (unat a div unat b) \<le> unat a" by (rule times_div_less_eq_dividend)
  also have "\<dots> < 2 ^ LENGTH('a)" by (rule unsigned_less)
  finally show ?thesis by (simp add: rounddown_def unat_word_ariths(2) unat_div)
qed

lemma roundup_bounds:
  fixes a b :: "'a :: len word"
  assumes "0 < b" and "unat a + unat b \<le> 2 ^ LENGTH('a)"
  shows "unat b dvd unat (roundup a b)" and "unat a \<le> unat (roundup a b)"
    and "unat (roundup a b) < unat a + unat b"
proof -
  have b: "0 < unat b" using assms(1) by (simp add: word_less_nat_alt)
  let ?q = "(unat a + (unat b - 1)) div unat b"
  have q: "unat b * ?q + (unat a + (unat b - 1)) mod unat b = unat a + (unat b - 1)"
    by (rule mult_div_mod_eq)
  have m: "(unat a + (unat b - 1)) mod unat b < unat b" using b by simp
  note eq = unat_roundup [OF assms]
  show "unat b dvd unat (roundup a b)" by (simp add: eq)
  show "unat a \<le> unat (roundup a b)" unfolding eq using q m by linarith
  show "unat (roundup a b) < unat a + unat b" unfolding eq using q b by linarith
qed

lemma rounddown_bounds:
  fixes a b :: "'a :: len word"
  assumes "0 < b"
  shows "unat b dvd unat (rounddown a b)" and "unat (rounddown a b) \<le> unat a"
    and "unat a < unat (rounddown a b) + unat b"
proof -
  have b: "0 < unat b" using assms by (simp add: word_less_nat_alt)
  have q: "unat b * (unat a div unat b) + unat a mod unat b = unat a" by (rule mult_div_mod_eq)
  have m: "unat a mod unat b < unat b" using b by simp
  show "unat b dvd unat (rounddown a b)" by (simp add: unat_rounddown)
  show "unat (rounddown a b) \<le> unat a" unfolding unat_rounddown using q by linarith
  show "unat a < unat (rounddown a b) + unat b" unfolding unat_rounddown using q m by linarith
qed

section \<open>Smearing\<close>

definition smeared :: "nat \<Rightarrow> 'a :: len word \<Rightarrow> 'a word \<Rightarrow> bool" where
  "smeared m v w \<longleftrightarrow> (\<forall>n. bit w n \<longleftrightarrow> (\<exists>i < m. bit v (n + i)))"

lemma smeared_start: "smeared 1 v v"
  by (simp add: smeared_def)

lemma smeared_step: "smeared m v w \<Longrightarrow> smeared (m + m) v (or_shift m w)"
proof -
  assume s: "smeared m v w"
  have "(\<exists>i < m. bit v (n + i)) \<or> (\<exists>i < m. bit v (m + n + i)) \<longleftrightarrow> (\<exists>i < m + m. bit v (n + i))" for n
  proof
    assume "(\<exists>i < m. bit v (n + i)) \<or> (\<exists>i < m. bit v (m + n + i))"
    then show "\<exists>i < m + m. bit v (n + i)"
      by (metis add.assoc add.commute add_less_cancel_left trans_less_add1)
  next
    assume "\<exists>i < m + m. bit v (n + i)"
    then obtain i where i: "i < m + m" "bit v (n + i)" by blast
    show "(\<exists>i < m. bit v (n + i)) \<or> (\<exists>i < m. bit v (m + n + i))"
    proof (cases "i < m")
      case True
      then show ?thesis using i by blast
    next
      case False
      then have "i - m < m" and "n + i = m + n + (i - m)" using i by linarith+
      then show ?thesis using i by metis
    qed
  qed
  with s show ?thesis
    by (simp add: smeared_def or_shift_def bit_or_iff bit_drop_bit_eq)
qed

lemma smear_smeared:
  assumes "LENGTH('a :: len) = 32 \<or> LENGTH('a) = 64"
  shows "smeared LENGTH('a) (v :: 'a word) (smear v)"
proof -
  have s1: "smeared (1 + 1) v (or_shift 1 v)" by (intro smeared_step smeared_start)
  have s2: "smeared (2 + 2) v (or_shift 2 (or_shift 1 v))"
    using s1 by (intro smeared_step) (simp add: numeral_2_eq_2)
  have s4: "smeared (4 + 4) v (or_shift 4 (or_shift 2 (or_shift 1 v)))"
    using s2 by (intro smeared_step) simp
  have s8: "smeared (8 + 8) v (or_shift 8 (or_shift 4 (or_shift 2 (or_shift 1 v))))"
    using s4 by (intro smeared_step) simp
  have s16: "smeared (16 + 16) v (or_shift 16 (or_shift 8 (or_shift 4 (or_shift 2 (or_shift 1 v)))))"
    using s8 by (intro smeared_step) simp
  have s32: "smeared (32 + 32) v
      (or_shift 32 (or_shift 16 (or_shift 8 (or_shift 4 (or_shift 2 (or_shift 1 v))))))"
    using s16 by (intro smeared_step) simp
  show ?thesis using assms s16 s32 by (auto simp: smear_def Let_def)
qed

lemma smeared_mask:
  fixes v w :: "'a :: len word"
  assumes "smeared LENGTH('a) v w" and "bit v m" and "\<And>k. m < k \<Longrightarrow> \<not> bit v k"
  shows "w = mask (Suc m)"
proof (rule bit_word_eqI)
  fix n assume "n < LENGTH('a)"
  have m: "m < LENGTH('a)" using assms(2) by (rule bit_imp_le_length)
  have "bit w n \<longleftrightarrow> n \<le> m"
  proof
    assume "bit w n"
    then obtain i where "bit v (n + i)" using assms(1) by (auto simp: smeared_def)
    then have "n + i \<le> m" using assms(3) by (meson leI)
    then show "n \<le> m" by linarith
  next
    assume "n \<le> m"
    then have "m - n < LENGTH('a)" and "bit v (n + (m - n))" using m assms(2) by auto
    then show "bit w n" using assms(1) by (auto simp: smeared_def)
  qed
  then show "bit w n \<longleftrightarrow> bit (mask (Suc m) :: 'a word) n"
    using \<open>n < LENGTH('a)\<close> by (auto simp: bit_simps)
qed

lemma unat_smear_plus_one:
  fixes v :: "'a :: len word"
  assumes len: "LENGTH('a) = 32 \<or> LENGTH('a) = 64" and "v \<noteq> 0" and small: "unat v < 2 ^ (LENGTH('a) - 1)"
  defines "m \<equiv> LENGTH('a) - 1 - clz v"
  shows "unat (smear v + 1) = 2 ^ Suc m" and "2 ^ m \<le> unat v" and "unat v < 2 ^ Suc m"
proof -
  note c = clz_props [OF assms(2)]
  have b: "2 ^ m \<le> unat v" "unat v < 2 ^ Suc m"
    using bit_highest_bounds [OF c(2) c(3)] by (simp_all add: m_def)
  then show "2 ^ m \<le> unat v" and "unat v < 2 ^ Suc m" by simp_all
  have "(2 :: nat) ^ m < 2 ^ (LENGTH('a) - 1)" using b(1) small by (rule le_less_trans)
  then have "m < LENGTH('a) - 1" by (rule power_less_imp_less_exp [rotated]) simp
  then have m: "Suc m < LENGTH('a)" by linarith
  have "smear v = mask (Suc m)"
    using smear_smeared [OF len] c(2,3) unfolding m_def [symmetric] by (rule smeared_mask)
  then have "smear v + 1 = push_bit (Suc m) 1" by (simp add: mask_eq_exp_minus_1)
  then show "unat (smear v + 1) = 2 ^ Suc m" using unat_push_bit_one [OF m] by simp
qed

lemma smear_zero: "smear (0 :: 'a :: len word) = 0"
  by (simp add: smear_def or_shift_def)


section \<open>Integer logarithm\<close>

text \<open>
  What holds between two stages of \<open>ulog2\<close>: the shifted word is \<open>V div 2^R\<close>, it is
  non-zero and below \<open>2^k\<close>, and the accumulated shift \<open>R\<close> is a multiple of \<open>k\<close>.
\<close>

definition ulog2_inv :: "nat \<Rightarrow> nat \<Rightarrow> 'a :: len word \<times> u32 \<Rightarrow> bool" where
  "ulog2_inv V k vr \<longleftrightarrow> unat (fst vr) = V div 2 ^ unat (snd vr) \<and> 0 < unat (fst vr)
     \<and> unat (fst vr) < 2 ^ k \<and> k dvd unat (snd vr) \<and> unat (snd vr) + k \<le> 64"

lemma or_disjoint_power:
  assumes "2 ^ j + 2 ^ j dvd unat (r :: u32)" and "j < 32" and "unat r + 2 ^ j \<le> 64"
  shows "unat (r OR of_nat (2 ^ j)) = unat r + 2 ^ j"
proof -
  from assms(1) obtain q where "unat r = (2 ^ j + 2 ^ j) * q" by (elim dvdE)
  then have "unat r = 2 ^ j * (2 * q)" by simp
  then have "even (unat r div 2 ^ j)" by simp
  then have "\<not> bit (unat r) j" by (simp add: bit_iff_odd)
  then have nb: "\<not> bit r j" by (simp add: bit_unsigned_iff)
  have "r OR of_nat (2 ^ j) = r + of_nat (2 ^ j)"
    using nb by (intro disjunctive_add [symmetric]) (auto simp: bit_simps)
  moreover have "unat (of_nat (2 ^ j) :: u32) = 2 ^ j"
    using unat_push_bit_one [of j, where 'a = 32] assms(2) by simp
  ultimately show ?thesis using assms(3) by (simp add: unat_word_ariths)
qed

lemma gt_mask_iff: "k < LENGTH('a) \<Longrightarrow> (v :: 'a :: len word) > mask k \<longleftrightarrow> 2 ^ k \<le> unat v"
proof -
  assume k: "k < LENGTH('a)"
  have "push_bit k (1 :: 'a word) \<noteq> 0"
    using unat_push_bit_one [OF k] by (metis unat_0 power_not_zero zero_neq_numeral)
  then have "unat (mask k :: 'a word) = 2 ^ k - 1"
    using unat_minus_one unat_push_bit_one [OF k] by (fastforce simp: mask_eq_exp_minus_1)
  then show ?thesis by (simp add: word_less_nat_alt less_eq_Suc_le)
qed

lemma unat_drop_bit: "unat (drop_bit n (v :: 'a :: len word)) = unat v div 2 ^ n"
  using unat_drop_bit_eq [of n v] by (simp add: drop_bit_eq_div [of n "unat v"] del: drop_bit_eq_div)

lemma ulog2_stage_inv:
  fixes vr :: "'a :: len word \<times> u32"
  assumes inv: "ulog2_inv V (k + k) vr" and k: "k = 2 ^ j" "j < 6" "k < LENGTH('a)"
  shows "ulog2_inv V k (ulog2_stage k vr)"
proof (cases "2 ^ k \<le> unat (fst vr)")
  case False
  have "k dvd unat (snd vr)"
    using inv by (metis dvd_add_right_iff dvd_refl dvd_trans ulog2_inv_def)
  then show ?thesis using inv False k(3)
    by (auto simp: ulog2_inv_def ulog2_stage_def gt_mask_iff)
next
  case True
  let ?v = "fst vr" and ?r = "snd vr"
  have i: "unat ?v = V div 2 ^ unat ?r" "unat ?v < 2 ^ (k + k)" "k + k dvd unat ?r" "unat ?r + (k + k) \<le> 64"
    using inv by (simp_all add: ulog2_inv_def)
  have or_eq: "unat (?r OR of_nat k) = unat ?r + k"
    using or_disjoint_power [of j ?r] i(3,4) k by simp
  have st: "ulog2_stage k vr = (drop_bit k ?v, ?r OR of_nat k)"
    using True k(3) by (simp add: ulog2_stage_def gt_mask_iff)
  have "V div 2 ^ unat ?r div 2 ^ k = V div 2 ^ (unat ?r + k)"
    by (simp add: div_mult2_eq power_add)
  moreover have "0 < unat ?v div 2 ^ k" using True by (simp add: div_greater_zero_iff)
  moreover have "unat ?v div 2 ^ k < 2 ^ k"
    using i(2) by (simp add: less_mult_imp_div_less power_add)
  moreover have "k dvd unat ?r + k"
    using i(3) by (metis dvd_add dvd_refl dvd_add_left_iff dvd_trans)
  ultimately show ?thesis
    unfolding st ulog2_inv_def fst_conv snd_conv or_eq unat_drop_bit using i(1,4) by auto
qed

lemma ulog2_final:
  fixes vr :: "'a :: len word \<times> u32"
  assumes inv: "ulog2_inv V 2 vr"
  defines "R \<equiv> unat (snd vr OR ucast (drop_bit 1 (fst vr)))"
  shows "2 ^ R \<le> V \<and> V < 2 ^ Suc R"
proof -
  let ?v = "fst vr" and ?r = "snd vr"
  have i: "unat ?v = V div 2 ^ unat ?r" "0 < unat ?v" "unat ?v < 4" "2 dvd unat ?r" "unat ?r + 2 \<le> 64"
    using inv by (simp_all add: ulog2_inv_def)
  have half: "unat ?v div 2 = 0 \<or> unat ?v div 2 = 1" using i(3) by linarith
  have d: "unat (drop_bit 1 ?v) = unat ?v div 2" using unat_drop_bit [of 1 ?v] by simp
  have R: "R = unat ?r + unat ?v div 2"
  proof (cases "unat ?v div 2 = 0")
    case True
    then have "drop_bit 1 ?v = 0" using d by (metis unsigned_eq_0_iff)
    then show ?thesis using True by (simp add: R_def)
  next
    case False
    with half have one: "unat ?v div 2 = 1" by blast
    then have "drop_bit 1 ?v = 1" using d by (intro unsigned_word_eqI [where 'a = nat]) simp
    then show ?thesis
      using or_disjoint_power [of 0 ?r] i(4,5) one by (simp add: R_def numeral_2_eq_2)
  qed
  have lo: "2 ^ (unat ?v div 2) \<le> unat ?v" and hi: "unat ?v < 2 ^ Suc (unat ?v div 2)"
    using half i(2,3) by auto
  have "2 ^ R \<le> 2 ^ unat ?r * unat ?v" using lo by (simp add: R power_add)
  also have "\<dots> \<le> V" unfolding i(1) by (rule times_div_less_eq_dividend)
  finally have "2 ^ R \<le> V" .
  moreover have "V < 2 ^ unat ?r * 2 ^ Suc (unat ?v div 2)"
    using hi unfolding i(1) by (simp add: div_less_iff_less_mult mult.commute)
  ultimately show ?thesis by (simp add: R power_add)
qed


lemma ulog2_floor:
  fixes v :: "'a :: len word"
  assumes len: "LENGTH('a) = 32 \<or> LENGTH('a) = 64" and "v \<noteq> 0"
  shows "2 ^ unat (ulog2 v) \<le> unat v \<and> unat v < 2 ^ Suc (unat (ulog2 v))"
proof -
  have pos: "0 < unat v" using assms(2) by (simp add: unat_gt_0)
  have start: "ulog2_inv (unat v) LENGTH('a) (v, 0)"
    using pos len unsigned_less [of v, where 'a = nat] by (auto simp: ulog2_inv_def)
  have st: "ulog2_inv (unat v) k (ulog2_stage k vr)"
    if "ulog2_inv (unat v) (k + k) vr" "k = 2 ^ j" "j < 6" "k < LENGTH('a)"
    for k j and vr :: "'a word \<times> u32"
    using that by (rule ulog2_stage_inv)
  let ?vr = "if LENGTH('a) = 64 then ulog2_stage 16 (ulog2_stage 32 (v, 0)) else ulog2_stage 16 (v, 0)"
  have "ulog2_inv (unat v) 16 ?vr"
  proof (cases "LENGTH('a) = 64")
    case True
    then have "ulog2_inv (unat v) 32 (ulog2_stage 32 (v, 0))"
      using start by (intro st [of 32 _ 5]) simp_all
    then show ?thesis using True by simp (intro st [of 16 _ 4], simp_all)
  next
    case False
    then show ?thesis using start len by simp (intro st [of 16 _ 4], simp_all)
  qed
  then have "ulog2_inv (unat v) 8 (ulog2_stage 8 ?vr)"
    using len by (intro st [of 8 _ 3]) auto
  then have "ulog2_inv (unat v) 4 (ulog2_stage 4 (ulog2_stage 8 ?vr))"
    using len by (intro st [of 4 _ 2]) auto
  then have "ulog2_inv (unat v) 2 (ulog2_stage 2 (ulog2_stage 4 (ulog2_stage 8 ?vr)))"
    using len by (intro st [of 2 _ 1]) auto
  then show ?thesis unfolding ulog2_def Let_def by (rule ulog2_final)
qed

section \<open>Properties\<close>

text \<open>
  \<open>roundup a b\<close> is the least multiple of \<open>b\<close> that is at least \<open>a\<close>, and
  \<open>rounddown a b\<close> the greatest that is at most \<open>a\<close>, as long as \<open>a + b\<close> does not pass
  the end of the type.
\<close>

theorem rounding_tight:
  fixes a b :: "'a :: len word"
  assumes "0 < b" and "unat a + unat b \<le> 2 ^ LENGTH('a)"
  shows "unat b dvd unat (roundup a b) \<and> unat b dvd unat (rounddown a b)
    \<and> (\<forall>c. unat b dvd c \<longrightarrow> (unat a \<le> c \<longleftrightarrow> unat (roundup a b) \<le> c)
                       \<and> (c \<le> unat a \<longleftrightarrow> c \<le> unat (rounddown a b)))"
proof -
  note up = roundup_bounds [OF assms] and down = rounddown_bounds [OF assms(1), of a]
  have gap: "y \<le> c" if "unat b dvd c" "unat b dvd y" "y < c + unat b" for c y
  proof (rule ccontr)
    assume "\<not> y \<le> c"
    then have "unat b dvd y - c" "0 < y - c" "y - c < unat b" using that by auto
    then show False using nat_dvd_not_less by blast
  qed
  have "unat a \<le> c \<longleftrightarrow> unat (roundup a b) \<le> c" if "unat b dvd c" for c
    using gap [OF that up(1)] up(2,3) by linarith
  moreover have "c \<le> unat a \<longleftrightarrow> c \<le> unat (rounddown a b)" if "unat b dvd c" for c
    using gap [OF down(1) that] down(2,3) by linarith
  ultimately show ?thesis using up(1) down(1) by blast
qed

theorem rounding_tight_witness:
  "(0 :: u64) < 34048 \<and> unat (34048 :: u64) dvd unat (roundup (100000 :: u64) 34048)"
  using rounding_tight [of "34048 :: u64" 100000] by simp

text \<open>
  \<open>cmath::next_p2\<close> on 32 and 64 bits returns the least power of two at or above its
  argument, for every argument from 1 up to the highest power of two of the type, and
  \<open>prev_p2\<close> the greatest power of two at or below a non-zero argument.
\<close>

theorem cmath_powers_of_two:
  fixes v :: "'a :: len word"
  assumes len: "LENGTH('a) = 32 \<or> LENGTH('a) = 64"
  shows "(0 < unat v \<and> unat v \<le> 2 ^ (LENGTH('a) - 1) \<longrightarrow>
      (\<exists>k. unat (cmath_next_p2 v) = 2 ^ k \<and> unat v \<le> 2 ^ k \<and> 2 ^ k < 2 * unat v))
    \<and> (0 < unat v \<longrightarrow>
      (\<exists>k. unat (prev_p2 v) = 2 ^ k \<and> 2 ^ k \<le> unat v \<and> unat v < 2 * 2 ^ k))"
proof (intro conjI impI)
  assume v: "0 < unat v \<and> unat v \<le> 2 ^ (LENGTH('a) - 1)"
  then have um: "unat (v - 1) = unat v - 1" by (intro unat_minus_one) auto
  show "\<exists>k. unat (cmath_next_p2 v) = 2 ^ k \<and> unat v \<le> 2 ^ k \<and> 2 ^ k < 2 * unat v"
  proof (cases "v - 1 = 0")
    case True
    then have "v = 1" by simp
    then show ?thesis by (intro exI [of _ 0]) (simp add: cmath_next_p2_def smear_zero)
  next
    case False
    let ?m = "LENGTH('a) - 1 - clz (v - 1)"
    have "unat (v - 1) < 2 ^ (LENGTH('a) - 1)" using v um by linarith
    from unat_smear_plus_one [OF len False this]
    have "unat (cmath_next_p2 v) = 2 ^ Suc ?m" "2 ^ ?m \<le> unat v - 1" "unat v - 1 < 2 ^ Suc ?m"
      by (simp_all add: cmath_next_p2_def um)
    then show ?thesis using v by (intro exI [of _ "Suc ?m"]) (auto simp: le_diff_conv2)
  qed
next
  assume v: "0 < unat v"
  have half: "unat (drop_bit 1 v) = unat v div 2" using unat_drop_bit [of 1 v] by simp
  show "\<exists>k. unat (prev_p2 v) = 2 ^ k \<and> 2 ^ k \<le> unat v \<and> unat v < 2 * 2 ^ k"
  proof (cases "drop_bit 1 v = 0")
    case True
    then have "unat v = 1" using half v by simp
    then show ?thesis using True by (intro exI [of _ 0]) (simp add: prev_p2_def smear_zero)
  next
    case False
    let ?m = "LENGTH('a) - 1 - clz (drop_bit 1 v)"
    have "unat v < 2 ^ LENGTH('a)" by (rule unsigned_less)
    also have "\<dots> = 2 * 2 ^ (LENGTH('a) - 1)" using len by auto
    finally have "unat (drop_bit 1 v) < 2 ^ (LENGTH('a) - 1)" unfolding half by linarith
    from unat_smear_plus_one [OF len False this]
    have "unat (prev_p2 v) = 2 ^ Suc ?m" "2 ^ ?m \<le> unat v div 2" "unat v div 2 < 2 ^ Suc ?m"
      by (simp_all only: prev_p2_def half)
    then show ?thesis by (intro exI [of _ "Suc ?m"]) auto
  qed
qed

theorem cmath_powers_of_two_witness:
  "\<exists>k. unat (cmath_next_p2 (100 :: u64)) = 2 ^ k \<and> (100 :: nat) \<le> 2 ^ k \<and> (2 :: nat) ^ k < 200"
  using cmath_powers_of_two [of "100 :: u64"] by simp

text \<open>
  \<open>ulog2\<close> is the floor of the binary logarithm of every non-zero 32- or 64-bit word,
  and \<open>is_pow2\<close> accepts exactly 0 and the powers of two.
\<close>

theorem ulog2_is_pow2:
  fixes v :: "'a :: len word"
  assumes "LENGTH('a) = 32 \<or> LENGTH('a) = 64"
  shows "(v \<noteq> 0 \<longrightarrow> 2 ^ unat (ulog2 v) \<le> unat v \<and> unat v < 2 ^ Suc (unat (ulog2 v)))
    \<and> (is_pow2 v = 1 \<longleftrightarrow> v = 0 \<or> (\<exists>k < LENGTH('a). v = push_bit k 1))"
proof (intro conjI impI)
  assume "v \<noteq> 0"
  with assms show "2 ^ unat (ulog2 v) \<le> unat v" and "unat v < 2 ^ Suc (unat (ulog2 v))"
    using ulog2_floor by blast+
next
  have "v AND (v - 1) = 0 \<longleftrightarrow> v = 0 \<or> (\<exists>k < LENGTH('a). v = push_bit k 1)"
  proof
    assume z: "v AND (v - 1) = 0"
    have "v = push_bit (ctz v) 1" if "v \<noteq> 0"
    proof (rule bit_word_eqI)
      fix n assume "n < LENGTH('a)"
      have "\<not> bit (v AND (v - 1)) n" using z by simp
      then show "bit v n \<longleftrightarrow> bit (push_bit (ctz v) (1 :: 'a word)) n"
        unfolding bit_blsr using ctz_props(1) [OF that] \<open>n < LENGTH('a)\<close> by (auto simp: bit_simps)
    qed
    then show "v = 0 \<or> (\<exists>k < LENGTH('a). v = push_bit k 1)" using ctz_props(2) by blast
  next
    assume "v = 0 \<or> (\<exists>k < LENGTH('a). v = push_bit k 1)"
    then consider "v = 0" | k where "k < LENGTH('a)" "v = push_bit k 1" by blast
    then show "v AND (v - 1) = 0"
    proof cases
      case 2
      then have "ctz v = k" by (intro ctz_eqI) (auto simp: bit_simps)
      then have "\<not> bit (v AND (v - 1)) n" for n
        unfolding bit_blsr using 2 by (auto simp: bit_simps)
      then show ?thesis by (simp only: word_eq_zero_iff_bits) simp
    qed simp
  qed
  then show "is_pow2 v = 1 \<longleftrightarrow> v = 0 \<or> (\<exists>k < LENGTH('a). v = push_bit k 1)"
    by (simp add: is_pow2_def)
qed

theorem ulog2_is_pow2_witness:
  "(2 :: nat) ^ unat (ulog2 (1000 :: u32)) \<le> 1000 \<and> (1000 :: nat) < 2 ^ Suc (unat (ulog2 (1000 :: u32)))"
  using ulog2_is_pow2 [of "1000 :: u32"] by simp

end
