(* ===== verification/Bitvec_Atomics.thy ===== *)
theory Bitvec_Atomics
  imports Prelude
begin

text \<open>
  The atomic bit-vector operations of \<open>src/lib/concurrency/bitvec_atomics.h\<close>. Each takes
  the value of the word it works on and returns the value it leaves there; the \<open>_ret\<close>
  versions also return the old value of the bit (the carry flag of \<open>bts\<close>, \<open>btr\<close>, \<open>btc\<close>).
  One application is one indivisible step of the machine.
\<close>

definition atomic_xor :: "u64 \<Rightarrow> u64 \<Rightarrow> u64" where
  "atomic_xor v xor_bits = v XOR xor_bits"

definition atomic_or :: "u64 \<Rightarrow> u64 \<Rightarrow> u64" where
  "atomic_or v or_bits = v OR or_bits"

definition atomic_and :: "u64 \<Rightarrow> u64 \<Rightarrow> u64" where
  "atomic_and v and_bits = v AND and_bits"

definition atomic_unset :: "u64 \<Rightarrow> u64 \<Rightarrow> u64" where
  "atomic_unset v unset_bits = v AND NOT unset_bits"

definition atomic_bit_set :: "u64 \<Rightarrow> u64 \<Rightarrow> u64" where
  "atomic_bit_set v b = v OR push_bit (unat b) 1"

text \<open>
  The memory forms of \<open>bts\<close>, \<open>btr\<close> and \<open>btc\<close> with a register operand address the bit
  string, so the model covers bit numbers below 64, the only ones the sources use.
\<close>

definition atomic_bit_set_ret :: "u64 \<Rightarrow> u64 \<Rightarrow> u32 \<times> u64" where
  "atomic_bit_set_ret v b = (if bit v (unat b) then 1 else 0, set_bit (unat b) v)"

definition atomic_bit_unset_ret :: "u64 \<Rightarrow> u64 \<Rightarrow> u32 \<times> u64" where
  "atomic_bit_unset_ret v b = (if bit v (unat b) then 1 else 0, unset_bit (unat b) v)"

definition atomic_bit_swap_ret :: "u64 \<Rightarrow> u64 \<Rightarrow> u32 \<times> u64" where
  "atomic_bit_swap_ret v b = (if bit v (unat b) then 1 else 0, flip_bit (unat b) v)"

lemma bit_atomic_unset [simp]: "bit (atomic_unset v w) n \<longleftrightarrow> bit v n \<and> \<not> bit w n"
  by (auto simp: atomic_unset_def bit_simps dest: bit_imp_le_length)

lemma bit_atomic_bit_set [simp]:
  "bit (atomic_bit_set v b) n \<longleftrightarrow> bit v n \<or> (n = unat b \<and> n < 64)"
  by (auto simp: atomic_bit_set_def bit_simps)

lemma atomic_unset_self [simp]: "atomic_unset v v = 0"
  by (rule bit_word_eqI) simp

lemma atomic_bit_set_nonzero: "unat b < 64 \<Longrightarrow> atomic_bit_set v b \<noteq> 0"
  by (metis bit_0_eq bit_atomic_bit_set bot_apply bot_bool_def)

text \<open>
  \<open>atomic_bit_unset_ret\<close> is a test-and-clear: of two threads that both call it on a word
  whose bit is set, in either order, exactly the first sees 1, and the bit ends clear. The
  allocator's claim of an unowned slab rests on this.
\<close>

theorem bit_unset_ret_claims_once:
  assumes "bit v (unat b)"
  shows "fst (atomic_bit_unset_ret v b) = 1
    \<and> fst (atomic_bit_unset_ret (snd (atomic_bit_unset_ret v b)) b) = 0
    \<and> (\<forall>n. bit (snd (atomic_bit_unset_ret v b)) n \<longleftrightarrow> bit v n \<and> n \<noteq> unat b)"
  using assms by (auto simp: atomic_bit_unset_ret_def bit_unset_bit_iff)

theorem bit_unset_ret_claims_once_witness:
  "fst (atomic_bit_unset_ret 1 0) = 1 \<and> fst (atomic_bit_unset_ret (snd (atomic_bit_unset_ret 1 0)) 0) = 0"
  using bit_unset_ret_claims_once [of 1 0] by simp

end
