(* ===== verification/Slab_Size_Classes.thy ===== *)
theory Slab_Size_Classes
  imports Prelude
begin

text \<open>
  The size classes of \<open>src/allocator/slab_size_classes.h\<close>: the table of block sizes, the
  map from a request to the index of its class in its two versions, and the rounding of a
  request to its class in its two versions. All arithmetic is on \<open>uint32_t\<close>.
\<close>

definition num_size_classes :: nat where
  "num_size_classes = 11"

definition slab_sizes :: "u32 list" where
  "slab_sizes = [8, 16, 24, 32, 48, 64, 80, 96, 112, 128, 144]"

definition idx_to_size :: "u32 \<Rightarrow> u32 result" where
  "idx_to_size idx = (if unat idx < num_size_classes then Inr (slab_sizes ! unat idx)
     else Inl Out_Of_Bounds)"

definition size_to_idx :: "u32 \<Rightarrow> u32" where
  "size_to_idx sz = (if sz \<le> 24 then ((sz + 7) div 8) - 1 else ((sz + 15) div 16) + 1)"

definition size_to_idx_nb :: "u32 \<Rightarrow> u32" where
  "size_to_idx_nb sz =
     (let base = (if sz > 24 then 4 else 3 :: u32)
      in drop_bit (unat base) (sz + (push_bit (unat base) 1 - 1)) + (2 * (base div 2)) - 3)"

definition round_size :: "u32 \<Rightarrow> u32" where
  "round_size sz = (if sz \<le> 24 then (sz + 7) AND NOT 7 else (sz + 15) AND NOT 15)"

definition round_size_nb :: "u32 \<Rightarrow> u32" where
  "round_size_nb sz = (let base = (if sz > 24 then 2 * 8 else 8 :: u32) in sz AND NOT (base - 1))"

section \<open>The classes, one by one\<close>

lemma length_slab_sizes [simp]: "length slab_sizes = num_size_classes"
  by (simp add: slab_sizes_def num_size_classes_def)

text \<open>A request the allocator serves: from 1 byte up to the largest class.\<close>

definition valid_size :: "u32 \<Rightarrow> bool" where
  "valid_size sz \<longleftrightarrow> 1 \<le> sz \<and> sz \<le> 144"

lemma valid_size_cases:
  assumes "valid_size sz"
  shows "sz \<in> set (map of_nat [1..<145])"
proof -
  have u: "1 \<le> unat sz" "unat sz \<le> 144"
    using assms by (simp_all add: valid_size_def word_le_nat_alt)
  have "sz = of_nat (unat sz)" by simp
  moreover have "unat sz \<in> set [1..<145]" using u by simp
  ultimately show ?thesis by (metis image_eqI list.set_map)
qed

definition class_ok :: "u32 \<Rightarrow> bool" where
  "class_ok sz \<longleftrightarrow> unat (size_to_idx sz) < num_size_classes
     \<and> sz \<le> slab_sizes ! unat (size_to_idx sz)
     \<and> (\<forall>i < unat (size_to_idx sz). slab_sizes ! i < sz)
     \<and> round_size sz = slab_sizes ! unat (size_to_idx sz)"

lemma class_ok_table: "list_all class_ok (map of_nat [1..<145])"
  by code_simp

lemma class_ok_valid: "valid_size sz \<Longrightarrow> class_ok sz"
  using class_ok_table valid_size_cases by (auto simp: list_all_iff)

lemma size_to_idx_bound: "valid_size sz \<Longrightarrow> unat (size_to_idx sz) < num_size_classes"
  using class_ok_valid by (simp add: class_ok_def)

definition class_back :: "nat \<Rightarrow> bool" where
  "class_back i \<longleftrightarrow> size_to_idx (slab_sizes ! i) = of_nat i \<and> valid_size (slab_sizes ! i)
     \<and> 8 \<le> unat (slab_sizes ! i) \<and> unat (slab_sizes ! i) \<le> 144"

lemma class_back_table: "list_all class_back [0..<11]"
  by code_simp

lemma class_back_all: "i < num_size_classes \<Longrightarrow> class_back i"
  using class_back_table by (auto simp: list_all_iff num_size_classes_def)

lemma slab_size_bounds:
  "i < num_size_classes \<Longrightarrow> 8 \<le> unat (slab_sizes ! i) \<and> unat (slab_sizes ! i) \<le> 144"
  using class_back_all by (simp add: class_back_def)

lemma size_to_idx_slab_sizes:
  "i < num_size_classes \<Longrightarrow> size_to_idx (slab_sizes ! i) = of_nat i"
  using class_back_all by (simp add: class_back_def)

section \<open>Properties\<close>

text \<open>
  C23: every request from 1 to 144 bytes is served by an existing class that is large enough
  and is the smallest such class, and \<open>round_size\<close> returns exactly the block size of that
  class.
\<close>

theorem size_class_best_fit:
  assumes "valid_size sz"
  shows "\<exists>bs. idx_to_size (size_to_idx sz) = Inr bs \<and> sz \<le> bs \<and> round_size sz = bs
    \<and> (\<forall>i bs'. i < size_to_idx sz \<longrightarrow> idx_to_size i = Inr bs' \<longrightarrow> bs' < sz)"
  using class_ok_valid [OF assms]
  by (auto simp: class_ok_def idx_to_size_def word_less_nat_alt split: if_splits)

theorem size_class_best_fit_witness:
  "\<exists>bs. idx_to_size (size_to_idx 100) = Inr bs \<and> (100 :: u32) \<le> bs \<and> round_size 100 = bs"
  using size_class_best_fit [of 100] by (auto simp: valid_size_def)

text \<open>
  the two maps invert each other on the classes: the block size of class \<open>i\<close> maps back
  to \<open>i\<close>, so a free that only knows a slab's block size finds the class it was allocated in.
\<close>

theorem size_class_roundtrip:
  assumes "idx_to_size i = Inr bs"
  shows "size_to_idx bs = i"
  using assms size_to_idx_slab_sizes [of "unat i"]
  by (auto simp: idx_to_size_def split: if_splits)

theorem size_class_roundtrip_witness: "size_to_idx (slab_sizes ! unat (7 :: u32)) = 7"
  using size_class_roundtrip [of 7 96]
  by (simp add: idx_to_size_def num_size_classes_def slab_sizes_def)

text \<open>
  C24: the branch-free \<open>size_to_idx_nb\<close> computes the same index as \<open>size_to_idx\<close> on every
  \<open>uint32_t\<close>, the ones where the sums wrap included.
\<close>

theorem size_to_idx_nb_equiv: "size_to_idx_nb sz = size_to_idx sz"
proof (cases "sz > 24")
  case True
  have "drop_bit 4 (sz + 15) = (sz + 15) div 16"
    by (simp add: drop_bit_eq_div)
  moreover have "(sz \<le> 24) = False" using True by (simp only: not_le simp_thms)
  ultimately show ?thesis using True by (simp add: size_to_idx_nb_def size_to_idx_def)
next
  case False
  have "drop_bit 3 (sz + 7) = (sz + 7) div 8"
    by (simp add: drop_bit_eq_div)
  moreover have "(24 < sz) = False" "(sz \<le> 24) = True" using False by (simp_all only: not_less simp_thms)
  ultimately show ?thesis by (simp add: size_to_idx_nb_def size_to_idx_def)
qed

text \<open>
  \<open>round_size_nb\<close> is not the branch-free version of \<open>round_size\<close>: it rounds down. It
  never exceeds the request, and it agrees with \<open>round_size\<close> on a valid request only when
  the request already is a class size.
\<close>

theorem round_size_nb_rounds_down:
  "round_size_nb sz \<le> sz
    \<and> (valid_size sz \<longrightarrow> round_size_nb sz = round_size sz \<longrightarrow> sz \<in> set slab_sizes)"
proof (intro conjI impI)
  show le: "round_size_nb sz \<le> sz"
    unfolding round_size_nb_def Let_def by (rule word_and_le2)
  assume v: "valid_size sz" and eq: "round_size_nb sz = round_size sz"
  have "class_ok sz" using v by (rule class_ok_valid)
  then have "sz \<le> round_size sz" and "round_size sz \<in> set slab_sizes"
    by (auto simp: class_ok_def)
  with le eq show "sz \<in> set slab_sizes" by simp
qed

theorem round_size_nb_rounds_down_witness:
  "round_size_nb 23 \<le> 23 \<and> round_size_nb 23 = 16 \<and> round_size 23 = 24"
  using round_size_nb_rounds_down [of 23] by (simp add: round_size_nb_def round_size_def)

text \<open>
  a request of 0 bytes maps outside the table: the subtraction wraps and the index is
  the largest \<open>uint32_t\<close>; so does every request above 144 bytes that does not wrap.
\<close>

theorem size_to_idx_invalid:
  "size_to_idx 0 = - 1 \<and> idx_to_size (size_to_idx 0) = Inl Out_Of_Bounds
    \<and> (144 < unat sz \<and> unat sz + 15 < 2 ^ 32 \<longrightarrow> idx_to_size (size_to_idx sz) = Inl Out_Of_Bounds)"
proof (intro conjI impI)
  show "size_to_idx 0 = - 1" by (simp add: size_to_idx_def)
  have "unat (- 1 :: u32) = 4294967295"
    by (simp add: unsigned_minus_1_eq_mask mask_eq_exp_minus_1)
  then show "idx_to_size (size_to_idx 0) = Inl Out_Of_Bounds"
    by (simp add: size_to_idx_def idx_to_size_def num_size_classes_def)
  assume s: "144 < unat sz \<and> unat sz + 15 < 2 ^ 32"
  then have "\<not> sz \<le> 24" by (simp add: word_le_nat_alt)
  moreover have "unat sz + 15 < 4294967296" using s by simp
  then have "(unat sz + 15) div 16 < 300000000" by linarith
  ultimately have "unat (size_to_idx sz) = (unat sz + 15) div 16 + 1"
    using s by (simp add: size_to_idx_def unat_word_ariths unat_div)
  moreover have "10 \<le> (unat sz + 15) div 16" using s by linarith
  ultimately show "idx_to_size (size_to_idx sz) = Inl Out_Of_Bounds"
    by (simp add: idx_to_size_def num_size_classes_def)
qed

theorem size_to_idx_invalid_witness: "idx_to_size (size_to_idx 145) = Inl Out_Of_Bounds"
  using size_to_idx_invalid [of 145] by simp

end
