(* ===== verification/Obj_Slab.thy ===== *)
theory Obj_Slab
  imports Bits Bitvec_Atomics
begin

text \<open>
  The object slab of \<open>src/allocator/obj_slab.h\<close>: a header with two two-level bit vectors
  (blocks that the owning core may hand out, blocks that any core has freed) in front of a
  payload of equal blocks. The record has the header's fields; the payload bytes belong to
  the user and are not part of the state. \<open>_allocate\<close>, \<open>_try_release\<close>, \<open>_free\<close> and
  \<open>_set_owned\<close> are modelled as they run when no other thread works on the same slab in
  between; the steps of the critical section of \<open>_allocate\<close> are in \<open>Rseq_Alloc\<close>.
\<close>

section \<open>Layout and constants\<close>

definition vec_size :: u64 where "vec_size = 64"
definition num_vecs :: u64 where "num_vecs = 64"
definition capacity :: u64 where "capacity = num_vecs * vec_size"
definition payload_size :: u64 where "payload_size = capacity * 8"
definition next_offset :: u64 where "next_offset = 520"
definition payload_offset :: u64 where "payload_offset = 1280"

text \<open>The enumeration \<open>{ OWNED, UNOWNED }\<close> and \<open>FAILURE { MIGRATED, FULL }\<close>.\<close>

definition OWNED :: u64 where "OWNED = 0"
definition UNOWNED :: u64 where "UNOWNED = 1"
definition MIGRATED :: u64 where "MIGRATED = capacity"
definition FULL :: u64 where "FULL = capacity + 1"
definition SUCCESS_BOUND :: u64 where "SUCCESS_BOUND = MIGRATED"

text \<open>
  \<open>sizeof(obj_slab)\<close>: the payload starts at \<open>payload_offset\<close> and ends the struct, whose
  alignment of 128 bytes (\<open>L2_LOAD_ALIGN\<close>) divides the sum.
\<close>

definition sizeof_obj_slab :: u64 where
  "sizeof_obj_slab = payload_offset + payload_size"

lemmas slab_consts = vec_size_def num_vecs_def capacity_def payload_size_def next_offset_def
  payload_offset_def OWNED_def UNOWNED_def MIGRATED_def FULL_def SUCCESS_BOUND_def
  sizeof_obj_slab_def

record obj_slab =
  available_vecs :: u64
  available_slots :: "u64 list"
  next_slab :: u64
  block_size :: u32
  freed_vecs :: u64
  slab_state :: u64
  freed_slots :: "u64 list"

text \<open>A slab's worth of fresh anonymous memory: all bytes zero.\<close>

definition zero_slab :: obj_slab where
  "zero_slab = \<lparr> available_vecs = 0, available_slots = replicate 64 0, next_slab = 0,
     block_size = 0, freed_vecs = 0, slab_state = 0, freed_slots = replicate 64 0 \<rparr>"

section \<open>Operations\<close>

definition memset_ones :: "nat \<Rightarrow> u64 list \<Rightarrow> u64 list" where
  "memset_ones n xs = replicate n (- 1) @ drop n xs"

text \<open>The constructor, run by placement new over the memory contents \<open>s\<close>.\<close>

definition obj_slab_ctor :: "u32 \<Rightarrow> obj_slab \<Rightarrow> obj_slab" where
  "obj_slab_ctor bs s =
     (let nblocks = ucast (payload_size div ucast bs) :: u32;
          nslots = (nblocks + 63) div 64;
          slots = memset_ones (unat (nslots - 1)) (available_slots s)
      in s\<lparr> block_size := bs,
            available_vecs := (if nslots \<ge> 64 then 0 else push_bit (unat nslots) 1) - 1,
            available_slots := slots[unat (nslots - 1) :=
              (if nblocks mod 64 \<noteq> 0 then push_bit (unat (nblocks mod 64)) 1 - 1 else NOT 0)] \<rparr>)"

text \<open>
  The loop between labels 5 and 7 of \<open>_allocate\<close>: while the first available vector has no
  slot left, clear its bit (\<open>blsr\<close>), store the vector word and go on; else take the lowest
  slot of it.
\<close>

function alloc_vecs :: "u64 \<Rightarrow> obj_slab \<Rightarrow> u64 \<times> obj_slab" where
  "alloc_vecs temp_av s =
     (if temp_av = 0 then (FULL, s)
      else let idx_av = tzcnt temp_av;
               temp_as = available_slots s ! unat idx_av
           in if temp_as = 0
              then let temp_av' = temp_av AND (temp_av - 1)
                   in alloc_vecs temp_av' (s\<lparr>available_vecs := temp_av'\<rparr>)
              else (tzcnt temp_as + push_bit 6 idx_av,
                    s\<lparr>available_slots := (available_slots s)[unat idx_av := temp_as AND (temp_as - 1)]\<rparr>))"
  by pat_completeness auto
termination
  by (relation "measure (\<lambda>(w, s). unat w)") (simp_all add: blsr_less)

declare alloc_vecs.simps [simp del]

text \<open>
  \<open>_allocate(start_cpu)\<close> on the slab at address \<open>this\<close>, by a thread that runs on
  \<open>cur_cpu\<close> during the whole critical section.
\<close>

definition slab_allocate :: "u64 \<Rightarrow> u32 \<Rightarrow> u32 \<Rightarrow> obj_slab \<Rightarrow> (u64 \<times> obj_slab) result" where
  "slab_allocate this start_cpu cur_cpu s =
     (if this mod sizeof_obj_slab \<noteq> 0 then Inl Assert_Failed
      else if cur_cpu \<noteq> start_cpu then Inr (MIGRATED, s)
      else Inr (alloc_vecs (available_vecs s) s))"

text \<open>The \<open>do ... while (index_iterator)\<close> loop of \<open>_try_release\<close>.\<close>

function release_slots :: "u64 \<Rightarrow> obj_slab \<Rightarrow> obj_slab result" where
  "release_slots index_iterator s =
     (let idx = unat (find_first_one index_iterator);
          index_iterator' = index_iterator AND (index_iterator - 1)
      in if idx \<ge> 64 then Inl Unreachable
         else let reclaimed_slots = freed_slots s ! idx;
                  s' = s\<lparr> freed_slots := (freed_slots s)[idx := atomic_unset (freed_slots s ! idx) reclaimed_slots],
                          available_slots := (available_slots s)[idx := reclaimed_slots] \<rparr>
              in if index_iterator' = 0 then Inr s' else release_slots index_iterator' s')"
  by pat_completeness auto
termination
proof (relation "measure (\<lambda>(w, s). unat w)", goal_cases)
  case (2 w s)
  then have "w \<noteq> 0" by (auto simp: find_first_one_def)
  then show ?case using 2 by (simp add: blsr_less)
qed simp

declare release_slots.simps [simp del]

definition try_release :: "obj_slab \<Rightarrow> (u32 \<times> obj_slab) result" where
  "try_release s =
     (let reclaimed_vecs = freed_vecs s
      in if reclaimed_vecs = 0
         then if slab_state s = OWNED then Inr (1, s\<lparr>slab_state := UNOWNED\<rparr>) else Inl Assert_Failed
         else bind_res (release_slots reclaimed_vecs
                          (s\<lparr>freed_vecs := atomic_unset (freed_vecs s) reclaimed_vecs\<rparr>))
                (\<lambda>s'. Inr (0, s'\<lparr>available_vecs := reclaimed_vecs\<rparr>)))"

definition slab_free :: "u64 \<Rightarrow> obj_slab \<Rightarrow> (u32 \<times> obj_slab) result" where
  "slab_free addr_minus_start s =
     (if addr_minus_start < payload_offset then Inl Unreachable
      else if addr_minus_start - payload_offset \<ge> payload_size then Inl Unreachable
      else if block_size s = 0 then Inl Div_By_Zero
      else let position_idx = (addr_minus_start - payload_offset) div ucast (block_size s)
           in if position_idx \<ge> capacity then Inl Unreachable
              else let vec_idx = position_idx div num_vecs;
                       slot_idx = position_idx AND (vec_size - 1)
                   in if vec_idx \<ge> 64 \<or> slot_idx \<ge> 64 then Inl Unreachable
                      else let old = freed_slots s ! unat vec_idx;
                               s' = s\<lparr>freed_slots := (freed_slots s)[unat vec_idx := atomic_bit_set old slot_idx]\<rparr>
                           in if old \<noteq> 0 then Inr (0, s')
                              else Inr (if slab_state s = UNOWNED then 1 else 0,
                                        s'\<lparr>freed_vecs := atomic_bit_set (freed_vecs s) vec_idx\<rparr>))"

definition set_owned :: "obj_slab \<Rightarrow> u32 \<times> obj_slab" where
  "set_owned s = (let r = atomic_bit_unset_ret (slab_state s) 0
     in (fst r, s\<lparr>slab_state := snd r\<rparr>))"

section \<open>Abstraction: the sets of blocks\<close>

text \<open>Block \<open>i\<close> is bit \<open>i mod 64\<close> of word \<open>i div 64\<close> of a slot array.\<close>

definition slot_bit :: "u64 list \<Rightarrow> nat \<Rightarrow> bool" where
  "slot_bit xs i \<longleftrightarrow> bit (xs ! (i div 64)) (i mod 64)"

definition avail :: "obj_slab \<Rightarrow> nat set" where
  "avail s = {i. i < 4096 \<and> slot_bit (available_slots s) i}"

definition freed :: "obj_slab \<Rightarrow> nat set" where
  "freed s = {i. i < 4096 \<and> slot_bit (freed_slots s) i}"

definition nblocks_of :: "u32 \<Rightarrow> nat" where
  "nblocks_of bs = 32768 div unat bs"

text \<open>
  Well-formedness: a vector bit that is clear has an empty slot word, and on the freed side
  a vector bit is set exactly when its slot word is not empty.
\<close>

definition slab_wf :: "obj_slab \<Rightarrow> bool" where
  "slab_wf s \<longleftrightarrow> length (available_slots s) = 64 \<and> length (freed_slots s) = 64
     \<and> (\<forall>v < 64. \<not> bit (available_vecs s) v \<longrightarrow> available_slots s ! v = 0)
     \<and> (\<forall>v < 64. bit (freed_vecs s) v \<longleftrightarrow> freed_slots s ! v \<noteq> 0)
     \<and> (slab_state s = OWNED \<or> slab_state s = UNOWNED)"

lemma block_div_bound: "i < 4096 \<Longrightarrow> i div 64 < (64 :: nat)"
  by (simp add: less_mult_imp_div_less)

lemma slot_bit_update:
  assumes "length xs = 64" and "i < 4096"
  shows "slot_bit (xs[v := w]) i \<longleftrightarrow> (if i div 64 = v then bit w (i mod 64) else slot_bit xs i)"
  using assms block_div_bound [of i] by (auto simp: slot_bit_def nth_list_update)

lemma slot_set_empty_iff:
  assumes "length xs = 64"
  shows "{i. i < 4096 \<and> slot_bit xs i} = {} \<longleftrightarrow> (\<forall>v < 64. xs ! v = 0)"
proof
  assume e: "{i. i < 4096 \<and> slot_bit xs i} = {}"
  show "\<forall>v < 64. xs ! v = 0"
  proof (intro allI impI)
    fix v :: nat assume v: "v < 64"
    have "\<not> bit (xs ! v) n" if "n < 64" for n
    proof -
      have "(v * 64 + n) div 64 = v" "(v * 64 + n) mod 64 = n" "v * 64 + n < 4096"
        using v that by auto
      then show ?thesis using e by (auto simp: slot_bit_def)
    qed
    then show "xs ! v = 0" by (simp only: word_eq_zero_iff_bits) simp
  qed
next
  assume "\<forall>v < 64. xs ! v = 0"
  then show "{i. i < 4096 \<and> slot_bit xs i} = {}"
    using block_div_bound by (auto simp: slot_bit_def)
qed


section \<open>Allocation\<close>

lemma avail_empty_iff: "slab_wf s \<Longrightarrow> avail s = {} \<longleftrightarrow> (\<forall>v < 64. available_slots s ! v = 0)"
  unfolding avail_def by (rule slot_set_empty_iff) (simp add: slab_wf_def)

lemma freed_empty_iff: "slab_wf s \<Longrightarrow> freed s = {} \<longleftrightarrow> freed_vecs s = 0"
  unfolding freed_def by (subst slot_set_empty_iff) (auto simp: slab_wf_def word_eq_zero_iff_bits)

lemma avail_frame [simp]:
  "avail (s\<lparr>available_vecs := w\<rparr>) = avail s" "avail (s\<lparr>next_slab := n\<rparr>) = avail s"
  "avail (s\<lparr>freed_vecs := w\<rparr>) = avail s" "avail (s\<lparr>slab_state := w\<rparr>) = avail s"
  "avail (s\<lparr>freed_slots := ws\<rparr>) = avail s" "avail (s\<lparr>block_size := bs\<rparr>) = avail s"
  by (simp_all add: avail_def)

lemma freed_frame [simp]:
  "freed (s\<lparr>available_vecs := w\<rparr>) = freed s" "freed (s\<lparr>next_slab := n\<rparr>) = freed s"
  "freed (s\<lparr>freed_vecs := w\<rparr>) = freed s" "freed (s\<lparr>slab_state := w\<rparr>) = freed s"
  "freed (s\<lparr>available_slots := ws\<rparr>) = freed s" "freed (s\<lparr>block_size := bs\<rparr>) = freed s"
  by (simp_all add: freed_def)

lemma alloc_vecs_full: "alloc_vecs 0 s = (FULL, s)"
  by (simp add: alloc_vecs.simps)

lemma alloc_vecs_skip:
  "w \<noteq> 0 \<Longrightarrow> available_slots s ! ctz w = 0 \<Longrightarrow>
   alloc_vecs w s = alloc_vecs (w AND (w - 1)) (s\<lparr>available_vecs := w AND (w - 1)\<rparr>)"
  by (simp add: alloc_vecs.simps [of w s] Let_def)

lemma alloc_vecs_take:
  "w \<noteq> 0 \<Longrightarrow> available_slots s ! ctz w = a \<Longrightarrow> a \<noteq> 0 \<Longrightarrow>
   alloc_vecs w s = (tzcnt a + push_bit 6 (tzcnt w),
     s\<lparr>available_slots := (available_slots s)[ctz w := a AND (a - 1)]\<rparr>)"
  by (simp add: alloc_vecs.simps [of w s] Let_def)

lemma wf_clear_vec:
  assumes "slab_wf s" and "available_slots s ! ctz (available_vecs s) = 0"
  shows "slab_wf (s\<lparr>available_vecs := available_vecs s AND (available_vecs s - 1)\<rparr>)"
  using assms by (auto simp: slab_wf_def bit_blsr)

text \<open>The index an allocation returns: the lowest slot of the lowest non-empty vector.\<close>

lemma index_sum:
  fixes a v :: u64
  assumes "a \<noteq> 0" and "v \<noteq> 0"
  shows "unat (tzcnt a + push_bit 6 (tzcnt v)) = 64 * ctz v + ctz a"
proof -
  have c: "ctz a < 64" "ctz v < 64" using ctz_props(2) assms by fastforce+
  have "unat (push_bit 6 (tzcnt v)) = 64 * ctz v"
    using c by (simp add: push_bit_eq_mult unat_word_ariths(2))
  then show ?thesis using c by (simp add: unat_word_ariths(1))
qed

text \<open>
  What \<open>_allocate\<close> does on a slab: nothing but the bookkeeping on a full one; on any other
  it takes exactly the lowest available block.
\<close>

definition alloc_post :: "obj_slab \<Rightarrow> u64 \<Rightarrow> obj_slab \<Rightarrow> bool" where
  "alloc_post s idx s' \<longleftrightarrow> slab_wf s'
     \<and> next_slab s' = next_slab s \<and> block_size s' = block_size s \<and> freed_vecs s' = freed_vecs s
     \<and> slab_state s' = slab_state s \<and> freed_slots s' = freed_slots s
     \<and> (avail s = {} \<longrightarrow> idx = FULL \<and> avail s' = {})
     \<and> (avail s \<noteq> {} \<longrightarrow>
          unat idx \<in> avail s \<and> (\<forall>i \<in> avail s. unat idx \<le> i) \<and> avail s' = avail s - {unat idx})"

lemma alloc_post_frame: "alloc_post (s\<lparr>available_vecs := w\<rparr>) idx s' = alloc_post s idx s'"
  by (simp add: alloc_post_def)

lemma alloc_take:
  assumes wf: "slab_wf s" and av: "available_vecs s \<noteq> 0"
    and a: "available_slots s ! ctz (available_vecs s) \<noteq> 0" (is "?a \<noteq> 0")
  shows "alloc_post s (tzcnt ?a + push_bit 6 (tzcnt (available_vecs s)))
    (s\<lparr>available_slots := (available_slots s)[ctz (available_vecs s) := ?a AND (?a - 1)]\<rparr>)"
proof -
  let ?v = "ctz (available_vecs s)" and ?k = "64 * ctz (available_vecs s) + ctz ?a"
  let ?s' = "s\<lparr>available_slots := (available_slots s)[?v := ?a AND (?a - 1)]\<rparr>"
  have len: "length (available_slots s) = 64" using wf by (simp add: slab_wf_def)
  have c: "?v < 64" "ctz ?a < 64" using ctz_props(2) av a by fastforce+
  have km: "?k div 64 = ?v" "?k mod 64 = ctz ?a" "?k < 4096" using c by auto
  have idx: "unat (tzcnt ?a + push_bit 6 (tzcnt (available_vecs s))) = ?k"
    using index_sum [OF a av] .
  have kin: "?k \<in> avail s" using km ctz_props(1) [OF a] by (simp add: avail_def slot_bit_def)
  have least: "?k \<le> i" if i: "i \<in> avail s" for i
  proof -
    have i4: "i < 4096" and ib: "bit (available_slots s ! (i div 64)) (i mod 64)"
      using i by (simp_all add: avail_def slot_bit_def)
    have "bit (available_vecs s) (i div 64)"
      using wf ib block_div_bound [OF i4] by (auto simp: slab_wf_def)
    then have "?v \<le> i div 64" by (rule ctz_le)
    moreover have "ctz ?a \<le> i mod 64" if "i div 64 = ?v"
      using ib that by (simp add: ctz_le)
    moreover have "64 * (i div 64) + i mod 64 = i" by (rule mult_div_mod_eq)
    ultimately show ?thesis using c(2) by (cases "i div 64 = ?v") linarith+
  qed
  have "avail ?s' = avail s - {?k}"
  proof (rule set_eqI)
    fix i
    have "i = ?k \<longleftrightarrow> i div 64 = ?v \<and> i mod 64 = ctz ?a"
      using km by (metis mult_div_mod_eq)
    moreover have "bit ?a (i mod 64) \<longleftrightarrow> slot_bit (available_slots s) i" if "i div 64 = ?v"
      using that by (simp add: slot_bit_def)
    ultimately show "i \<in> avail ?s' \<longleftrightarrow> i \<in> avail s - {?k}"
      using len by (cases "i div 64 = ?v") (auto simp: avail_def slot_bit_update bit_blsr)
  qed
  moreover have "slab_wf ?s'" using wf av ctz_props(1) [OF av] c(1)
    by (auto simp: slab_wf_def nth_list_update)
  ultimately show ?thesis using kin least by (auto simp: alloc_post_def idx)
qed

lemma alloc_vecs_post:
  "slab_wf s \<Longrightarrow> alloc_post s (fst (alloc_vecs (available_vecs s) s)) (snd (alloc_vecs (available_vecs s) s))"
proof (induction "unat (available_vecs s)" arbitrary: s rule: less_induct)
  case (less s)
  let ?av = "available_vecs s"
  let ?a = "available_slots s ! ctz ?av"
  consider (full) "?av = 0" | (skip) "?av \<noteq> 0" "?a = 0" | (take) "?av \<noteq> 0" "?a \<noteq> 0" by blast
  then show ?case
  proof cases
    case full
    then have "avail s = {}" using less.prems by (auto simp: avail_empty_iff slab_wf_def)
    then show ?thesis using full less.prems by (simp add: alloc_vecs_full alloc_post_def)
  next
    case skip
    let ?s = "s\<lparr>available_vecs := ?av AND (?av - 1)\<rparr>"
    have "alloc_post ?s (fst (alloc_vecs (available_vecs ?s) ?s)) (snd (alloc_vecs (available_vecs ?s) ?s))"
      using skip wf_clear_vec [OF less.prems] by (intro less.hyps) (simp_all add: blsr_less)
    then show ?thesis using skip by (simp add: alloc_vecs_skip alloc_post_frame)
  next
    case take
    then show ?thesis using alloc_take [OF less.prems] by (simp add: alloc_vecs_take)
  qed
qed


section \<open>Reclaiming freed blocks\<close>

definition release_post :: "u64 \<Rightarrow> obj_slab \<Rightarrow> obj_slab \<Rightarrow> bool" where
  "release_post w s s' \<longleftrightarrow>
     s' = s\<lparr>freed_slots := freed_slots s', available_slots := available_slots s'\<rparr>
     \<and> length (freed_slots s') = 64 \<and> length (available_slots s') = 64
     \<and> (\<forall>v < 64. freed_slots s' ! v = (if bit w v then 0 else freed_slots s ! v)
              \<and> available_slots s' ! v = (if bit w v then freed_slots s ! v else available_slots s ! v))"

lemma release_slots_post:
  assumes "w \<noteq> 0" and "length (freed_slots s) = 64" and "length (available_slots s) = 64"
  shows "\<exists>s'. release_slots w s = Inr s' \<and> release_post w s s'"
  using assms
proof (induction "unat w" arbitrary: w s rule: less_induct)
  case less
  let ?v = "ctz w" and ?w = "w AND (w - 1)"
  let ?s = "s\<lparr>freed_slots := (freed_slots s)[?v := 0], available_slots := (available_slots s)[?v := freed_slots s ! ?v]\<rparr>"
  have v: "?v < 64" "bit w ?v" using ctz_props [OF less.prems(1)] by simp_all
  have eq: "release_slots w s = (if ?w = 0 then Inr ?s else release_slots ?w ?s)"
    using v(1) by (simp add: release_slots.simps [of w s] find_first_one_def Let_def)
  show ?case
  proof (cases "?w = 0")
    case True
    have "bit w u \<longleftrightarrow> u = ?v" for u using bit_blsr [of w u] v(2) True by auto
    then have "release_post w s ?s" using less.prems v(1)
      by (auto simp: release_post_def nth_list_update)
    then show ?thesis using True eq by auto
  next
    case False
    obtain s' where s': "release_slots ?w ?s = Inr s'" "release_post ?w ?s s'"
      using less.hyps [of ?w ?s] False less.prems by (auto simp: blsr_less)
    have "release_post w s s'" unfolding release_post_def
    proof (intro conjI allI impI)
      show "s' = s\<lparr>freed_slots := freed_slots s', available_slots := available_slots s'\<rparr>"
        using s'(2) by (simp add: release_post_def)
    qed (use s'(2) v less.prems in \<open>auto simp: release_post_def bit_blsr nth_list_update\<close>)
    then show ?thesis using s'(1) False eq by auto
  qed
qed


lemma try_release_empty:
  "freed_vecs s = 0 \<Longrightarrow> slab_state s = OWNED \<Longrightarrow> try_release s = Inr (1, s\<lparr>slab_state := UNOWNED\<rparr>)"
  by (simp add: try_release_def)

lemma try_release_reclaims:
  assumes wf: "slab_wf s" and full: "avail s = {}" and some: "freed s \<noteq> {}"
  shows "\<exists>s'. try_release s = Inr (0, s') \<and> slab_wf s' \<and> avail s' = freed s \<and> freed s' = {}
    \<and> next_slab s' = next_slab s \<and> block_size s' = block_size s \<and> slab_state s' = slab_state s"
proof -
  let ?w = "freed_vecs s" and ?s = "s\<lparr>freed_vecs := 0\<rparr>"
  have len: "length (available_slots s) = 64" "length (freed_slots s) = 64"
    and fv: "\<And>v. v < 64 \<Longrightarrow> bit ?w v \<longleftrightarrow> freed_slots s ! v \<noteq> 0"
    using wf by (simp_all add: slab_wf_def)
  have z: "available_slots s ! v = 0" if "v < 64" for v
    using full that by (simp add: avail_empty_iff [OF wf])
  have w: "?w \<noteq> 0" using some by (simp add: freed_empty_iff [OF wf])
  then obtain s2 where s2: "release_slots ?w ?s = Inr s2" "release_post ?w ?s s2"
    using release_slots_post [of ?w ?s] len by auto
  let ?s' = "s2\<lparr>available_vecs := ?w\<rparr>"
  have at: "available_slots s2 ! v = freed_slots s ! v" "freed_slots s2 ! v = 0" if "v < 64" for v
    using s2(2) that fv [OF that] z [OF that] by (auto simp: release_post_def)
  have same: "s2 = ?s\<lparr>freed_slots := freed_slots s2, available_slots := available_slots s2\<rparr>"
    and len2: "length (available_slots s2) = 64" "length (freed_slots s2) = 64"
    using s2(2) by (simp_all add: release_post_def)
  have fields: "freed_vecs s2 = 0" "slab_state s2 = slab_state s" "next_slab s2 = next_slab s"
      "block_size s2 = block_size s"
    by (subst same, simp)+
  have "slab_wf ?s'" using wf at fields len2 fv by (auto simp: slab_wf_def)
  moreover have "avail ?s' = freed s"
    using at(1) [OF block_div_bound] by (auto simp: avail_def freed_def slot_bit_def)
  moreover have "freed ?s' = {}"
    using at(2) [OF block_div_bound] by (auto simp: freed_def slot_bit_def)
  moreover have "try_release s = Inr (0, ?s')" using w s2(1) by (simp add: try_release_def)
  ultimately show ?thesis using fields by auto
qed

section \<open>Freeing a block\<close>

lemma unat_and_63: "unat (x AND 63 :: u64) = unat x mod 64"
proof -
  have "x AND 63 = take_bit 6 x" by (simp add: take_bit_eq_mask mask_numeral)
  then show ?thesis by (simp add: unsigned_take_bit_eq take_bit_nat_def)
qed

lemma block_fits:
  assumes "i < nblocks_of bs" and "d < unat bs"
  shows "unat bs * i + d < 32768"
proof -
  have "unat bs * i + d < unat bs * Suc i" using assms(2) by simp
  also have "\<dots> \<le> unat bs * nblocks_of bs" using assms(1) by (intro mult_le_mono) auto
  also have "\<dots> \<le> 32768" unfolding nblocks_of_def by (rule times_div_less_eq_dividend)
  finally show ?thesis .
qed

lemma nblocks_le: "8 \<le> unat bs \<Longrightarrow> nblocks_of bs \<le> 4096"
  unfolding nblocks_of_def using div_le_mono2 [of 8 "unat bs" 32768] by simp

text \<open>
  \<open>_free\<close> of an address inside block \<open>i\<close>: the block number is recovered by the division,
  the block joins the freed set and nothing else changes. The result is 1 exactly when the
  slab is unowned and this is the first freed block of its vector.
\<close>

lemma slab_free_block:
  assumes wf: "slab_wf s" and bs: "8 \<le> unat (block_size s)"
    and i: "i < nblocks_of (block_size s)" and d: "d < unat (block_size s)"
    and a: "unat a = 1280 + (unat (block_size s) * i + d)"
  shows "\<exists>s'. slab_free a s = Inr (if slab_state s = UNOWNED \<and> freed_slots s ! (i div 64) = 0 then 1 else 0, s')
    \<and> slab_wf s' \<and> freed s' = insert i (freed s) \<and> avail s' = avail s \<and> slab_state s' = slab_state s
    \<and> next_slab s' = next_slab s \<and> block_size s' = block_size s"
proof -
  let ?bs = "block_size s"
  have fits: "unat ?bs * i + d < 32768" using i d by (rule block_fits)
  have i4: "i < 4096" using i nblocks_le [OF bs] by linarith
  have v: "i div 64 < 64" using i4 by (rule block_div_bound)
  have off: "unat (a - 1280) = unat ?bs * i + d"
    using a by (subst unat_sub) (simp_all add: word_le_nat_alt)
  let ?p = "(a - 1280) div ucast ?bs :: u64"
  have p: "unat ?p = i"
    using off d bs by (simp add: unat_div)
  have bound: "\<not> a < payload_offset" "\<not> payload_size \<le> a - payload_offset" "?bs \<noteq> 0" "\<not> capacity \<le> ?p"
    using a off fits p i4 bs by (auto simp: slab_consts word_less_nat_alt word_le_nat_alt)
  have vi: "unat (?p div num_vecs) = i div 64" using p by (simp add: slab_consts unat_div)
  have si: "unat (?p AND (vec_size - 1)) = i mod 64" using p by (simp add: slab_consts unat_and_63)
  have idx: "\<not> (64 \<le> ?p div num_vecs \<or> 64 \<le> ?p AND (vec_size - 1))"
    using vi si v by (simp add: word_le_nat_alt)
  let ?old = "freed_slots s ! (i div 64)" and ?b = "?p AND (vec_size - 1)"
  let ?s1 = "s\<lparr>freed_slots := (freed_slots s)[i div 64 := atomic_bit_set ?old ?b]\<rparr>"
  let ?s2 = "?s1\<lparr>freed_vecs := atomic_bit_set (freed_vecs s) (?p div num_vecs)\<rparr>"
  have len: "length (freed_slots s) = 64" using wf by (simp add: slab_wf_def)
  have run: "slab_free a s = (if ?old \<noteq> 0 then Inr (0, ?s1)
      else Inr (if slab_state s = UNOWNED then 1 else 0, ?s2))"
    using bound idx vi by (simp add: slab_free_def payload_offset_def Let_def)
  have fr: "freed ?s1 = insert i (freed s)"
  proof (rule set_eqI)
    fix j
    have "j = i \<longleftrightarrow> j div 64 = i div 64 \<and> j mod 64 = i mod 64" by (metis mult_div_mod_eq)
    moreover have "bit ?old (j mod 64) \<longleftrightarrow> slot_bit (freed_slots s) j" if "j div 64 = i div 64"
      using that by (simp add: slot_bit_def)
    ultimately show "j \<in> freed ?s1 \<longleftrightarrow> j \<in> insert i (freed s)"
      using len i4 si by (cases "j div 64 = i div 64") (auto simp: freed_def slot_bit_update)
  qed
  have nz: "atomic_bit_set ?old ?b \<noteq> 0" using si by (intro atomic_bit_set_nonzero) simp
  have wf1: "slab_wf ?s1" if "?old \<noteq> 0" using wf that v nz by (auto simp: slab_wf_def nth_list_update)
  have wf2: "slab_wf ?s2" using wf v nz vi by (auto simp: slab_wf_def nth_list_update)
  show ?thesis using run wf1 wf2 fr by (cases "?old = 0") auto
qed

lemma set_owned_unowned: "slab_state s = UNOWNED \<Longrightarrow> set_owned s = (1, s\<lparr>slab_state := OWNED\<rparr>)"
proof -
  have "unset_bit 0 (1 :: u64) = 0" by (rule bit_word_eqI) (auto simp: bit_simps)
  then show "slab_state s = UNOWNED \<Longrightarrow> ?thesis"
    by (simp add: set_owned_def atomic_bit_unset_ret_def slab_consts)
qed

lemma set_owned_owned: "slab_state s = OWNED \<Longrightarrow> set_owned s = (0, s)"
proof -
  have "unset_bit 0 (0 :: u64) = 0" by (rule bit_word_eqI) (simp add: bit_simps)
  then show "slab_state s = OWNED \<Longrightarrow> ?thesis"
    by (simp add: set_owned_def atomic_bit_unset_ret_def slab_consts)
qed


section \<open>The constructor\<close>

lemma ctor_counts:
  assumes "8 \<le> unat bs" and "unat bs \<le> 32768"
  defines "n \<equiv> nblocks_of bs"
  shows "unat (ucast (payload_size div ucast bs) :: u32) = n" and "1 \<le> n" and "n \<le> 4096"
    and "unat (((ucast (payload_size div ucast bs) :: u32) + 63) div 64) = (n + 63) div 64"
proof -
  show n: "n \<le> 4096" unfolding n_def using assms(1) by (rule nblocks_le)
  show "1 \<le> n" unfolding n_def nblocks_of_def
    using assms div_le_mono2 [of "unat bs" 32768 32768] by simp
  have "unat (payload_size div ucast bs) = n"
    by (simp add: slab_consts unat_div n_def nblocks_of_def)
  then show u: "unat (ucast (payload_size div ucast bs) :: u32) = n"
    using n by (simp add: unat_ucast_down)
  have "unat ((ucast (payload_size div ucast bs) :: u32) + 63) = n + 63"
    using u n by (simp add: unat_word_ariths)
  then show "unat (((ucast (payload_size div ucast bs) :: u32) + 63) div 64) = (n + 63) div 64"
    by (simp add: unat_div)
qed

lemma bit_low_ones: "n < 64 \<Longrightarrow> bit (push_bit n 1 - 1 :: u64) k \<longleftrightarrow> k < n"
  by (auto simp: bit_mask_iff simp flip: mask_eq_exp_minus_1)

lemma ctor_fields:
  assumes "8 \<le> unat bs" and "unat bs \<le> 32768" and "length (available_slots s) = 64"
  defines "n \<equiv> nblocks_of bs" and "m \<equiv> (nblocks_of bs + 63) div 64"
  shows "v < 64 \<Longrightarrow> bit (available_vecs (obj_slab_ctor bs s)) v \<longleftrightarrow> v < m"
    and "available_slots (obj_slab_ctor bs s) =
      (memset_ones (m - 1) (available_slots s))[m - 1 := if n mod 64 \<noteq> 0 then push_bit (n mod 64) 1 - 1 else - 1]"
proof -
  note c = ctor_counts [OF assms(1,2), folded n_def]
  let ?nb = "ucast (payload_size div ucast bs) :: u32"
  let ?ns = "(?nb + 63) div 64"
  have m: "unat ?ns = m" using c(4) by (simp add: m_def n_def)
  have m1: "1 \<le> m" "m \<le> 64" using c(2,3) by (auto simp: m_def n_def)
  then have m2: "unat (?ns - 1) = m - 1" using m by (subst unat_minus_one) auto
  have nm: "unat (?nb mod 64) = n mod 64" using c(1) by (simp add: unat_mod)
  then have nz: "?nb mod 64 \<noteq> 0 \<longleftrightarrow> n mod 64 \<noteq> 0" by (metis unat_0_iff)
  show "available_slots (obj_slab_ctor bs s) =
      (memset_ones (m - 1) (available_slots s))[m - 1 := if n mod 64 \<noteq> 0 then push_bit (n mod 64) 1 - 1 else - 1]"
    by (simp only: obj_slab_ctor_def Let_def obj_slab.simps m2 nm nz) simp
  show "bit (available_vecs (obj_slab_ctor bs s)) v \<longleftrightarrow> v < m" if "v < 64"
  proof (cases "m = 64")
    case True
    then have "64 \<le> ?ns" using m by (simp add: word_le_nat_alt)
    then show ?thesis using True that by (simp add: obj_slab_ctor_def Let_def)
  next
    case False
    then have "\<not> 64 \<le> ?ns" using m m1 by (simp add: word_le_nat_alt)
    then show ?thesis using False m m1 bit_low_ones [of m v] by (simp add: obj_slab_ctor_def Let_def)
  qed
qed

lemma nth_memset_ones:
  "n \<le> length xs \<Longrightarrow> k < length xs \<Longrightarrow> memset_ones n xs ! k = (if k < n then - 1 else xs ! k)"
  by (simp add: memset_ones_def nth_append)

lemma length_memset_ones [simp]: "n \<le> length xs \<Longrightarrow> length (memset_ones n xs) = length xs"
  by (simp add: memset_ones_def)

lemma last_vec:
  fixes n i :: nat
  assumes "1 \<le> n"
  shows "(if i div 64 = (n + 63) div 64 - 1 then i mod 64 < (if n mod 64 \<noteq> 0 then n mod 64 else 64)
          else i div 64 < (n + 63) div 64 - 1) \<longleftrightarrow> i < n"
proof -
  define q r a b where d: "q = n div 64" "r = n mod 64" "a = i div 64" "b = i mod 64"
  have n: "n = 64 * q + r" "r < 64" and i: "i = 64 * a + b" "b < 64" by (simp_all add: d)
  have "(n + 63) div 64 = (if r \<noteq> 0 then q + 1 else q)" using n by auto
  then show ?thesis using n i assms unfolding d(2,3,4) [symmetric] by (cases "r = 0") auto
qed

lemma ctor_slots:
  assumes "8 \<le> unat bs" and "unat bs \<le> 32768" and "available_slots s = replicate 64 0" and "i < 4096"
  shows "slot_bit (available_slots (obj_slab_ctor bs s)) i \<longleftrightarrow> i < nblocks_of bs"
proof -
  let ?n = "nblocks_of bs" and ?m = "(nblocks_of bs + 63) div 64"
  let ?l = "if ?n mod 64 \<noteq> 0 then push_bit (?n mod 64) 1 - 1 else - 1 :: u64"
  let ?xs = "memset_ones (?m - 1) (available_slots s)"
  have n: "1 \<le> ?n" "?n \<le> 4096" using ctor_counts [OF assms(1,2)] by simp_all
  then have m: "?m - 1 \<le> 64" by auto
  have len: "length ?xs = 64" using m assms(3) by simp
  have l: "bit ?l k \<longleftrightarrow> k < (if ?n mod 64 \<noteq> 0 then ?n mod 64 else 64)" if "k < 64" for k
    using that bit_low_ones [of "?n mod 64" k] by simp
  have "?xs ! (i div 64) = (if i div 64 < ?m - 1 then - 1 else 0)"
    using block_div_bound [OF assms(4)] m assms(3) by (subst nth_memset_ones) auto
  then have at: "slot_bit ?xs i \<longleftrightarrow> i div 64 < ?m - 1" by (simp add: slot_bit_def)
  have "slot_bit (?xs[?m - 1 := ?l]) i \<longleftrightarrow>
      (if i div 64 = ?m - 1 then bit ?l (i mod 64) else i div 64 < ?m - 1)"
    by (simp only: slot_bit_update [OF len assms(4)] at)
  also have "\<dots> \<longleftrightarrow> i < ?n"
    using last_vec [OF n(1), of i] by (subst l) simp_all
  finally show ?thesis
    using ctor_fields(2) [OF assms(1,2), of s] assms(3) by simp
qed

lemma ctor_avail:
  assumes "8 \<le> unat bs" and "unat bs \<le> 32768" and "available_slots s = replicate 64 0"
  shows "avail (obj_slab_ctor bs s) = {0..<nblocks_of bs}"
  using ctor_slots [OF assms] nblocks_le [OF assms(1)] by (auto simp: avail_def)

lemma ctor_frame [simp]:
  "next_slab (obj_slab_ctor bs s) = next_slab s" "freed_vecs (obj_slab_ctor bs s) = freed_vecs s"
  "slab_state (obj_slab_ctor bs s) = slab_state s" "freed_slots (obj_slab_ctor bs s) = freed_slots s"
  "block_size (obj_slab_ctor bs s) = bs"
  by (simp_all add: obj_slab_ctor_def Let_def)

lemma zero_slab_fields [simp]:
  "available_slots zero_slab = replicate 64 0" "freed_slots zero_slab = replicate 64 0"
  "next_slab zero_slab = 0" "freed_vecs zero_slab = 0" "slab_state zero_slab = OWNED"
  by (simp_all add: zero_slab_def OWNED_def)

lemma ctor_wf:
  assumes "8 \<le> unat bs" and "unat bs \<le> 32768"
  shows "slab_wf (obj_slab_ctor bs zero_slab)"
proof -
  let ?s = "obj_slab_ctor bs zero_slab"
  have c: "1 \<le> (nblocks_of bs + 63) div 64" "(nblocks_of bs + 63) div 64 \<le> 64"
    using ctor_counts [OF assms] by auto
  note f = ctor_fields [OF assms, of zero_slab]
  have "available_slots ?s ! v = 0" if "v < 64" "\<not> bit (available_vecs ?s) v" for v
  proof -
    have "(nblocks_of bs + 63) div 64 \<le> v" using that f(1) by (simp add: not_less)
    then show ?thesis using that(1) c by (simp add: f(2) nth_list_update nth_memset_ones)
  qed
  moreover have "length (available_slots ?s) = 64" using c by (simp add: f(2))
  ultimately show ?thesis by (simp add: slab_wf_def)
qed


section \<open>Properties\<close>

lemma slab_allocate_same_cpu:
  assumes "this mod sizeof_obj_slab = 0" and "slab_wf s"
  shows "\<exists>idx s'. slab_allocate this cpu cpu s = Inr (idx, s') \<and> alloc_post s idx s'"
  using assms alloc_vecs_post [OF assms(2)]
  by (auto simp: slab_allocate_def intro!: exI prod.collapse [symmetric])

text \<open>
  C18: the constructor on fresh memory makes exactly the blocks that fit into the payload
  available: all of \<open>0, ..., payload_size / block_size - 1\<close>, each inside the payload, none
  freed, the slab owned and well-formed, for every block size from 8 bytes to the payload.
\<close>

theorem slab_ctor_all_blocks:
  assumes "8 \<le> unat bs" and "unat bs \<le> 32768"
  defines "s \<equiv> obj_slab_ctor bs zero_slab"
  shows "slab_wf s \<and> slab_state s = OWNED \<and> freed s = {} \<and> avail s = {i. (i + 1) * unat bs \<le> unat payload_size}"
proof -
  have "avail s = {0..<nblocks_of bs}" unfolding s_def using assms(1,2) by (intro ctor_avail) simp_all
  also have "\<dots> = {i. (i + 1) * unat bs \<le> unat payload_size}"
    using assms(1) by (auto simp: nblocks_of_def slab_consts Suc_le_eq less_eq_div_iff_mult_less_eq
        simp flip: Suc_le_eq)
  finally show ?thesis using ctor_wf [OF assms(1,2)] freed_empty_iff [OF ctor_wf [OF assms(1,2)]]
    by (simp add: s_def)
qed

theorem slab_ctor_all_blocks_witness:
  "slab_wf (obj_slab_ctor 48 zero_slab) \<and> 681 \<in> avail (obj_slab_ctor 48 zero_slab)
    \<and> 682 \<notin> avail (obj_slab_ctor 48 zero_slab)"
  using slab_ctor_all_blocks [of 48] by (simp add: slab_consts)

text \<open>
  C15: \<open>_allocate\<close> on the core the caller started on returns the lowest available block and
  removes exactly it; it returns \<open>FULL\<close> exactly when no block is available. On another core
  it returns \<open>MIGRATED\<close> and changes nothing. It never touches the freed bits, the state, the
  link or the block size.
\<close>

theorem slab_allocate_lowest:
  assumes "slab_wf s" and "this mod sizeof_obj_slab = 0"
  shows "\<exists>idx s'. slab_allocate this start_cpu cur_cpu s = Inr (idx, s')
    \<and> slab_wf s' \<and> freed s' = freed s \<and> slab_state s' = slab_state s \<and> next_slab s' = next_slab s
    \<and> block_size s' = block_size s
    \<and> (if cur_cpu \<noteq> start_cpu then idx = MIGRATED \<and> s' = s
       else if avail s = {} then idx = FULL \<and> avail s' = {}
       else idx < SUCCESS_BOUND \<and> unat idx = Min (avail s) \<and> avail s' = avail s - {Min (avail s)})"
proof (cases "cur_cpu = start_cpu")
  case False
  then show ?thesis using assms by (simp add: slab_allocate_def)
next
  case True
  then obtain idx s' where run: "slab_allocate this start_cpu cur_cpu s = Inr (idx, s')"
      and post: "alloc_post s idx s'"
    using slab_allocate_same_cpu [OF assms(2,1)] by blast
  have fin: "finite (avail s)" by (simp add: avail_def)
  have "unat idx = Min (avail s) \<and> idx < SUCCESS_BOUND" if ne: "avail s \<noteq> {}"
  proof
    show "unat idx = Min (avail s)"
      using post ne fin by (intro Min_eqI [symmetric]) (auto simp: alloc_post_def)
    have "unat idx < 4096" using post ne by (auto simp: alloc_post_def avail_def)
    then show "idx < SUCCESS_BOUND" by (simp add: slab_consts word_less_nat_alt)
  qed
  then show ?thesis using run post True by (auto simp: alloc_post_def freed_def)
qed

theorem slab_allocate_lowest_witness:
  "\<exists>idx s'. slab_allocate 34048 3 3 (obj_slab_ctor 144 zero_slab) = Inr (idx, s') \<and> idx < SUCCESS_BOUND"
  using slab_allocate_lowest [of "obj_slab_ctor 144 zero_slab" 34048 3 3] ctor_wf [of 144]
    ctor_avail [of 144 zero_slab] by (auto simp: slab_consts nblocks_of_def)

text \<open>
  C17: \<open>_free\<close> inverts the address computation of an allocation: an address anywhere inside
  block \<open>i\<close> puts exactly block \<open>i\<close> into the freed set, reaches no undefined behaviour, and
  reports 1 (the caller must claim the slab) exactly when the slab is unowned and its vector
  had no freed block.
\<close>

theorem slab_free_inverts_address:
  assumes "slab_wf s" and "8 \<le> unat (block_size s)" and "i < nblocks_of (block_size s)"
    and "d < unat (block_size s)"
  shows "\<exists>s'. slab_free (payload_offset + ucast (block_size s) * of_nat i + of_nat d) s
      = Inr (if slab_state s = UNOWNED \<and> {j \<in> freed s. j div 64 = i div 64} = {} then 1 else 0, s')
    \<and> slab_wf s' \<and> freed s' = insert i (freed s) \<and> avail s' = avail s \<and> slab_state s' = slab_state s"
proof -
  let ?a = "payload_offset + ucast (block_size s) * of_nat i + of_nat d :: u64"
  have fits: "unat (block_size s) * i + d < 32768" using assms(3,4) by (rule block_fits)
  have i4: "i < 4096" using assms(3) nblocks_le [OF assms(2)] by linarith
  have u: "unat (of_nat i :: u64) = i" "unat (of_nat d :: u64) = d"
    using i4 fits by (simp_all add: unat_of_nat)
  have p: "unat (ucast (block_size s) * of_nat i :: u64) = unat (block_size s) * i"
    using fits u by (simp add: unat_word_ariths(2))
  have a: "unat ?a = 1280 + (unat (block_size s) * i + d)"
    using fits u p by (simp add: unat_word_ariths(1) slab_consts)
  have len: "length (freed_slots s) = 64" using assms(1) by (simp add: slab_wf_def)
  have "freed_slots s ! (i div 64) = 0 \<longleftrightarrow> {j \<in> freed s. j div 64 = i div 64} = {}"
  proof
    assume "{j \<in> freed s. j div 64 = i div 64} = {}"
    then have "i div 64 * 64 + n \<notin> freed s" if "n < 64" for n using that by auto
    then have "\<not> bit (freed_slots s ! (i div 64)) n" if "n < 64" for n
      using that block_div_bound [OF i4] by (simp add: freed_def slot_bit_def)
    then show "freed_slots s ! (i div 64) = 0" by (simp only: word_eq_zero_iff_bits) simp
  qed (auto simp: freed_def slot_bit_def)
  then show ?thesis using slab_free_block [OF assms a] by auto
qed

theorem slab_free_inverts_address_witness:
  "\<exists>s'. slab_free (payload_offset + ucast (48 :: u32) * of_nat 5 + of_nat 7) (obj_slab_ctor 48 zero_slab)
      = Inr (0, s') \<and> freed s' = {5}"
proof -
  have "slab_state (obj_slab_ctor 48 zero_slab) \<noteq> UNOWNED" by (simp add: OWNED_def UNOWNED_def)
  moreover have "freed (obj_slab_ctor 48 zero_slab) = {}"
    using freed_empty_iff [OF ctor_wf [of 48]] by simp
  ultimately show ?thesis
    using slab_free_inverts_address [of "obj_slab_ctor 48 zero_slab" 5 7] ctor_wf [of 48]
    by (auto simp: nblocks_of_def)
qed

text \<open>
  C16: \<open>_try_release\<close> on a full slab moves every freed block back to the available set in one
  call and empties the freed set; with nothing freed it gives the slab up (state
  \<open>UNOWNED\<close>, result 1), and only then.
\<close>

theorem slab_try_release_moves_all:
  assumes "slab_wf s" and "avail s = {}" and "slab_state s = OWNED"
  shows "\<exists>r s'. try_release s = Inr (r, s') \<and> slab_wf s' \<and> avail s' = freed s \<and> freed s' = {}
    \<and> (r = 1 \<longleftrightarrow> freed s = {}) \<and> (slab_state s' = UNOWNED \<longleftrightarrow> freed s = {})"
proof (cases "freed s = {}")
  case True
  then have "freed_vecs s = 0" using freed_empty_iff [OF assms(1)] by simp
  then show ?thesis using True assms
    by (auto simp: try_release_empty slab_wf_def)
next
  case False
  then show ?thesis using try_release_reclaims [OF assms(1,2) False] assms(3)
    by (auto simp: OWNED_def UNOWNED_def)
qed


theorem slab_try_release_moves_all_witness:
  "\<exists>r s'. try_release (zero_slab\<lparr>freed_vecs := 2, freed_slots := (replicate 64 0)[1 := 5]\<rparr>) = Inr (r, s')
    \<and> r \<noteq> 1 \<and> 64 \<in> avail s' \<and> 66 \<in> avail s'"
proof -
  let ?s = "zero_slab\<lparr>freed_vecs := 2, freed_slots := (replicate 64 0)[1 := 5]\<rparr>"
  have two: "bit (2 :: u64) v \<longleftrightarrow> v = 1" for v
    using bit_exp_iff [of 1 v, where 'a = u64] by (auto simp: possible_bit_word)
  have nz: "freed_slots ?s ! v \<noteq> 0 \<longleftrightarrow> v = 1" if "v < 64" for v
    using that by (cases "v = 1") simp_all
  have fv: "freed_vecs ?s = 2" by simp
  have vec: "\<forall>v < 64. bit (freed_vecs ?s) v \<longleftrightarrow> freed_slots ?s ! v \<noteq> 0"
    by (intro allI impI) (simp only: fv two nz)
  have wf: "slab_wf ?s" unfolding slab_wf_def
    by (intro conjI vec) (simp_all add: slab_consts)
  have "avail ?s = {}" by (simp add: avail_def slot_bit_def zero_slab_def)
  moreover have "bit (5 :: u64) 0" "bit (5 :: u64) 2" by simp_all
  then have fr: "64 \<in> freed ?s" "66 \<in> freed ?s" by (simp_all add: freed_def slot_bit_def)
  moreover have "slab_state ?s = OWNED" by simp
  ultimately obtain r s' where "try_release ?s = Inr (r, s')" "avail s' = freed ?s" "r = 1 \<longleftrightarrow> freed ?s = {}"
    using slab_try_release_moves_all [OF wf] by metis
  then show ?thesis using fr by (intro exI [of _ r] exI [of _ s']) auto
qed

end
