(* ===== verification/Slab_Allocation.thy ===== *)
theory Slab_Allocation
  imports Obj_Slab
begin

text \<open>
  The bump allocator of \<open>src/allocator/slab_allocation.h\<close>, which hands out the slabs of the
  region one after the other. Its state is the one word \<open>current_slab\<close>; \<open>_new\<close> is one
  atomic fetch-and-add, so a run of calls by any number of threads is a sequence of them.
\<close>

definition slab_allocator_ctor :: "u64 \<Rightarrow> u64 result" where
  "slab_allocator_ctor mem_region =
     (if mem_region mod sizeof_obj_slab = 0 then Inr mem_region else Inl Assert_Failed)"

definition out_of_memory :: "u64 \<Rightarrow> u64 \<Rightarrow> u32" where
  "out_of_memory end_addr cur = (if cur \<ge> end_addr then 1 else 0)"

definition slab_new :: "u64 \<Rightarrow> u64 \<times> u64" where
  "slab_new cur = (cur, cur + sizeof_obj_slab)"

text \<open>The slabs that \<open>n\<close> calls of \<open>_new\<close> return, in the order of the calls.\<close>

fun slab_new_run :: "nat \<Rightarrow> u64 \<Rightarrow> u64 list \<times> u64" where
  "slab_new_run 0 cur = ([], cur)"
| "slab_new_run (Suc n) cur = (let (a, cur') = slab_new cur; (as, cur'') = slab_new_run n cur' in (a # as, cur''))"

lemma sizeof_obj_slab_eq: "sizeof_obj_slab = 34048" "unat sizeof_obj_slab = 34048"
  by (simp_all add: slab_consts)

lemma slab_new_run_nth:
  "fst (slab_new_run n cur) = map (\<lambda>i. cur + of_nat i * sizeof_obj_slab) [0..<n]
   \<and> snd (slab_new_run n cur) = cur + of_nat n * sizeof_obj_slab"
proof (induction n arbitrary: cur)
  case (Suc n)
  have "map (\<lambda>i. cur + of_nat i * sizeof_obj_slab) [0..<Suc n]
      = cur # map (\<lambda>i. cur + sizeof_obj_slab + of_nat i * sizeof_obj_slab) [0..<n]"
    by (simp add: upt_conv_Cons map_Suc_upt [symmetric] algebra_simps del: upt_Suc)
  then show ?case using Suc.IH [of "cur + sizeof_obj_slab"]
    by (simp add: slab_new_def split_beta Let_def algebra_simps del: upt_Suc)
qed simp

lemma unat_slab_multiple:
  assumes "unat cur + n * 34048 < 2 ^ 64" and "i \<le> n"
  shows "unat (cur + of_nat i * sizeof_obj_slab) = unat cur + i * 34048"
proof -
  have le: "unat cur + i * 34048 < 18446744073709551616" using assms by simp
  have "unat (of_nat i :: u64) = i" using le by (simp add: unat_of_nat)
  moreover have "unat (of_nat i * sizeof_obj_slab :: u64) = i * 34048"
    using le calculation by (simp add: unat_word_ariths(2) sizeof_obj_slab_eq)
  ultimately show ?thesis using le by (simp add: unat_word_ariths(1))
qed

text \<open>
  C22: as long as the address space does not wrap around, \<open>n\<close> calls of \<open>_new\<close> by any
  threads return \<open>n\<close> slabs that lie one behind the other: each is aligned to the slab size
  when the region's start is, and no two of them share a byte.
\<close>

theorem slab_new_run_disjoint:
  assumes "slab_allocator_ctor region = Inr cur" and "unat cur + n * 34048 < 2 ^ 64"
    and "i < j" and "j < n"
  shows "unat (fst (slab_new_run n cur) ! i) + unat sizeof_obj_slab \<le> unat (fst (slab_new_run n cur) ! j)
    \<and> fst (slab_new_run n cur) ! i mod sizeof_obj_slab = 0
    \<and> unat (fst (slab_new_run n cur) ! j) + unat sizeof_obj_slab \<le> unat (snd (slab_new_run n cur))"
proof -
  have al: "unat cur mod 34048 = 0"
  proof -
    have "cur mod sizeof_obj_slab = 0" using assms(1) by (simp add: slab_allocator_ctor_def split: if_splits)
    then have "unat (cur mod sizeof_obj_slab) = 0" by simp
    then show ?thesis by (simp add: unat_mod sizeof_obj_slab_eq)
  qed
  have at: "unat (fst (slab_new_run n cur) ! k) = unat cur + k * 34048" if "k < n" for k
    using that unat_slab_multiple [OF assms(2), of k] by (simp add: slab_new_run_nth)
  have "unat (fst (slab_new_run n cur) ! i mod sizeof_obj_slab) = 0"
    using at [of i] assms(3,4) al by (simp add: unat_mod sizeof_obj_slab_eq)
  then have "fst (slab_new_run n cur) ! i mod sizeof_obj_slab = 0" by (simp only: unsigned_eq_0_iff)
  moreover have "unat (snd (slab_new_run n cur)) = unat cur + n * 34048"
    using unat_slab_multiple [OF assms(2), of n] by (simp add: slab_new_run_nth)
  ultimately show ?thesis using at [of i] at [of j] assms(3,4) by (simp add: sizeof_obj_slab_eq)
qed

theorem slab_new_run_disjoint_witness:
  "unat (fst (slab_new_run 3 68096) ! 0) + unat sizeof_obj_slab \<le> unat (fst (slab_new_run 3 68096) ! 2)"
  using slab_new_run_disjoint [of 68096 68096 3 0 2]
  by (simp add: slab_allocator_ctor_def sizeof_obj_slab_eq)

end
