(* ===== verification/Free_Cache.thy ===== *)
theory Free_Cache
  imports Const_Math
begin

text \<open>
  The per-core cache of freed pointers: \<open>src/allocator/free_cache.h\<close> and the bodies of the
  critical sections \<open>try_pop\<close> and \<open>try_push\<close> of \<open>src/allocator/object_allocator.h\<close>, which
  work on the cache of the core they run on. The sections read and write \<open>current_idx\<close>
  with 8-byte instructions, so the field is 64 bits wide here: the 32 bits of the C++ field
  and the padding behind it.
\<close>

definition cache_size :: u32 where
  "cache_size = (cmath_next_p2 (24 + 8 * 13) - 24) div 8"

record free_cache =
  current_idx :: u64
  ptrs :: "u64 list"

definition fc_pop :: "free_cache \<Rightarrow> (u64 \<times> free_cache) result" where
  "fc_pop fc =
     (let ret = current_idx fc
      in if ret = 0 then Inr (0, fc)
         else if unat ret > length (ptrs fc) then Inl Out_Of_Bounds
         else Inr (ptrs fc ! (unat ret - 1), fc\<lparr>current_idx := ret - 1\<rparr>))"

definition fc_push :: "u64 \<Rightarrow> free_cache \<Rightarrow> (u64 \<times> free_cache) result" where
  "fc_push ptr fc =
     (let idx = current_idx fc
      in if idx = ucast cache_size then Inr (1, fc)
         else if unat idx \<ge> length (ptrs fc) then Inl Out_Of_Bounds
         else Inr (0, fc\<lparr>ptrs := (ptrs fc)[unat idx := ptr], current_idx := idx + 1\<rparr>))"

section \<open>The stack contract\<close>

text \<open>
  What the allocator relies on: the cache is a stack of at most \<open>cap\<close> pointers. A push on
  a full stack is refused with result 1 and changes nothing, a pop from an empty one
  returns 0. \<open>rep s xs\<close> says that the state \<open>s\<close> holds the pointers \<open>xs\<close>, the top first.
\<close>

fun push_all :: "(u64 \<Rightarrow> 's \<Rightarrow> (u64 \<times> 's) result) \<Rightarrow> u64 list \<Rightarrow> 's \<Rightarrow> 's result" where
  "push_all push [] s = Inr s"
| "push_all push (x # xs) s = bind_res (push x s) (\<lambda>(_, s'). push_all push xs s')"

fun pop_run :: "('s \<Rightarrow> (u64 \<times> 's) result) \<Rightarrow> nat \<Rightarrow> 's \<Rightarrow> (u64 list \<times> 's) result" where
  "pop_run pop 0 s = Inr ([], s)"
| "pop_run pop (Suc n) s =
     bind_res (pop s) (\<lambda>(x, s'). bind_res (pop_run pop n s') (\<lambda>(xs, s''). Inr (x # xs, s'')))"

locale bounded_stack =
  fixes push :: "u64 \<Rightarrow> 's \<Rightarrow> (u64 \<times> 's) result"
    and pop :: "'s \<Rightarrow> (u64 \<times> 's) result"
    and rep :: "'s \<Rightarrow> u64 list \<Rightarrow> bool"
    and cap :: nat
  assumes rep_le: "rep s xs \<Longrightarrow> length xs \<le> cap"
    and push_room: "rep s xs \<Longrightarrow> length xs < cap \<Longrightarrow> \<exists>s'. push x s = Inr (0, s') \<and> rep s' (x # xs)"
    and push_full: "rep s xs \<Longrightarrow> length xs = cap \<Longrightarrow> push x s = Inr (1, s)"
    and pop_top: "rep s (x # xs) \<Longrightarrow> \<exists>s'. pop s = Inr (x, s') \<and> rep s' xs"
    and pop_empty: "rep s [] \<Longrightarrow> pop s = Inr (0, s)"
begin

lemma push_all_rep:
  "rep s xs \<Longrightarrow> length xs + length ys \<le> cap \<Longrightarrow> \<exists>s'. push_all push ys s = Inr s' \<and> rep s' (rev ys @ xs)"
proof (induction ys arbitrary: s xs)
  case (Cons y ys)
  obtain s1 where s1: "push y s = Inr (0, s1)" "rep s1 (y # xs)"
    using push_room [OF Cons.prems(1)] Cons.prems(2) by auto
  obtain s2 where "push_all push ys s1 = Inr s2" "rep s2 (rev ys @ y # xs)"
    using Cons.IH [OF s1(2)] Cons.prems(2) by auto
  then show ?case using s1(1) by auto
qed simp

lemma pop_run_rep:
  "rep s (xs @ ys) \<Longrightarrow> \<exists>s'. pop_run pop (length xs) s = Inr (xs, s') \<and> rep s' ys"
proof (induction xs arbitrary: s)
  case (Cons x xs)
  obtain s1 where s1: "pop s = Inr (x, s1)" "rep s1 (xs @ ys)" using pop_top Cons.prems by fastforce
  obtain s2 where "pop_run pop (length xs) s1 = Inr (xs, s2)" "rep s2 ys" using Cons.IH [OF s1(2)] by auto
  then show ?case using s1(1) by auto
qed simp

lemma push_all_pop_run:
  assumes "rep s xs" and "length xs + length ys \<le> cap"
  shows "\<exists>s' s''. push_all push ys s = Inr s' \<and> pop_run pop (length ys) s' = Inr (rev ys, s'') \<and> rep s'' xs"
proof -
  obtain s' where "push_all push ys s = Inr s'" "rep s' (rev ys @ xs)" using push_all_rep assms by blast
  then show ?thesis using pop_run_rep [of s' "rev ys" xs] by auto
qed

lemma push_cases:
  assumes "rep s xs"
  obtains (room) s' where "length xs < cap" "push x s = Inr (0, s')" "rep s' (x # xs)"
  | (full) "length xs = cap" "push x s = Inr (1, s)"
  using rep_le [OF assms] push_room [OF assms] push_full [OF assms] le_neq_implies_less by blast

end

section \<open>The cache is a stack\<close>

lemma cache_size_eq: "cache_size = 13"
  unfolding cache_size_def by code_simp

definition fc_rep :: "free_cache \<Rightarrow> u64 list \<Rightarrow> bool" where
  "fc_rep fc xs \<longleftrightarrow> length (ptrs fc) = 13 \<and> length xs \<le> 13 \<and> unat (current_idx fc) = length xs
     \<and> (\<forall>i < length xs. ptrs fc ! i = rev xs ! i)"

lemma fc_rep_le: "fc_rep fc xs \<Longrightarrow> length xs \<le> 13"
  by (simp add: fc_rep_def)

lemma fc_push_room:
  assumes "fc_rep fc xs" and "length xs < 13"
  shows "\<exists>fc'. fc_push x fc = Inr (0, fc') \<and> fc_rep fc' (x # xs)"
proof -
  have i: "unat (current_idx fc) = length xs" using assms by (simp add: fc_rep_def)
  then have ne: "current_idx fc \<noteq> 13" using assms(2) by auto
  have "unat (current_idx fc + 1) = Suc (length xs)"
    using i assms(2) by (simp add: unat_word_ariths(1))
  then show ?thesis using assms i ne
    by (auto simp: fc_push_def fc_rep_def cache_size_eq nth_list_update nth_append Let_def)
qed

lemma fc_pop_top:
  assumes "fc_rep fc (x # xs)"
  shows "\<exists>fc'. fc_pop fc = Inr (x, fc') \<and> fc_rep fc' xs"
proof -
  have i: "unat (current_idx fc) = Suc (length xs)" and l: "length (ptrs fc) = 13" "Suc (length xs) \<le> 13"
    and nth: "\<And>i. i < Suc (length xs) \<Longrightarrow> ptrs fc ! i = (rev xs @ [x]) ! i"
    using assms by (simp_all add: fc_rep_def)
  have nz: "current_idx fc \<noteq> 0" using i by auto
  then have "unat (current_idx fc - 1) = length xs" using i by (simp add: unat_minus_one)
  moreover have "ptrs fc ! length xs = x" using nth [of "length xs"] by (simp add: nth_append)
  moreover have "ptrs fc ! i = rev xs ! i" if "i < length xs" for i
    using nth [of i] that by (simp add: nth_append)
  ultimately show ?thesis using i l nz by (auto simp: fc_pop_def fc_rep_def Let_def)
qed

interpretation fcs: bounded_stack fc_push fc_pop fc_rep 13
proof (unfold_locales, goal_cases)
  case (3 fc xs x)
  then have "unat (current_idx fc) = unat (13 :: u64)" by (simp add: fc_rep_def)
  then have "current_idx fc = 13" by (simp only: word_unat_eq_iff)
  then show ?case by (simp add: fc_push_def cache_size_eq)
next
  case (5 fc)
  then have "current_idx fc = 0" by (simp add: fc_rep_def unsigned_eq_0_iff)
  then show ?case by (simp add: fc_pop_def)
qed (simp_all add: fc_rep_le fc_push_room fc_pop_top)

section \<open>Properties\<close>

text \<open>
  C21: the free cache is a last-in-first-out stack: pointers pushed while there is room come
  back in reverse order, and what was in the cache before is in it again, with no access
  outside the pointer array.
\<close>

theorem free_cache_lifo:
  assumes "fc_rep fc xs" and "length xs + length ys \<le> 13"
  shows "\<exists>fc1 fc2. push_all fc_push ys fc = Inr fc1 \<and> pop_run fc_pop (length ys) fc1 = Inr (rev ys, fc2)
    \<and> fc_rep fc2 xs"
  using assms by (rule fcs.push_all_pop_run)

theorem free_cache_lifo_witness:
  "\<exists>fc1 fc2. push_all fc_push [4096, 8192, 512] \<lparr>current_idx = 1, ptrs = 640 # replicate 12 0\<rparr> = Inr fc1
    \<and> pop_run fc_pop 3 fc1 = Inr ([512, 8192, 4096], fc2) \<and> fc_rep fc2 [640]"
  using free_cache_lifo [of "\<lparr>current_idx = 1, ptrs = 640 # replicate 12 0\<rparr>" "[640]" "[4096, 8192, 512]"]
  by (simp add: fc_rep_def numeral_3_eq_3)

end
