(* ===== verification/Slab_Manager.thy ===== *)
theory Slab_Manager
  imports Obj_Slab Free_Cache "HOL-Library.Monad_Syntax"
begin

text \<open>
  The per-core manager of \<open>src/allocator/slab_manager.h\<close>: a singly linked list of available
  slabs with a head and a tail pointer, and the free cache. The links are the \<open>next\<close> fields
  of the slabs, so the operations work on the slab memory too. \<open>_send_slab\<close> of
  \<open>src/allocator/object_allocator.h\<close>, the insertion at the tail, is here with the removal
  \<open>_cas_set_next_available_slab\<close>, because the two are the operations of the list.
\<close>

type_synonym slab_mem = "u64 \<rightharpoonup> obj_slab"

record slab_manager =
  available_slabs_head :: u64
  available_slabs_tail :: u64
  fc :: free_cache

definition ANY :: u32 where "ANY = 1"

text \<open>A critical section of a thread that runs on \<open>cur_cpu\<close> for its whole length.\<close>

definition cas_set_next_available_slab ::
  "u32 \<Rightarrow> u32 \<Rightarrow> u64 \<Rightarrow> slab_mem \<Rightarrow> slab_manager \<Rightarrow> (u32 \<times> slab_manager) result" where
  "cas_set_next_available_slab start_cpu cur_cpu expected_slab h sm =
     (if cur_cpu \<noteq> start_cpu then Inr (ANY, sm)
      else if available_slabs_head sm \<noteq> expected_slab then Inr (ANY, sm)
      else case h (available_slabs_head sm) of
             None \<Rightarrow> Inl Out_Of_Bounds
           | Some s \<Rightarrow> Inr (0, sm\<lparr>available_slabs_head := next_slab s\<rparr>))"

definition set_next :: "u64 \<Rightarrow> u64 \<Rightarrow> slab_mem \<Rightarrow> slab_mem result" where
  "set_next slab p h = (case h slab of None \<Rightarrow> Inl Out_Of_Bounds | Some s \<Rightarrow> Inr (h(slab \<mapsto> s\<lparr>next_slab := p\<rparr>)))"

definition send_slab :: "u64 \<Rightarrow> slab_mem \<Rightarrow> slab_manager \<Rightarrow> (slab_mem \<times> slab_manager) result" where
  "send_slab slab h sm =
     (case h slab of
        None \<Rightarrow> Inl Out_Of_Bounds
      | Some s \<Rightarrow>
          if next_slab s \<noteq> 0 then Inl Assert_Failed
          else if available_slabs_head sm = 0
          then Inr (h, sm\<lparr>available_slabs_tail := slab, available_slabs_head := slab\<rparr>)
          else bind_res (set_next (available_slabs_tail sm) slab h)
                 (\<lambda>h'. Inr (h', sm\<lparr>available_slabs_tail := slab\<rparr>)))"

text \<open>
  The walk of \<open>print_status_recap\<close> along the \<open>next\<close> fields; its value is the list of the
  addresses printed. The loop has no bound of its own: on a cyclic list it does not return,
  which is the value \<open>None\<close>; so is a link to memory that is not a slab.
\<close>

partial_function (option) walk_slabs :: "slab_mem \<Rightarrow> u64 \<Rightarrow> u64 list option" where
  "walk_slabs h tmp =
     (if tmp = 0 then Some []
      else Option.bind (h tmp) (\<lambda>s. Option.bind (walk_slabs h (next_slab s)) (\<lambda>xs. Some (tmp # xs))))"

definition manager_status_recap :: "slab_mem \<Rightarrow> slab_manager \<Rightarrow> (u64 \<times> u64 \<times> u64 list) option" where
  "manager_status_recap h sm =
     Option.bind (walk_slabs h (available_slabs_head sm))
       (\<lambda>xs. Some (available_slabs_head sm, available_slabs_tail sm, xs))"

section \<open>Lists of slabs in memory\<close>

fun chain :: "slab_mem \<Rightarrow> u64 \<Rightarrow> u64 list \<Rightarrow> bool" where
  "chain h p [] \<longleftrightarrow> p = 0"
| "chain h p (x # xs) \<longleftrightarrow> p = x \<and> x \<noteq> 0 \<and> (\<exists>s. h x = Some s \<and> chain h (next_slab s) xs)"

definition sm_rep :: "slab_mem \<Rightarrow> slab_manager \<Rightarrow> u64 list \<Rightarrow> bool" where
  "sm_rep h sm xs \<longleftrightarrow> chain h (available_slabs_head sm) xs \<and> distinct xs
     \<and> (xs \<noteq> [] \<longrightarrow> available_slabs_tail sm = last xs)"

definition same_next :: "slab_mem \<Rightarrow> slab_mem \<Rightarrow> u64 \<Rightarrow> bool" where
  "same_next h h' a \<longleftrightarrow> map_option next_slab (h a) = map_option next_slab (h' a)"

lemma chain_cong:
  "\<forall>x \<in> set xs. same_next h h' x \<Longrightarrow> chain h p xs \<longleftrightarrow> chain h' p xs"
proof (induction xs arbitrary: p)
  case (Cons x xs)
  have "map_option next_slab (h x) = map_option next_slab (h' x)"
    using Cons.prems by (simp add: same_next_def)
  then have "(\<exists>s. h x = Some s \<and> chain h (next_slab s) xs) \<longleftrightarrow> (\<exists>s. h' x = Some s \<and> chain h (next_slab s) xs)"
    by (cases "h x"; cases "h' x") auto
  then show ?case using Cons by auto
qed simp

lemma sm_rep_cong:
  "\<forall>x \<in> set xs. same_next h h' x \<Longrightarrow> sm_rep h sm xs \<longleftrightarrow> sm_rep h' sm xs"
  unfolding sm_rep_def by (simp add: chain_cong [of xs h h'])

lemma same_next_upd: "h a = Some s \<Longrightarrow> next_slab s' = next_slab s \<Longrightarrow> same_next h (h(a \<mapsto> s')) b"
  by (simp add: same_next_def)

lemma same_next_other: "b \<noteq> a \<Longrightarrow> same_next h (h(a \<mapsto> s')) b"
  by (simp add: same_next_def)

lemma chain_mapped: "chain h p xs \<Longrightarrow> x \<in> set xs \<Longrightarrow> h x \<noteq> None"
  by (induction xs arbitrary: p) auto

lemma chain_nonzero: "chain h p xs \<Longrightarrow> x \<in> set xs \<Longrightarrow> x \<noteq> 0"
  by (induction xs arbitrary: p) auto

lemma chain_append:
  assumes "chain h p xs" "xs \<noteq> []" "distinct xs" "h (last xs) = Some t"
    and "a \<noteq> 0" "a \<notin> set xs" "h a = Some s" "next_slab s = 0"
  shows "chain (h(last xs \<mapsto> t\<lparr>next_slab := a\<rparr>)) p (xs @ [a])"
  using assms
proof (induction xs arbitrary: p)
  case (Cons x xs)
  show ?case
  proof (cases "xs = []")
    case True
    then show ?thesis using Cons.prems by auto
  next
    case False
    then have "x \<noteq> last xs" using Cons.prems by auto
    then show ?thesis using Cons False by auto
  qed
qed simp

lemma walk_chain: "chain h p xs \<Longrightarrow> walk_slabs h p = Some xs"
proof (induction xs arbitrary: p)
  case Nil
  then show ?case by (subst walk_slabs.simps) simp
next
  case (Cons x xs)
  then show ?case by (subst walk_slabs.simps) auto
qed

section \<open>The queue contract\<close>

text \<open>
  What \<open>_allocate_inner\<close> and \<open>_free\<close> rely on. \<open>loose\<close> is a slab that may be sent: mapped,
  not in the list, its link null. The removal takes the slab the caller believes to be
  first and does nothing when the belief is wrong.
\<close>

fun rotate_run :: "(u64 \<Rightarrow> 's \<Rightarrow> 's result) \<Rightarrow> (u64 \<Rightarrow> 's \<Rightarrow> (u32 \<times> 's) result) \<Rightarrow> (u64 \<Rightarrow> 's \<Rightarrow> 's result)
    \<Rightarrow> u64 list \<Rightarrow> 's \<Rightarrow> 's result" where
  "rotate_run send remove unlink [] s = Inr s"
| "rotate_run send remove unlink (a # as) s = bind_res (remove a s) (\<lambda>(r, s1).
     bind_res (unlink a s1) (\<lambda>s2. bind_res (send a s2) (rotate_run send remove unlink as)))"

locale slab_queue =
  fixes send :: "u64 \<Rightarrow> 's \<Rightarrow> 's result"
    and remove :: "u64 \<Rightarrow> 's \<Rightarrow> (u32 \<times> 's) result"
    and unlink :: "u64 \<Rightarrow> 's \<Rightarrow> 's result"
    and rep :: "'s \<Rightarrow> u64 list \<Rightarrow> bool"
    and loose :: "'s \<Rightarrow> u64 \<Rightarrow> bool"
  assumes send_tail: "rep s xs \<Longrightarrow> loose s a \<Longrightarrow> a \<notin> set xs \<Longrightarrow> \<exists>s'. send a s = Inr s' \<and> rep s' (xs @ [a])"
    and remove_head: "rep s (a # xs) \<Longrightarrow> \<exists>s'. remove a s = Inr (0, s') \<and> rep s' xs"
    and remove_stale: "rep s xs \<Longrightarrow> a \<noteq> 0 \<Longrightarrow> xs = [] \<or> hd xs \<noteq> a \<Longrightarrow> remove a s = Inr (ANY, s)"
    and unlink_head: "rep s (a # xs) \<Longrightarrow> remove a s = Inr (0, s') \<Longrightarrow> \<exists>s''. unlink a s' = Inr s'' \<and> rep s'' xs \<and> loose s'' a"
    and rep_distinct: "rep s xs \<Longrightarrow> distinct xs"
begin

text \<open>The rotation of a full slab whose freed blocks were taken back.\<close>

lemma rotate:
  assumes "rep s (a # xs)"
  shows "\<exists>s1 s2 s3. remove a s = Inr (0, s1) \<and> unlink a s1 = Inr s2 \<and> send a s2 = Inr s3 \<and> rep s3 (xs @ [a])"
proof -
  obtain s1 where s1: "remove a s = Inr (0, s1)" "rep s1 xs" using remove_head assms by blast
  obtain s2 where s2: "unlink a s1 = Inr s2" "rep s2 xs" "loose s2 a" using unlink_head assms s1 by blast
  have "a \<notin> set xs" using rep_distinct [OF assms] by simp
  then show ?thesis using s1 s2 send_tail by blast
qed

lemma rotate_run_rep: "rep s (xs @ ys) \<Longrightarrow> \<exists>s'. rotate_run send remove unlink xs s = Inr s' \<and> rep s' (ys @ xs)"
proof (induction xs arbitrary: s ys)
  case (Cons x xs)
  obtain s1 s2 s3 where s: "remove x s = Inr (0, s1)" "unlink x s1 = Inr s2" "send x s2 = Inr s3"
      "rep s3 (xs @ ys @ [x])"
    using rotate [of s x "xs @ ys"] Cons.prems by auto
  obtain s' where "rotate_run send remove unlink xs s3 = Inr s'" "rep s' ((ys @ [x]) @ xs)"
    using Cons.IH [of s3 "ys @ [x]"] s(4) by auto
  then show ?case using s by auto
qed simp

end

text \<open>The state of the list: the slab memory with the manager that holds its two ends.\<close>

definition sq_send :: "u64 \<Rightarrow> slab_mem \<times> slab_manager \<Rightarrow> (slab_mem \<times> slab_manager) result" where
  "sq_send a s = send_slab a (fst s) (snd s)"

definition sq_remove :: "u64 \<Rightarrow> slab_mem \<times> slab_manager \<Rightarrow> (u32 \<times> slab_mem \<times> slab_manager) result" where
  "sq_remove a s = bind_res (cas_set_next_available_slab 0 0 a (fst s) (snd s)) (\<lambda>(r, sm'). Inr (r, fst s, sm'))"

definition sq_unlink :: "u64 \<Rightarrow> slab_mem \<times> slab_manager \<Rightarrow> (slab_mem \<times> slab_manager) result" where
  "sq_unlink a s = bind_res (set_next a 0 (fst s)) (\<lambda>h'. Inr (h', snd s))"

definition sq_rep :: "slab_mem \<times> slab_manager \<Rightarrow> u64 list \<Rightarrow> bool" where
  "sq_rep s xs \<longleftrightarrow> sm_rep (fst s) (snd s) xs"

definition sq_loose :: "slab_mem \<times> slab_manager \<Rightarrow> u64 \<Rightarrow> bool" where
  "sq_loose s a \<longleftrightarrow> a \<noteq> 0 \<and> (\<exists>t. fst s a = Some t \<and> next_slab t = 0)"

lemmas sq_defs = sq_send_def sq_remove_def sq_unlink_def sq_rep_def sq_loose_def

lemma send_slab_rep:
  assumes rep: "sm_rep h sm xs" and a: "h a = Some s" "next_slab s = 0" "a \<noteq> 0" "a \<notin> set xs"
  shows "\<exists>h' sm'. send_slab a h sm = Inr (h', sm') \<and> sm_rep h' sm' (xs @ [a]) \<and> fc sm' = fc sm
    \<and> (h' = h \<or> (\<exists>t. xs \<noteq> [] \<and> h (last xs) = Some t \<and> h' = h(last xs \<mapsto> t\<lparr>next_slab := a\<rparr>)))"
proof (cases "xs = []")
  case True
  then show ?thesis using assms by (simp add: send_slab_def sm_rep_def)
next
  case False
  then have hd: "available_slabs_head sm \<noteq> 0" and tl: "available_slabs_tail sm = last xs"
    using rep by (auto simp: sm_rep_def neq_Nil_conv)
  obtain t where t: "h (last xs) = Some t"
    using rep False chain_mapped [of h "available_slabs_head sm" xs "last xs"] by (auto simp: sm_rep_def)
  then show ?thesis using assms False hd tl chain_append [of h "available_slabs_head sm" xs t a s]
    by (auto simp: send_slab_def sm_rep_def set_next_def)
qed

lemma cas_set_next_rep:
  assumes "sm_rep h sm (a # xs)"
  shows "\<exists>s. h a = Some s \<and> cas_set_next_available_slab c c a h sm = Inr (0, sm\<lparr>available_slabs_head := next_slab s\<rparr>)
    \<and> sm_rep h (sm\<lparr>available_slabs_head := next_slab s\<rparr>) xs"
  using assms by (auto simp: cas_set_next_available_slab_def sm_rep_def)

interpretation sq: slab_queue sq_send sq_remove sq_unlink sq_rep sq_loose
proof (unfold_locales, goal_cases)
  case (1 s xs a)
  then show ?case using send_slab_rep [of "fst s" "snd s" xs a] by (auto simp: sq_defs)
next
  case (2 s a xs)
  then show ?case using cas_set_next_rep [of "fst s" "snd s" a xs 0] by (auto simp: sq_defs)
next
  case (3 s xs a)
  then have "available_slabs_head (snd s) \<noteq> a" by (cases xs) (auto simp: sq_defs sm_rep_def)
  then show ?case by (auto simp: sq_remove_def cas_set_next_available_slab_def)
next
  case (4 s a xs s')
  obtain t where t: "fst s a = Some t" and sm: "snd s' = snd s\<lparr>available_slabs_head := next_slab t\<rparr>"
    and h: "fst s' = fst s" and r: "sm_rep (fst s) (snd s') xs" and a: "a \<noteq> 0" "a \<notin> set xs"
    using 4 cas_set_next_rep [of "fst s" "snd s" a xs 0] by (auto simp: sq_defs sm_rep_def)
  have "sm_rep ((fst s)(a \<mapsto> t\<lparr>next_slab := 0\<rparr>)) (snd s') xs"
    using r a(2) sm_rep_cong [of xs "fst s"] same_next_other by (metis (no_types, lifting))
  then show ?case using t h a by (auto simp: sq_defs set_next_def)
qed (simp add: sq_defs sm_rep_def)

section \<open>Properties\<close>

text \<open>
  C19: the slabs of a core form a queue: rotating a full slab, by removing it from the head,
  clearing its link and sending it again, moves it behind all the others, loses none and
  fails no assertion; doing so for a prefix of the list leaves the rest first.
\<close>

theorem slab_list_rotates:
  assumes "sm_rep h sm (xs @ ys)"
  shows "\<exists>h' sm'. rotate_run sq_send sq_remove sq_unlink xs (h, sm) = Inr (h', sm') \<and> sm_rep h' sm' (ys @ xs)"
  using sq.rotate_run_rep [of "(h, sm)" xs ys] assms by (auto simp: sq_rep_def)

theorem slab_list_rotates_witness:
  "\<exists>h' sm'. rotate_run sq_send sq_remove sq_unlink [34048]
      ([34048 \<mapsto> zero_slab\<lparr>next_slab := 68096\<rparr>, 68096 \<mapsto> zero_slab],
       \<lparr>available_slabs_head = 34048, available_slabs_tail = 68096, fc = \<lparr>current_idx = 0, ptrs = []\<rparr>\<rparr>)
    = Inr (h', sm') \<and> sm_rep h' sm' [68096, 34048]"
  using slab_list_rotates [of "[34048 \<mapsto> zero_slab\<lparr>next_slab := 68096\<rparr>, 68096 \<mapsto> zero_slab]"
      "\<lparr>available_slabs_head = 34048, available_slabs_tail = 68096, fc = \<lparr>current_idx = 0, ptrs = []\<rparr>\<rparr>"
      "[34048]" "[68096]"]
  by (simp add: sm_rep_def)



end
