(* ===== verification/Object_Allocator.thy ===== *)
theory Object_Allocator
  imports Slab_Size_Classes Slab_Allocation Slab_Manager
begin

text \<open>
  The allocator of \<open>src/allocator/object_allocator.h\<close>: one region of memory with the managers
  of every size class and core at its start and the slabs behind them. The state is a record
  of the fields of \<open>object_allocator\<close> and \<open>memory_layout\<close> and of the slab memory.

  A thread may move to another core between two critical sections, so every operation takes
  the cores its sections run on as arguments; a section itself runs on one core, without a
  section of another thread in between (an interrupted one is restarted from its beginning).
\<close>

section \<open>Layout\<close>

definition NPROCS :: u32 where "NPROCS = 8"

text \<open>Two pointers, the padded index and 13 cached pointers: 128 bytes, aligned to 128.\<close>

definition sizeof_slab_manager :: u64 where
  "sizeof_slab_manager = roundup (8 + 8 + 8 + 8 * ucast cache_size) 128"

definition log_sizeof_slab_manager :: u32 where
  "log_sizeof_slab_manager = ulog2 sizeof_slab_manager"

text \<open>The managers, \<open>current_slab\<close> and \<open>raw_region_size\<close>, padded to the alignment of 128.\<close>

definition sizeof_memory_layout :: u64 where
  "sizeof_memory_layout = roundup (of_nat num_size_classes * ucast NPROCS * sizeof_slab_manager + 8 + 8) 128"

definition default_region_size :: u64 where
  "default_region_size = push_bit 31 1"

definition calculate_start :: "u64 \<Rightarrow> u64" where
  "calculate_start mem_region = roundup mem_region sizeof_obj_slab"

definition calculate_end :: "u64 \<Rightarrow> u64 \<Rightarrow> u64 result" where
  "calculate_end mem_region region_size =
     (let meta_data_offset = calculate_start mem_region - mem_region
      in if \<not> calculate_start mem_region \<ge> mem_region then Inl Assert_Failed
         else if calculate_start mem_region mod sizeof_obj_slab \<noteq> 0 then Inl Assert_Failed
         else if rounddown (region_size - meta_data_offset) sizeof_obj_slab mod sizeof_obj_slab \<noteq> 0
         then Inl Assert_Failed
         else Inr (calculate_start mem_region + rounddown (region_size - meta_data_offset) sizeof_obj_slab))"

record object_allocator =
  m_addr :: u64
  end_addr :: u64
  slab_managers :: "slab_manager list list"
  current_slab :: u64
  raw_region_size :: u64
  slabs :: slab_mem

text \<open>Fresh anonymous memory: managers of zero bytes, and a zero slab at each aligned address.\<close>

definition zero_manager :: slab_manager where
  "zero_manager = \<lparr>available_slabs_head = 0, available_slabs_tail = 0,
     fc = \<lparr>current_idx = 0, ptrs = replicate (unat cache_size) 0\<rparr>\<rparr>"

definition zero_managers :: "slab_manager list list" where
  "zero_managers = replicate num_size_classes (replicate (unat NPROCS) zero_manager)"

definition zero_slabs :: "u64 \<Rightarrow> u64 \<Rightarrow> slab_mem" where
  "zero_slabs lo len a =
     (if a mod sizeof_obj_slab = 0 \<and> lo \<le> a \<and> unat a + unat sizeof_obj_slab \<le> unat lo + unat len
      then Some zero_slab else None)"

section \<open>Construction\<close>

text \<open>
  \<open>new (m) memory_layout_t(m, region_size)\<close>: the managers have no constructor and keep the
  contents of the memory.
\<close>

definition memory_layout_ctor :: "u64 \<Rightarrow> object_allocator \<Rightarrow> object_allocator result" where
  "memory_layout_ctor region_size st =
     bind_res (slab_allocator_ctor (calculate_start (m_addr st + sizeof_memory_layout)))
       (\<lambda>cur. Inr (st\<lparr>current_slab := cur, raw_region_size := region_size\<rparr>))"

definition object_allocator_ctor ::
  "u64 \<Rightarrow> u64 \<Rightarrow> slab_manager list list \<Rightarrow> slab_mem \<Rightarrow> object_allocator result" where
  "object_allocator_ctor mem region_size sms h =
     bind_res (calculate_end (mem + sizeof_memory_layout) (region_size - sizeof_memory_layout)) (\<lambda>e.
     bind_res (memory_layout_ctor region_size
         \<lparr>m_addr = mem, end_addr = e, slab_managers = sms, current_slab = 0, raw_region_size = 0, slabs = h\<rparr>) (\<lambda>st.
     if e mod sizeof_obj_slab = 0 then Inr st else Inl Assert_Failed))"

text \<open>
  The constructors that map the region. \<open>mmap\<close> is the system call, with the length and
  whether swap space is to be reserved; it fails or returns the address of zeroed memory.
\<close>

definition safe_mmap :: "(u64 \<Rightarrow> bool \<Rightarrow> u64 option) \<Rightarrow> u64 \<Rightarrow> bool \<Rightarrow> u64 result" where
  "safe_mmap mmap len reserve = (case mmap len reserve of None \<Rightarrow> Inl Assert_Failed | Some p \<Rightarrow> Inr p)"

definition object_allocator_map :: "(u64 \<Rightarrow> bool \<Rightarrow> u64 option) \<Rightarrow> u64 \<Rightarrow> bool \<Rightarrow> object_allocator result" where
  "object_allocator_map mmap region_size reserve =
     bind_res (safe_mmap mmap region_size reserve) (\<lambda>mem.
       object_allocator_ctor mem region_size zero_managers
         (zero_slabs (mem + sizeof_memory_layout) (region_size - sizeof_memory_layout)))"

definition object_allocator_default :: "(u64 \<Rightarrow> bool \<Rightarrow> u64 option) \<Rightarrow> object_allocator result" where
  "object_allocator_default mmap = object_allocator_map mmap default_region_size False"

definition object_allocator_sized :: "(u64 \<Rightarrow> bool \<Rightarrow> u64 option) \<Rightarrow> u64 \<Rightarrow> object_allocator result" where
  "object_allocator_sized mmap region_size = object_allocator_map mmap region_size True"

definition get_slab_region_size :: "object_allocator \<Rightarrow> u64" where
  "get_slab_region_size st = end_addr st - calculate_start (m_addr st + sizeof_memory_layout)"

definition reset :: "object_allocator \<Rightarrow> object_allocator result" where
  "reset st =
     (let region_size = raw_region_size st
      in memory_layout_ctor region_size
           (st\<lparr>slab_managers := zero_managers, current_slab := 0, raw_region_size := 0,
               slabs := zero_slabs (m_addr st + sizeof_memory_layout) (region_size - sizeof_memory_layout)\<rparr>))"

definition max_objects :: "object_allocator \<Rightarrow> u64" where
  "max_objects st =
     (let slabs_start = m_addr st + sizeof_memory_layout;
          nslabs = slabs_start div sizeof_obj_slab
      in nslabs * capacity)"

definition in_range :: "u64 \<Rightarrow> object_allocator \<Rightarrow> bool" where
  "in_range p st \<longleftrightarrow> p > m_addr st \<and> p < end_addr st"

section \<open>Access to the managers and the slabs\<close>

definition get_sm :: "u32 \<Rightarrow> u32 \<Rightarrow> object_allocator \<Rightarrow> slab_manager result" where
  "get_sm size_idx cpu st =
     (if unat size_idx < num_size_classes \<and> cpu < NPROCS
      then Inr (slab_managers st ! unat size_idx ! unat cpu) else Inl Out_Of_Bounds)"

definition put_sm :: "u32 \<Rightarrow> u32 \<Rightarrow> slab_manager \<Rightarrow> object_allocator \<Rightarrow> object_allocator" where
  "put_sm size_idx cpu sm st =
     st\<lparr>slab_managers := (slab_managers st)[unat size_idx := (slab_managers st ! unat size_idx)[unat cpu := sm]]\<rparr>"

definition get_slab :: "u64 \<Rightarrow> object_allocator \<Rightarrow> obj_slab result" where
  "get_slab a st = (case slabs st a of None \<Rightarrow> Inl Out_Of_Bounds | Some s \<Rightarrow> Inr s)"

definition slab_op ::
  "u64 \<Rightarrow> (obj_slab \<Rightarrow> ('a \<times> obj_slab) result) \<Rightarrow> object_allocator \<Rightarrow> ('a \<times> object_allocator) result" where
  "slab_op a f st = bind_res (get_slab a st) (\<lambda>s. bind_res (f s)
     (\<lambda>(r, s'). Inr (r, st\<lparr>slabs := (slabs st)(a \<mapsto> s')\<rparr>)))"

section \<open>Allocation\<close>

definition alloc_send_slab :: "u32 \<Rightarrow> u64 \<Rightarrow> u32 \<Rightarrow> object_allocator \<Rightarrow> object_allocator result" where
  "alloc_send_slab cpu slab size_idx st =
     bind_res (get_sm size_idx cpu st) (\<lambda>sm.
     bind_res (send_slab slab (slabs st) sm) (\<lambda>(h', sm').
     Inr (put_sm size_idx cpu sm' (st\<lparr>slabs := h'\<rparr>))))"

definition try_pop :: "u32 \<Rightarrow> u32 \<Rightarrow> object_allocator \<Rightarrow> (u64 \<times> object_allocator) result" where
  "try_pop cpu size_idx st =
     bind_res (get_sm size_idx cpu st) (\<lambda>sm.
     bind_res (fc_pop (fc sm)) (\<lambda>(ret, f). Inr (ret, put_sm size_idx cpu (sm\<lparr>fc := f\<rparr>) st)))"

definition try_push :: "u32 \<Rightarrow> u64 \<Rightarrow> u32 \<Rightarrow> object_allocator \<Rightarrow> (u64 \<times> object_allocator) result" where
  "try_push cpu ptr size_idx st =
     bind_res (get_sm size_idx cpu st) (\<lambda>sm.
     bind_res (fc_push ptr (fc sm)) (\<lambda>(ret, f). Inr (ret, put_sm size_idx cpu (sm\<lparr>fc := f\<rparr>) st)))"

text \<open>
  The cores one round of the loop of \<open>_allocate_inner\<close> runs on: where \<open>get_start_cpu\<close> is
  read, and where the sections of \<open>obj_slab::_allocate\<close>, \<open>_cas_set_next_available_slab\<close>
  and \<open>_send_slab\<close> run.
\<close>

record cpu_obs =
  ob_start :: u32
  ob_alloc :: u32
  ob_cas :: u32
  ob_send :: u32

text \<open>The branch of an empty list: \<open>Some p\<close> when the function returns, \<open>None\<close> for another round.\<close>

definition allocate_new_slab :: "cpu_obs \<Rightarrow> u32 \<Rightarrow> object_allocator \<Rightarrow> (u64 option \<times> object_allocator) result" where
  "allocate_new_slab ob size_idx st =
     (if out_of_memory (end_addr st) (current_slab st) \<noteq> 0 then Inr (Some 0, st)
      else let (new_slab, cur) = slab_new (current_slab st); st1 = st\<lparr>current_slab := cur\<rparr>
           in if new_slab mod sizeof_obj_slab \<noteq> 0 then Inl Assert_Failed
              else if new_slab \<ge> end_addr st1 then Inr (Some 0, st1)
              else bind_res (idx_to_size size_idx) (\<lambda>sz.
                   bind_res (slab_op new_slab (\<lambda>s. Inr ((), obj_slab_ctor sz s)) st1) (\<lambda>(_, st2).
                   if new_slab = 0 then Inl Assert_Failed
                   else bind_res (get_slab new_slab st2) (\<lambda>s.
                   if next_slab s \<noteq> 0 then Inl Assert_Failed
                   else bind_res (alloc_send_slab (ob_send ob) new_slab size_idx st2) (\<lambda>st3.
                   Inr (None, st3))))))"

text \<open>The branch of a full slab at the head of the list.\<close>

definition retire_full_slab ::
  "cpu_obs \<Rightarrow> u32 \<Rightarrow> u64 \<Rightarrow> object_allocator \<Rightarrow> (u64 option \<times> object_allocator) result" where
  "retire_full_slab ob size_idx head st =
     bind_res (get_sm size_idx (ob_start ob) st) (\<lambda>sm.
     bind_res (cas_set_next_available_slab (ob_start ob) (ob_cas ob) head (slabs st) sm) (\<lambda>(r, sm').
     let st1 = put_sm size_idx (ob_start ob) sm' st
     in if r \<noteq> 0 then Inr (None, st1)
        else if available_slabs_head sm' = head then Inl Assert_Failed
        else bind_res (get_slab head st1) (\<lambda>s.
             if slab_state s \<noteq> OWNED then Inl Assert_Failed
             else bind_res (slab_op head try_release st1) (\<lambda>(rel, st2).
             if rel \<noteq> 0 then Inr (None, st2)
             else bind_res (set_next head 0 (slabs st2)) (\<lambda>h.
                  bind_res (alloc_send_slab (ob_send ob) head size_idx (st2\<lparr>slabs := h\<rparr>)) (\<lambda>st3.
                  bind_res (get_slab head st3) (\<lambda>s3.
                  if slab_state s3 \<noteq> OWNED then Inl Assert_Failed else Inr (None, st3))))))))"

definition allocate_round :: "cpu_obs \<Rightarrow> u32 \<Rightarrow> object_allocator \<Rightarrow> (u64 option \<times> object_allocator) result" where
  "allocate_round ob size_idx st =
     (if ob_start ob \<ge> NPROCS then Inl Unreachable
      else bind_res (get_sm size_idx (ob_start ob) st) (\<lambda>sm.
      let head = available_slabs_head sm
      in if head mod sizeof_obj_slab \<noteq> 0 \<or> available_slabs_tail sm mod sizeof_obj_slab \<noteq> 0
         then Inl Assert_Failed
         else if head = 0 then allocate_new_slab ob size_idx st
         else bind_res (slab_op head (slab_allocate head (ob_start ob) (ob_alloc ob)) st) (\<lambda>(ret, st1).
              if ret < SUCCESS_BOUND
              then bind_res (idx_to_size size_idx) (\<lambda>sz.
                   Inr (Some (head + payload_offset + ucast sz * ret), st1))
              else if ret \<noteq> MIGRATED then retire_full_slab ob size_idx head st1
              else Inr (None, st1))))"

text \<open>
  The loop \<open>while (1)\<close>, over the rounds the scheduler grants: \<open>None\<close> when they are used up
  before the function returns.
\<close>

fun allocate_inner :: "cpu_obs list \<Rightarrow> u32 \<Rightarrow> object_allocator \<Rightarrow> (u64 option \<times> object_allocator) result" where
  "allocate_inner [] size_idx st = Inr (None, st)"
| "allocate_inner (ob # obs) size_idx st =
     bind_res (allocate_round ob size_idx st) (\<lambda>(r, st').
       case r of Some p \<Rightarrow> Inr (Some p, st') | None \<Rightarrow> allocate_inner obs size_idx st')"

definition allocate :: "u32 \<Rightarrow> cpu_obs list \<Rightarrow> u32 \<Rightarrow> object_allocator \<Rightarrow> (u64 option \<times> object_allocator) result" where
  "allocate pop_cpu obs sz st =
     (let size_idx = size_to_idx sz
      in bind_res (try_pop pop_cpu size_idx st) (\<lambda>(ptr, st1).
         if ptr > push_bit (unat log_sizeof_slab_manager) 1 then Inr (Some ptr, st1)
         else allocate_inner obs size_idx st1))"

section \<open>Freeing\<close>

definition addr_to_slab :: "u64 \<Rightarrow> u64" where
  "addr_to_slab addr = sizeof_obj_slab * (addr div sizeof_obj_slab)"

definition free :: "u32 \<Rightarrow> u32 \<Rightarrow> u64 \<Rightarrow> object_allocator \<Rightarrow> object_allocator result" where
  "free push_cpu send_cpu addr st =
     (let slab = addr_to_slab addr
      in bind_res (get_slab slab st) (\<lambda>s.
         let size_idx = size_to_idx (block_size s)
         in bind_res (try_push push_cpu addr size_idx st) (\<lambda>(full, st1).
            if full = 0 then Inr st1
            else if slab mod sizeof_obj_slab \<noteq> 0 then Inl Assert_Failed
            else bind_res (slab_op slab (slab_free (addr - slab)) st1) (\<lambda>(r, st2).
            if r = 0 then Inr st2
            else bind_res (slab_op slab (\<lambda>s. Inr (set_owned s)) st2) (\<lambda>(won, st3).
            if won = 0 then Inr st3
            else bind_res (get_slab slab st3) (\<lambda>s3.
            if slab_state s3 \<noteq> OWNED then Inl Assert_Failed
            else bind_res (set_next slab 0 (slabs st3)) (\<lambda>h.
                 alloc_send_slab send_cpu slab size_idx (st3\<lparr>slabs := h\<rparr>))))))))"

definition valid_addr :: "u64 \<Rightarrow> object_allocator \<Rightarrow> unit result" where
  "valid_addr addr st =
     (if addr = 0 then Inr ()
      else if addr mod sizeof_obj_slab \<ge> payload_offset
        \<and> addr > calculate_start (m_addr st + sizeof_memory_layout) \<and> addr < end_addr st
      then Inr () else Inl Assert_Failed)"

section \<open>The constants of the layout\<close>

lemma layout_consts:
  "NPROCS = 8" "sizeof_slab_manager = 128" "log_sizeof_slab_manager = 7" "sizeof_memory_layout = 11392"
  unfolding NPROCS_def log_sizeof_slab_manager_def sizeof_memory_layout_def sizeof_slab_manager_def
    cache_size_eq num_size_classes_def by code_simp+

end
