(* ===== verification/Allocator_Invariant.thy ===== *)
theory Allocator_Invariant
  imports Object_Allocator
begin

text \<open>
  The invariant of the allocator. Three ghost components describe who holds what: \<open>Q\<close> gives
  the list of slabs of every size class and core, \<open>C\<close> the pointers in every free cache, and
  \<open>L\<close> the set of blocks the program holds. A fourth, \<open>H\<close>, is the slab a thread has taken out
  of a list and not yet sent or given up. The invariant says that the blocks of each slab
  are split between its available set, its freed set, the caches and the program, and that
  the slabs in the state \<open>OWNED\<close> are those in exactly one list or held.
\<close>

section \<open>Families of disjoint lists\<close>

definition fam_ok :: "(nat \<times> nat \<Rightarrow> u64 list) \<Rightarrow> bool" where
  "fam_ok F \<longleftrightarrow> (\<forall>x. distinct (F x)) \<and> (\<forall>x y. x \<noteq> y \<longrightarrow> set (F x) \<inter> set (F y) = {})
     \<and> (\<forall>k c. F (k, c) \<noteq> [] \<longrightarrow> k < 11 \<and> c < 8)"

definition members :: "(nat \<times> nat \<Rightarrow> u64 list) \<Rightarrow> u64 set" where
  "members F = (\<Union>x. set (F x))"

lemma membersI: "p \<in> set (F x) \<Longrightarrow> p \<in> members F"
  unfolding members_def by (rule UN_I [OF UNIV_I])

lemma members_split: "members F = set (F x) \<union> (\<Union>y \<in> - {x}. set (F y))"
proof -
  have "insert x (- {x}) = UNIV" by auto
  then have "members F = (\<Union>y \<in> insert x (- {x}). set (F y))" unfolding members_def by simp
  then show ?thesis by (simp only: UN_insert)
qed

lemma members_upd: "members (F(x := ys)) = set ys \<union> (\<Union>y \<in> - {x}. set (F y))"
proof -
  have "(\<Union>y \<in> - {x}. set ((F(x := ys)) y)) = (\<Union>y \<in> - {x}. set (F y))" by simp
  then show ?thesis using members_split [of "F(x := ys)" x] by simp
qed

lemma fam_grow:
  assumes "fam_ok F" and "p \<notin> members F" and "x = (k, c)" "k < 11" "c < 8"
    and "set ys = insert p (set (F x))" and "distinct ys"
  shows "fam_ok (F(x := ys))" and "members (F(x := ys)) = insert p (members F)"
proof -
  have "p \<notin> set (F y)" for y using assms(2) membersI by fast
  then show "fam_ok (F(x := ys))"
    using assms unfolding fam_ok_def by (auto simp: fun_upd_def)
  show "members (F(x := ys)) = insert p (members F)"
    using assms(6) members_split [of F x] by (auto simp: members_upd)
qed

lemma fam_cons:
  assumes "fam_ok F" and "p \<notin> members F" and "k < 11" and "c < 8"
  shows "fam_ok (F((k, c) := p # F (k, c)))" "members (F((k, c) := p # F (k, c))) = insert p (members F)"
proof -
  have "distinct (p # F (k, c))" using assms(1,2) membersI [of p F] by (auto simp: fam_ok_def)
  from fam_grow [OF assms(1,2) refl assms(3,4) _ this]
  show "fam_ok (F((k, c) := p # F (k, c)))" "members (F((k, c) := p # F (k, c))) = insert p (members F)"
    by simp_all
qed

lemma fam_snoc:
  assumes "fam_ok F" and "p \<notin> members F" and "k < 11" and "c < 8"
  shows "fam_ok (F((k, c) := F (k, c) @ [p]))" "members (F((k, c) := F (k, c) @ [p])) = insert p (members F)"
proof -
  have "distinct (F (k, c) @ [p])" using assms(1,2) membersI [of p F] by (auto simp: fam_ok_def)
  from fam_grow [OF assms(1,2) refl assms(3,4) _ this]
  show "fam_ok (F((k, c) := F (k, c) @ [p]))" "members (F((k, c) := F (k, c) @ [p])) = insert p (members F)"
    by simp_all
qed

lemma fam_tl:
  assumes "fam_ok F" and "F x = p # ps"
  shows "fam_ok (F(x := ps))" "members (F(x := ps)) = members F - {p}"
proof -
  have d: "distinct (p # ps)" using assms by (metis fam_ok_def)
  have o: "set (F y) \<inter> insert p (set ps) = {}" if "y \<noteq> x" for y
    using assms that unfolding fam_ok_def by (metis list.set(2))
  have r: "\<forall>k c. F (k, c) \<noteq> [] \<longrightarrow> k < 11 \<and> c < 8" using assms(1) by (simp add: fam_ok_def)
  have v: "x = (k, c) \<Longrightarrow> k < 11 \<and> c < 8" for k c using r assms(2) by (metis list.distinct(1))
  show "fam_ok (F(x := ps))"
    using assms(1) d o r v unfolding fam_ok_def by (auto simp: fun_upd_def)
  have "(\<Union>y \<in> - {x}. set (F y)) \<inter> insert p (set ps) = {}" using o by blast
  then show "members (F(x := ps)) = members F - {p}"
    using d assms(2) members_split [of F x] by (auto simp: members_upd)
qed

section \<open>Geometry of the region\<close>

definition aligned :: "u64 \<Rightarrow> bool" where
  "aligned a \<longleftrightarrow> a mod sizeof_obj_slab = 0"

lemma aligned_iff: "aligned a \<longleftrightarrow> 34048 dvd unat a"
proof -
  have "aligned a \<longleftrightarrow> unat (a mod sizeof_obj_slab) = 0" by (simp only: aligned_def unsigned_eq_0_iff)
  then show ?thesis by (simp add: unat_mod sizeof_obj_slab_eq(2) dvd_eq_mod_eq_0)
qed

lemma dvd_less_step: "d dvd a \<Longrightarrow> d dvd b \<Longrightarrow> a < b \<Longrightarrow> a + d \<le> (b :: nat)"
  by (metis add_le_cancel_left dvd_diff_nat dvd_imp_le le_add_diff_inverse less_imp_le zero_less_diff)

lemma aligned_less_step: "aligned a \<Longrightarrow> aligned b \<Longrightarrow> a < b \<Longrightarrow> unat a + 34048 \<le> unat b"
  by (simp add: aligned_iff word_less_nat_alt dvd_less_step)

definition region_start :: "object_allocator \<Rightarrow> u64" where
  "region_start st = calculate_start (m_addr st + sizeof_memory_layout)"

definition geom :: "object_allocator \<Rightarrow> bool" where
  "geom st \<longleftrightarrow> aligned (region_start st) \<and> aligned (current_slab st) \<and> aligned (end_addr st)
     \<and> region_start st \<le> current_slab st \<and> current_slab st \<le> end_addr st \<and> m_addr st < region_start st"

definition constructed :: "object_allocator \<Rightarrow> u64 \<Rightarrow> bool" where
  "constructed st a \<longleftrightarrow> aligned a \<and> region_start st \<le> a \<and> a < current_slab st"

lemma constructed_room:
  assumes "geom st" and "constructed st a"
  shows "unat a + 34048 \<le> unat (current_slab st)" "unat (current_slab st) \<le> unat (end_addr st)" "a \<noteq> 0"
  using assms aligned_less_step [of a "current_slab st"]
  by (auto simp: geom_def constructed_def word_le_nat_alt word_less_nat_alt)

definition block_addr :: "u64 \<Rightarrow> u32 \<Rightarrow> nat \<Rightarrow> u64" where
  "block_addr a bs i = a + payload_offset + ucast bs * of_nat i"

text \<open>A slab's address: aligned, with the whole slab below the end of the address space.\<close>

definition slab_room :: "u64 \<Rightarrow> bool" where
  "slab_room a \<longleftrightarrow> aligned a \<and> a \<noteq> 0 \<and> unat a + 34048 < 2 ^ 64"

lemma constructed_slab_room: "geom st \<Longrightarrow> constructed st a \<Longrightarrow> slab_room a"
  using constructed_room [of st a] unat_u64_bound [of "end_addr st"]
  by (auto simp: slab_room_def constructed_def)

definition class_size :: "u32 \<Rightarrow> bool" where
  "class_size bs \<longleftrightarrow> bs \<in> set slab_sizes"

lemma class_size_bounds: "class_size bs \<Longrightarrow> 8 \<le> unat bs \<and> unat bs \<le> 144"
  unfolding class_size_def in_set_conv_nth using slab_size_bounds by auto

lemma unat_block_addr:
  assumes "slab_room a" and "8 \<le> unat bs" and "i < nblocks_of bs" and "d < unat bs"
  shows "unat (block_addr a bs i + of_nat d) = unat a + (1280 + (unat bs * i + d))"
    and "unat (block_addr a bs i) = unat a + (1280 + unat bs * i)"
    and "1280 + (unat bs * i + d) < 34048"
proof -
  have fits: "unat bs * i + d < 32768" using assms(3,4) by (rule block_fits)
  then show b: "1280 + (unat bs * i + d) < 34048" by simp
  have i4: "i < 4096" using assms(3) nblocks_le [OF assms(2)] by linarith
  have room: "unat a + 34048 < 18446744073709551616" using assms(1) by (simp add: slab_room_def)
  have u: "unat (of_nat i :: u64) = i" "unat (of_nat d :: u64) = d"
    using i4 fits by (simp_all add: unat_of_nat)
  have p: "unat (ucast bs * of_nat i :: u64) = unat bs * i"
    using fits u by (simp add: unat_word_ariths(2))
  have q: "unat (a + payload_offset) = unat a + 1280"
    using room by (simp add: unat_word_ariths(1) slab_consts)
  show e: "unat (block_addr a bs i) = unat a + (1280 + unat bs * i)"
    using p q fits room by (simp add: block_addr_def unat_word_ariths(1))
  show "unat (block_addr a bs i + of_nat d) = unat a + (1280 + (unat bs * i + d))"
    using e u fits room by (simp add: unat_word_ariths(1))
qed

lemma addr_to_slab_offset:
  assumes "slab_room a" and "unat p = unat a + n" and "n < 34048"
  shows "addr_to_slab p = a"
proof -
  obtain q where q: "unat a = 34048 * q" using assms(1) by (auto simp: slab_room_def aligned_iff dvd_def)
  have "unat (p div sizeof_obj_slab) = q"
    using q assms(2,3) by (simp add: unat_div sizeof_obj_slab_eq)
  moreover have "34048 * q < 18446744073709551616" using q unat_u64_bound [of a] by simp
  ultimately have "unat (addr_to_slab p) = unat a"
    using q by (simp add: addr_to_slab_def unat_word_ariths(2) sizeof_obj_slab_eq(2))
  then show ?thesis by (simp only: word_unat_eq_iff)
qed

lemma addr_to_slab_block:
  assumes "slab_room a" and "8 \<le> unat bs" and "i < nblocks_of bs"
  shows "addr_to_slab (block_addr a bs i) = a"
proof (rule addr_to_slab_offset [OF assms(1)])
  have d: "0 < unat bs" using assms(2) by linarith
  show "unat (block_addr a bs i) = unat a + (1280 + unat bs * i)" by (rule unat_block_addr(2) [OF assms d])
  show "1280 + unat bs * i < 34048" using unat_block_addr(3) [OF assms d] by simp
qed

lemma block_addr_inj:
  assumes "slab_room a" and "8 \<le> unat bs" and "i < nblocks_of bs" and "j < nblocks_of bs"
    and "block_addr a bs i = block_addr a bs j"
  shows "i = j"
proof -
  have d: "0 < unat bs" using assms(2) by linarith
  have "unat bs * i = unat bs * j"
    using unat_block_addr(2) [OF assms(1-3) d] unat_block_addr(2) [OF assms(1,2,4) d]
    unfolding assms(5) by linarith
  then show ?thesis using d by (simp only: mult_cancel1) simp
qed

section \<open>The invariant\<close>

definition slab_ok :: "u64 set \<Rightarrow> u64 \<Rightarrow> obj_slab \<Rightarrow> bool" where
  "slab_ok U a s \<longleftrightarrow> slab_wf s \<and> class_size (block_size s) \<and> avail s \<inter> freed s = {}
     \<and> avail s \<union> freed s = {i. i < nblocks_of (block_size s) \<and> block_addr a (block_size s) i \<notin> U}
     \<and> (slab_state s = UNOWNED \<longrightarrow> avail s = {} \<and> freed s = {})"

definition class_of :: "object_allocator \<Rightarrow> u64 \<Rightarrow> nat \<Rightarrow> bool" where
  "class_of st a k \<longleftrightarrow> (\<exists>s. slabs st a = Some s \<and> block_size s = slab_sizes ! k)"

definition is_block :: "object_allocator \<Rightarrow> u64 \<Rightarrow> bool" where
  "is_block st p \<longleftrightarrow> (\<exists>a s i. constructed st a \<and> slabs st a = Some s \<and> i < nblocks_of (block_size s)
     \<and> p = block_addr a (block_size s) i)"

definition sm_ok :: "slab_mem \<Rightarrow> slab_manager \<Rightarrow> u64 list \<Rightarrow> u64 list \<Rightarrow> bool" where
  "sm_ok h sm q cs \<longleftrightarrow> sm_rep h sm q \<and> fc_rep (fc sm) cs \<and> aligned (available_slabs_tail sm)"

definition sms_ok :: "object_allocator \<Rightarrow> (nat \<times> nat \<Rightarrow> u64 list) \<Rightarrow> (nat \<times> nat \<Rightarrow> u64 list) \<Rightarrow> bool" where
  "sms_ok st Q C \<longleftrightarrow> length (slab_managers st) = 11 \<and> (\<forall>k < 11. length (slab_managers st ! k) = 8)
     \<and> (\<forall>k < 11. \<forall>c < 8. sm_ok (slabs st) (slab_managers st ! k ! c) (Q (k, c)) (C (k, c)))"

definition slabs_ok :: "object_allocator \<Rightarrow> (nat \<times> nat \<Rightarrow> u64 list) \<Rightarrow> u64 set \<Rightarrow> u64 set \<Rightarrow> bool" where
  "slabs_ok st Q H U \<longleftrightarrow>
     (\<forall>a. constructed st a \<longrightarrow>
        (\<exists>s. slabs st a = Some s \<and> slab_ok U a s \<and> (a \<in> members Q \<union> H \<longleftrightarrow> slab_state s = OWNED)))
     \<and> (\<forall>a. aligned a \<and> current_slab st \<le> a \<and> a < end_addr st \<longrightarrow> slabs st a = Some zero_slab)"

definition queue_ok :: "object_allocator \<Rightarrow> (nat \<times> nat \<Rightarrow> u64 list) \<Rightarrow> u64 set \<Rightarrow> bool" where
  "queue_ok st Q H \<longleftrightarrow> fam_ok Q \<and> H \<inter> members Q = {} \<and> (\<forall>a \<in> members Q \<union> H. constructed st a)
     \<and> (\<forall>k c. \<forall>a \<in> set (Q (k, c)). class_of st a k)"

definition blocks_ok :: "object_allocator \<Rightarrow> (nat \<times> nat \<Rightarrow> u64 list) \<Rightarrow> u64 set \<Rightarrow> bool" where
  "blocks_ok st C L \<longleftrightarrow> fam_ok C \<and> members C \<inter> L = {} \<and> (\<forall>p \<in> members C \<union> L. is_block st p)
     \<and> (\<forall>k c. \<forall>p \<in> set (C (k, c)). class_of st (addr_to_slab p) k)"

definition core :: "object_allocator \<Rightarrow> (nat \<times> nat \<Rightarrow> u64 list) \<Rightarrow> (nat \<times> nat \<Rightarrow> u64 list)
    \<Rightarrow> u64 set \<Rightarrow> u64 set \<Rightarrow> bool" where
  "core st Q C L H \<longleftrightarrow> geom st \<and> slabs_ok st Q H (members C \<union> L) \<and> queue_ok st Q H \<and> blocks_ok st C L"

definition alloc_inv :: "object_allocator \<Rightarrow> (nat \<times> nat \<Rightarrow> u64 list) \<Rightarrow> (nat \<times> nat \<Rightarrow> u64 list)
    \<Rightarrow> u64 set \<Rightarrow> u64 set \<Rightarrow> bool" where
  "alloc_inv st Q C L H \<longleftrightarrow> core st Q C L H \<and> sms_ok st Q C"

lemma region_frame [simp]:
  "region_start (st\<lparr>slabs := h\<rparr>) = region_start st" "region_start (st\<lparr>current_slab := x\<rparr>) = region_start st"
  "region_start (put_sm i c sm st) = region_start st" "geom (st\<lparr>slabs := h\<rparr>) = geom st"
  "geom (put_sm i c sm st) = geom st" "constructed (st\<lparr>slabs := h\<rparr>) = constructed st"
  "constructed (put_sm i c sm st) = constructed st" "slabs (put_sm i c sm st) = slabs st"
  "current_slab (put_sm i c sm st) = current_slab st" "end_addr (put_sm i c sm st) = end_addr st"
  "m_addr (put_sm i c sm st) = m_addr st" "raw_region_size (put_sm i c sm st) = raw_region_size st"
  by (simp_all add: region_start_def geom_def constructed_def put_sm_def fun_eq_iff)

lemma put_sm_frame [simp]:
  "class_of (put_sm i c sm st) = class_of st" "is_block (put_sm i c sm st) = is_block st"
  "slabs_ok (put_sm i c sm st) = slabs_ok st" "queue_ok (put_sm i c sm st) = queue_ok st"
  "blocks_ok (put_sm i c sm st) = blocks_ok st" "core (put_sm i c sm st) = core st"
  by (simp_all add: class_of_def is_block_def slabs_ok_def queue_ok_def blocks_ok_def core_def fun_eq_iff)

lemma invD:
  assumes "alloc_inv st Q C L H"
  shows "geom st" "sms_ok st Q C" "slabs_ok st Q H (members C \<union> L)" "queue_ok st Q H" "blocks_ok st C L"
    "fam_ok Q" "fam_ok C" "members C \<inter> L = {}"
  using assms by (simp_all add: alloc_inv_def core_def queue_ok_def blocks_ok_def)

lemma inv_core: "alloc_inv st Q C L H \<Longrightarrow> core st Q C L H"
  by (simp add: alloc_inv_def)

lemma cache_class: "alloc_inv st Q C L H \<Longrightarrow> p \<in> set (C (k, c)) \<Longrightarrow> class_of st (addr_to_slab p) k"
  unfolding alloc_inv_def core_def blocks_ok_def by blast

lemma queue_class: "alloc_inv st Q C L H \<Longrightarrow> a \<in> set (Q (k, c)) \<Longrightarrow> class_of st a k"
  unfolding alloc_inv_def core_def queue_ok_def by blast

lemma queue_constructed: "alloc_inv st Q C L H \<Longrightarrow> a \<in> set (Q x) \<Longrightarrow> constructed st a"
  unfolding alloc_inv_def core_def queue_ok_def using membersI [of a Q x] by blast

lemma core_slab:
  assumes "core st Q C L H" and "constructed st a"
  obtains s where "slabs st a = Some s" "slab_ok (members C \<union> L) a s" "a \<in> members Q \<union> H \<longleftrightarrow> slab_state s = OWNED"
  using assms unfolding core_def slabs_ok_def by blast

lemma inv_slab:
  assumes "alloc_inv st Q C L H" and "constructed st a"
  obtains s where "slabs st a = Some s" "slab_ok (members C \<union> L) a s" "a \<in> members Q \<union> H \<longleftrightarrow> slab_state s = OWNED"
  using core_slab [OF inv_core [OF assms(1)] assms(2)] by blast

lemma is_block_slab:
  assumes "alloc_inv st Q C L H" and "is_block st p"
  obtains s i where "constructed st (addr_to_slab p)" "slabs st (addr_to_slab p) = Some s"
    "i < nblocks_of (block_size s)" "p = block_addr (addr_to_slab p) (block_size s) i" "class_size (block_size s)"
proof -
  obtain a s i where b: "constructed st a" "slabs st a = Some s" "i < nblocks_of (block_size s)"
      "p = block_addr a (block_size s) i"
    using assms(2) unfolding is_block_def by blast
  have c: "class_size (block_size s)"
    using inv_slab [OF assms(1) b(1)] b(2) by (auto simp: slab_ok_def)
  have "addr_to_slab p = a"
    using addr_to_slab_block [OF constructed_slab_room [OF invD(1) [OF assms(1)] b(1)] _ b(3)]
      class_size_bounds [OF c] b(4) by simp
  then show thesis using that b c by blast
qed

section \<open>Changes of one slab\<close>

lemma slab_ok_frame:
  assumes "\<forall>p. addr_to_slab p = a \<longrightarrow> (p \<in> U' \<longleftrightarrow> p \<in> U)" and "slab_room a" and "slab_ok U a s"
  shows "slab_ok U' a s"
proof -
  have "8 \<le> unat (block_size s)" using assms(3) class_size_bounds by (auto simp: slab_ok_def)
  then have "block_addr a (block_size s) i \<in> U' \<longleftrightarrow> block_addr a (block_size s) i \<in> U"
    if "i < nblocks_of (block_size s)" for i
    using assms(1) addr_to_slab_block [OF assms(2) _ that] by blast
  then have "{i. i < nblocks_of (block_size s) \<and> block_addr a (block_size s) i \<notin> U'}
      = {i. i < nblocks_of (block_size s) \<and> block_addr a (block_size s) i \<notin> U}" by blast
  then show ?thesis using assms(3) by (simp add: slab_ok_def)
qed

lemma sms_ok_heap:
  assumes "sms_ok st Q C" and "\<forall>b \<in> members Q. same_next (slabs st) h b"
  shows "sms_ok (st\<lparr>slabs := h\<rparr>) Q C"
proof -
  have "sm_ok h sm (Q x) cs" if "sm_ok (slabs st) sm (Q x) cs" for sm x cs
    using that assms(2) sm_rep_cong [of "Q x" "slabs st" h sm] membersI by (fastforce simp: sm_ok_def)
  then show ?thesis using assms(1) by (simp add: sms_ok_def)
qed

lemma class_of_upd:
  assumes "slabs st a = Some s" and "block_size s' = block_size s"
  shows "class_of (st\<lparr>slabs := (slabs st)(a \<mapsto> s')\<rparr>) = class_of st"
    and "is_block (st\<lparr>slabs := (slabs st)(a \<mapsto> s')\<rparr>) = is_block st"
proof -
  show "class_of (st\<lparr>slabs := (slabs st)(a \<mapsto> s')\<rparr>) = class_of st"
    using assms by (auto simp: class_of_def fun_eq_iff)
  have "(\<exists>t. ((slabs st)(a \<mapsto> s')) b = Some t \<and> P (block_size t)) \<longleftrightarrow> (\<exists>t. slabs st b = Some t \<and> P (block_size t))"
    for b P using assms by auto
  from this [of _ "\<lambda>bs. \<exists>i. i < nblocks_of bs \<and> p = block_addr b bs i" for p b]
  show "is_block (st\<lparr>slabs := (slabs st)(a \<mapsto> s')\<rparr>) = is_block st"
    by (simp add: is_block_def fun_eq_iff)
qed

lemma core_update_slab:
  assumes core: "core st Q C L H" and a: "constructed st a" "slabs st a = Some s"
    and s': "block_size s' = block_size s"
      "slab_ok (members C \<union> L') a s'" "a \<in> members Q \<union> H' \<longleftrightarrow> slab_state s' = OWNED"
    and H': "H' - {a} = H - {a}" "H' \<inter> members Q = {}"
    and L': "members C \<inter> L' = {}" "\<forall>p \<in> L'. is_block st p" "\<forall>p. addr_to_slab p \<noteq> a \<longrightarrow> (p \<in> L' \<longleftrightarrow> p \<in> L)"
  shows "core (st\<lparr>slabs := (slabs st)(a \<mapsto> s')\<rparr>) Q C L' H'"
proof -
  let ?st = "st\<lparr>slabs := (slabs st)(a \<mapsto> s')\<rparr>"
  have d: "geom st" "slabs_ok st Q H (members C \<union> L)" "queue_ok st Q H" "blocks_ok st C L"
    using core by (simp_all add: core_def)
  have "slabs_ok ?st Q H' (members C \<union> L')"
  proof -
    have "\<exists>t. ((slabs st)(a \<mapsto> s')) b = Some t \<and> slab_ok (members C \<union> L') b t
        \<and> (b \<in> members Q \<union> H' \<longleftrightarrow> slab_state t = OWNED)" if b: "constructed st b" for b
    proof (cases "b = a")
      case False
      obtain t where t: "slabs st b = Some t" "slab_ok (members C \<union> L) b t" "b \<in> members Q \<union> H \<longleftrightarrow> slab_state t = OWNED"
        by (rule core_slab [OF core b])
      moreover have "\<forall>p. addr_to_slab p = b \<longrightarrow> (p \<in> members C \<union> L' \<longleftrightarrow> p \<in> members C \<union> L)"
        using L'(3) False by simp
      then have "slab_ok (members C \<union> L') b t"
        by (rule slab_ok_frame [OF _ constructed_slab_room [OF d(1) b] t(2)])
      ultimately show ?thesis using False H'(1) by auto
    qed (use s' in simp)
    moreover have "a < current_slab st" using a(1) by (simp add: constructed_def)
    ultimately show ?thesis using d(2) unfolding slabs_ok_def by auto
  qed
  moreover have "queue_ok ?st Q H'"
    using d(3) H' a class_of_upd [OF a(2) s'(1)] unfolding queue_ok_def by auto
  moreover have "blocks_ok ?st C L'"
    using d(4) L'(1,2) class_of_upd [OF a(2) s'(1)] unfolding blocks_ok_def by auto
  ultimately show ?thesis using d(1) by (simp add: core_def)
qed

lemma inv_update_slab:
  assumes inv: "alloc_inv st Q C L H" and a: "constructed st a" "slabs st a = Some s"
    and s': "block_size s' = block_size s" "a \<in> members Q \<Longrightarrow> next_slab s' = next_slab s"
      "slab_ok (members C \<union> L') a s'" "a \<in> members Q \<union> H' \<longleftrightarrow> slab_state s' = OWNED"
    and H': "H' - {a} = H - {a}" "H' \<inter> members Q = {}"
    and L': "members C \<inter> L' = {}" "\<forall>p \<in> L'. is_block st p" "\<forall>p. addr_to_slab p \<noteq> a \<longrightarrow> (p \<in> L' \<longleftrightarrow> p \<in> L)"
  shows "alloc_inv (st\<lparr>slabs := (slabs st)(a \<mapsto> s')\<rparr>) Q C L' H'"
proof -
  have "sms_ok (st\<lparr>slabs := (slabs st)(a \<mapsto> s')\<rparr>) Q C"
    using invD(2) [OF inv] a(2) s'(2) by (intro sms_ok_heap) (auto simp: same_next_def)
  then show ?thesis
    using core_update_slab [OF inv_core [OF inv] a s'(1,3,4) H' L'] by (simp add: alloc_inv_def)
qed

text \<open>The link of a slab is not part of what its blocks are.\<close>

lemma slab_ok_next [simp]: "slab_ok U a (s\<lparr>next_slab := p\<rparr>) = slab_ok U a s"
  by (simp add: slab_ok_def slab_wf_def)

lemma core_enqueue:
  assumes "core st Q C L {a}" and "class_of st a k" and "k < 11" and "c < 8"
  shows "core st (Q((k, c) := Q (k, c) @ [a])) C L {}"
proof -
  have q: "queue_ok st Q {a}" using assms(1) by (simp add: core_def)
  then have "fam_ok Q" "a \<notin> members Q" by (simp_all add: queue_ok_def)
  note f = fam_snoc [OF this assms(3,4)]
  have "queue_ok st (Q((k, c) := Q (k, c) @ [a])) {}"
    using q f assms(2) unfolding queue_ok_def by (auto simp: f)
  then show ?thesis using assms(1) f(2) by (simp add: core_def slabs_ok_def)
qed

lemma core_dequeue:
  assumes "core st Q C L {}" and "Q x = a # as"
  shows "core st (Q(x := as)) C L {a}"
proof -
  have q: "queue_ok st Q {}" using assms(1) by (simp add: core_def)
  have a: "a \<in> members Q" using assms(2) membersI [of a Q x] by simp
  have "fam_ok Q" using q by (simp add: queue_ok_def)
  note f = fam_tl [OF this assms(2)]
  have "class_of st b k" if "b \<in> set ((Q(x := as)) (k, c))" for b k c
  proof -
    have "b \<in> set (Q (k, c))" using that assms(2) by (cases "x = (k, c)") auto
    then show ?thesis using q unfolding queue_ok_def by blast
  qed
  then have "queue_ok st (Q(x := as)) {a}"
    using q f a unfolding queue_ok_def by auto
  moreover have "members (Q(x := as)) \<union> {a} = members Q" using a f(2) by auto
  ultimately show ?thesis using assms(1) unfolding core_def slabs_ok_def by simp
qed

section \<open>Changes of one manager\<close>

definition sms_but :: "nat \<times> nat \<Rightarrow> object_allocator \<Rightarrow> (nat \<times> nat \<Rightarrow> u64 list) \<Rightarrow> (nat \<times> nat \<Rightarrow> u64 list) \<Rightarrow> bool" where
  "sms_but x st Q C \<longleftrightarrow> length (slab_managers st) = 11 \<and> (\<forall>k < 11. length (slab_managers st ! k) = 8)
     \<and> (\<forall>k < 11. \<forall>c < 8. (k, c) \<noteq> x \<longrightarrow> sm_ok (slabs st) (slab_managers st ! k ! c) (Q (k, c)) (C (k, c)))"

lemma sms_ok_but: "sms_ok st Q C \<Longrightarrow> sms_but x st Q C"
  by (simp add: sms_ok_def sms_but_def)

lemma sms_but_heap:
  assumes "sms_ok st Q C" and "\<forall>y b. y \<noteq> x \<longrightarrow> b \<in> set (Q y) \<longrightarrow> same_next (slabs st) h b"
  shows "sms_but x (st\<lparr>slabs := h\<rparr>) Q C"
proof -
  have "sm_ok h (slab_managers st ! k ! c) (Q (k, c)) (C (k, c))" if "k < 11" "c < 8" "(k, c) \<noteq> x" for k c
  proof -
    have "sm_ok (slabs st) (slab_managers st ! k ! c) (Q (k, c)) (C (k, c))" using assms(1) that by (simp add: sms_ok_def)
    moreover have "\<forall>b \<in> set (Q (k, c)). same_next (slabs st) h b" using assms(2) that(3) by blast
    ultimately show ?thesis using sm_rep_cong [of "Q (k, c)" "slabs st" h] by (simp add: sm_ok_def)
  qed
  then show ?thesis using assms(1) by (simp add: sms_but_def sms_ok_def)
qed

lemma sms_ok_put:
  assumes "sms_but (unat i, unat c) st Q C" and "unat i < 11" and "unat c < 8"
    and "sm_ok (slabs st) sm' (Q' (unat i, unat c)) (C' (unat i, unat c))"
    and "\<forall>x. x \<noteq> (unat i, unat c) \<longrightarrow> Q' x = Q x \<and> C' x = C x"
  shows "sms_ok (put_sm i c sm' st) Q' C'"
proof -
  have "sm_ok (slabs st) ((slab_managers st)[unat i := (slab_managers st ! unat i)[unat c := sm']] ! k ! d) (Q' (k, d)) (C' (k, d))"
    if "k < 11" "d < 8" for k d
    using that assms by (cases "k = unat i"; cases "d = unat c") (auto simp: sms_but_def nth_list_update)
  then show ?thesis using assms(1-3) by (auto simp: sms_ok_def sms_but_def put_sm_def nth_list_update)
qed

lemma get_sm_ok:
  assumes "alloc_inv st Q C L H" and "unat i < 11" and "unat c < 8"
  shows "\<exists>sm. get_sm i c st = Inr sm \<and> sm_ok (slabs st) sm (Q (unat i, unat c)) (C (unat i, unat c))"
  using assms invD(2) [OF assms(1)]
  by (simp add: get_sm_def sms_ok_def num_size_classes_def layout_consts word_less_nat_alt)

lemma head_cases:
  assumes "alloc_inv st Q C L H" and "sm_ok (slabs st) sm (Q x) cs"
  shows "(available_slabs_head sm = 0 \<longleftrightarrow> Q x = []) \<and> (Q x \<noteq> [] \<longrightarrow> available_slabs_head sm = hd (Q x))"
  using assms(2) by (cases "Q x") (auto simp: sm_ok_def sm_rep_def)

text \<open>A cache may take a pointer from the program or give one to it.\<close>

lemma inv_put_cache:
  assumes inv: "alloc_inv st Q C L H" and x: "unat i < 11" "unat c < 8"
    and sm: "sm_ok (slabs st) sm (Q (unat i, unat c)) (C (unat i, unat c))"
    and f: "fc_rep f (C' (unat i, unat c))" and same: "\<forall>x. x \<noteq> (unat i, unat c) \<longrightarrow> C' x = C x"
    and fam: "fam_ok C'" "members C' \<union> L' = members C \<union> L" "members C' \<inter> L' = {}"
    and cls: "\<forall>p \<in> set (C' (unat i, unat c)). class_of st (addr_to_slab p) (unat i)"
  shows "alloc_inv (put_sm i c (sm\<lparr>fc := f\<rparr>) st) Q C' L' H"
proof -
  note d = invD [OF inv]
  have "sm_ok (slabs st) (sm\<lparr>fc := f\<rparr>) (Q (unat i, unat c)) (C' (unat i, unat c))"
    using sm f by (simp add: sm_ok_def sm_rep_def)
  then have "sms_ok (put_sm i c (sm\<lparr>fc := f\<rparr>) st) Q C'"
    using same by (intro sms_ok_put [OF sms_ok_but [OF d(2)] x]) simp_all
  moreover have "class_of st (addr_to_slab p) k" if "p \<in> set (C' (k, e))" for k e p
    using that same cls d(5) by (cases "(k, e) = (unat i, unat c)") (auto simp: blocks_ok_def)
  then have "blocks_ok st C' L'" using d(5) fam unfolding blocks_ok_def by auto
  ultimately show ?thesis using d fam(2) by (simp add: alloc_inv_def core_def)
qed

lemma pop_ok:
  assumes inv: "alloc_inv st Q C L H" and x: "unat i < 11" "unat c < 8"
  shows "\<exists>p st'. try_pop c i st = Inr (p, st') \<and>
    (if C (unat i, unat c) = [] then p = 0 \<and> alloc_inv st' Q C L H
     else p = hd (C (unat i, unat c)) \<and> p \<in> members C \<and> class_of st' (addr_to_slab p) (unat i) \<and>
       alloc_inv st' Q (C((unat i, unat c) := tl (C (unat i, unat c)))) (insert p L) H)"
proof -
  obtain sm where sm: "get_sm i c st = Inr sm" "sm_ok (slabs st) sm (Q (unat i, unat c)) (C (unat i, unat c))"
    using get_sm_ok [OF assms] by blast
  have rep: "fc_rep (fc sm) (C (unat i, unat c))" using sm(2) by (simp add: sm_ok_def)
  show ?thesis
  proof (cases "C (unat i, unat c)")
    case Nil
    have "alloc_inv (put_sm i c (sm\<lparr>fc := fc sm\<rparr>) st) Q C L H"
      using invD(5) [OF inv] rep by (intro inv_put_cache [OF inv x sm(2)]) (auto simp: blocks_ok_def)
    then show ?thesis using Nil sm(1) fcs.pop_empty [of "fc sm"] rep by (simp add: try_pop_def)
  next
    case (Cons p ps)
    obtain f where f: "fc_pop (fc sm) = Inr (p, f)" "fc_rep f ps"
      using fcs.pop_top [of "fc sm" p ps] rep Cons by auto
    let ?C = "C((unat i, unat c) := ps)"
    have p: "p \<in> members C" "class_of st (addr_to_slab p) (unat i)"
      using Cons membersI [of p C "(unat i, unat c)"] cache_class [OF inv, of p "unat i" "unat c"] by simp_all
    have cl: "\<forall>q \<in> set ps. class_of st (addr_to_slab q) (unat i)"
      using Cons cache_class [OF inv, of _ "unat i" "unat c"] by simp
    note t = fam_tl [OF invD(7) [OF inv] Cons]
    have "alloc_inv (put_sm i c (sm\<lparr>fc := f\<rparr>) st) Q ?C (insert p L) H"
      using Cons t p cl f(2) invD(8) [OF inv] by (intro inv_put_cache [OF inv x sm(2)]) (auto simp: blocks_ok_def)
    then show ?thesis using Cons p sm(1) f(1) by (simp add: try_pop_def)
  qed
qed

lemma push_ok:
  assumes inv: "alloc_inv st Q C L H" and x: "unat i < 11" "unat c < 8"
    and p: "p \<in> L" "class_of st (addr_to_slab p) (unat i)"
  shows "\<exists>r st'. try_push c p i st = Inr (r, st') \<and>
    (if length (C (unat i, unat c)) = 13 then r = 1 \<and> alloc_inv st' Q C L H \<and> slabs st' = slabs st
       \<and> constructed st' = constructed st
     else r = 0 \<and> alloc_inv st' Q (C((unat i, unat c) := p # C (unat i, unat c))) (L - {p}) H)"
proof -
  obtain sm where sm: "get_sm i c st = Inr sm" "sm_ok (slabs st) sm (Q (unat i, unat c)) (C (unat i, unat c))"
    using get_sm_ok [OF inv x] by blast
  have rep: "fc_rep (fc sm) (C (unat i, unat c))" using sm(2) by (simp add: sm_ok_def)
  show ?thesis
  proof (cases rule: fcs.push_cases [OF rep, of p])
    case 2
    have "alloc_inv (put_sm i c (sm\<lparr>fc := fc sm\<rparr>) st) Q C L H"
      using invD(5) [OF inv] rep by (intro inv_put_cache [OF inv x sm(2)]) (auto simp: blocks_ok_def)
    then show ?thesis using 2 sm(1) by (simp add: try_push_def)
  next
    case (1 f)
    let ?C = "C((unat i, unat c) := p # C (unat i, unat c))"
    have "p \<notin> members C" using p(1) invD(8) [OF inv] by blast
    note t = fam_cons [OF invD(7) [OF inv] this x]
    have "alloc_inv (put_sm i c (sm\<lparr>fc := f\<rparr>) st) Q ?C (L - {p}) H"
      using t p 1(3) invD(5,8) [OF inv] by (intro inv_put_cache [OF inv x sm(2)]) (auto simp: blocks_ok_def)
    then show ?thesis using 1 sm(1) by (simp add: try_push_def)
  qed
qed

section \<open>The lists of slabs\<close>

lemma remove_ok:
  assumes inv: "alloc_inv st Q C L {}" and x: "unat i < 11" "unat c < 8"
    and sm: "sm_ok (slabs st) sm (Q (unat i, unat c)) (C (unat i, unat c))" and q: "Q (unat i, unat c) = a # as"
  shows "\<exists>sm'. cas_set_next_available_slab d d a (slabs st) sm = Inr (0, sm') \<and> available_slabs_head sm' \<noteq> a
    \<and> alloc_inv (put_sm i c sm' st) (Q((unat i, unat c) := as)) C L {a}"
proof -
  have rep: "sm_rep (slabs st) sm (a # as)" using sm q by (simp add: sm_ok_def)
  obtain s where s: "slabs st a = Some s"
      "cas_set_next_available_slab d d a (slabs st) sm = Inr (0, sm\<lparr>available_slabs_head := next_slab s\<rparr>)"
      "sm_rep (slabs st) (sm\<lparr>available_slabs_head := next_slab s\<rparr>) as"
    using cas_set_next_rep [OF rep] by blast
  let ?sm = "sm\<lparr>available_slabs_head := next_slab s\<rparr>"
  have "next_slab s \<noteq> a" using s(1,3) rep by (cases as) (auto simp: sm_rep_def)
  moreover have "sm_ok (slabs st) ?sm as (C (unat i, unat c))" using sm s(3) by (simp add: sm_ok_def)
  then have "sms_ok (put_sm i c ?sm st) (Q((unat i, unat c) := as)) C"
    by (intro sms_ok_put [OF sms_ok_but [OF invD(2) [OF inv]] x]) simp_all
  ultimately show ?thesis using s(2) core_dequeue [OF inv_core [OF inv] q] by (simp add: alloc_inv_def)
qed

text \<open>What \<open>_send_slab\<close> leaves alone: the region and, of every slab, all but the link.\<close>

definition blocks_at :: "object_allocator \<Rightarrow> u64 \<Rightarrow> (nat set \<times> nat set \<times> u32 \<times> u64) option" where
  "blocks_at st a = map_option (\<lambda>s. (avail s, freed s, block_size s, slab_state s)) (slabs st a)"

lemma blocks_at_put [simp]: "blocks_at (put_sm i c sm st) = blocks_at st"
  by (simp add: blocks_at_def fun_eq_iff)

definition same_region :: "object_allocator \<Rightarrow> object_allocator \<Rightarrow> bool" where
  "same_region st st' \<longleftrightarrow> m_addr st' = m_addr st \<and> end_addr st' = end_addr st
     \<and> raw_region_size st' = raw_region_size st"

lemma same_region_trans: "same_region st st' \<Longrightarrow> same_region st' st'' \<Longrightarrow> same_region st st''"
  by (simp add: same_region_def)

lemma same_region_upd [simp]:
  "same_region st (st\<lparr>slabs := h\<rparr>)" "same_region st (put_sm i c sm st)" "same_region st st"
  "same_region st (st\<lparr>slabs := h, current_slab := x\<rparr>)" "same_region st (put_sm i c sm (st\<lparr>slabs := h\<rparr>))"
  by (simp_all add: same_region_def)

lemma link_tail_ok:
  assumes inv: "alloc_inv st Q C L {a}" and l: "l \<in> set (Q x)" and t: "slabs st l = Some t"
  defines "st' \<equiv> st\<lparr>slabs := (slabs st)(l \<mapsto> t\<lparr>next_slab := a\<rparr>)\<rparr>"
  shows "core st' Q C L {a} \<and> class_of st' = class_of st \<and> blocks_at st' = blocks_at st
    \<and> (\<forall>y b. y \<noteq> x \<longrightarrow> b \<in> set (Q y) \<longrightarrow> same_next (slabs st) (slabs st') b)"
proof -
  note d = invD [OF inv]
  have cl: "constructed st l" by (rule queue_constructed [OF inv l])
  obtain t' where t': "slabs st l = Some t'" "slab_ok (members C \<union> L) l t'" "l \<in> members Q \<union> {a} \<longleftrightarrow> slab_state t' = OWNED"
    by (rule inv_slab [OF inv cl])
  have "core st' Q C L {a}" unfolding st'_def
    using t' t d(4,5,8) by (intro core_update_slab [OF inv_core [OF inv] cl t]) (auto simp: queue_ok_def blocks_ok_def)
  moreover have "class_of st' = class_of st" unfolding st'_def by (rule class_of_upd(1) [OF t]) simp
  moreover have "blocks_at st' = blocks_at st" using t by (auto simp: blocks_at_def fun_eq_iff st'_def)
  moreover have "l \<notin> set (Q y)" if "y \<noteq> x" for y using l that d(6) unfolding fam_ok_def by blast
  ultimately show ?thesis by (auto simp: same_next_def st'_def)
qed

lemma send_ok:
  assumes inv: "alloc_inv st Q C L {a}" and x: "unat i < 11" "unat c < 8"
    and a: "slabs st a = Some s" "next_slab s = 0" "class_of st a (unat i)"
  shows "\<exists>st'. alloc_send_slab c a i st = Inr st'
    \<and> alloc_inv st' (Q((unat i, unat c) := Q (unat i, unat c) @ [a])) C L {}
    \<and> blocks_at st' = blocks_at st \<and> current_slab st' = current_slab st \<and> same_region st st'"
proof -
  let ?x = "(unat i, unat c)"
  note d = invD [OF inv]
  obtain sm where sm: "get_sm i c st = Inr sm" "sm_ok (slabs st) sm (Q ?x) (C ?x)"
    using get_sm_ok [OF inv x] by blast
  have ca: "constructed st a" and na: "a \<notin> members Q" using d(4) by (simp_all add: queue_ok_def)
  have a0: "a \<noteq> 0" "aligned a" using constructed_room(3) [OF d(1) ca] ca by (auto simp: constructed_def)
  have rep: "sm_rep (slabs st) sm (Q ?x)" using sm(2) by (simp add: sm_ok_def)
  have naq: "a \<notin> set (Q ?x)" using na membersI [of a Q ?x] by blast
  obtain h' sm' where s: "send_slab a (slabs st) sm = Inr (h', sm')" "sm_rep h' sm' (Q ?x @ [a])" "fc sm' = fc sm"
      "h' = slabs st \<or> (\<exists>t. Q ?x \<noteq> [] \<and> slabs st (last (Q ?x)) = Some t \<and> h' = (slabs st)(last (Q ?x) \<mapsto> t\<lparr>next_slab := a\<rparr>))"
    using send_slab_rep [OF rep a(1,2) a0(1) naq] by blast
  let ?st = "st\<lparr>slabs := h'\<rparr>" and ?Q = "Q(?x := Q ?x @ [a])"
  have h': "core ?st Q C L {a} \<and> class_of ?st = class_of st \<and> blocks_at ?st = blocks_at st
      \<and> (\<forall>y b. y \<noteq> ?x \<longrightarrow> b \<in> set (Q y) \<longrightarrow> same_next (slabs st) h' b)"
    using s(4)
  proof (elim disjE exE conjE)
    fix t assume "Q ?x \<noteq> []" and t: "slabs st (last (Q ?x)) = Some t"
      and h: "h' = (slabs st)(last (Q ?x) \<mapsto> t\<lparr>next_slab := a\<rparr>)"
    then show ?thesis using link_tail_ok [OF inv last_in_set t] by simp
  qed (use inv_core [OF inv] in \<open>simp add: same_next_def\<close>)
  then have "sms_but ?x ?st Q C" using sms_but_heap [OF d(2)] by blast
  moreover have "available_slabs_tail sm' = a" using s(2) by (simp add: sm_rep_def)
  then have "sm_ok h' sm' (?Q ?x) (C ?x)" using s(2,3) sm(2) a0 by (simp add: sm_ok_def)
  ultimately have "sms_ok (put_sm i c sm' ?st) ?Q C" using x by (intro sms_ok_put [of i c ?st Q C]) simp_all
  then show ?thesis using s(1) sm(1) core_enqueue [of ?st Q C L a "unat i" "unat c"] x h' a(3)
    by (auto simp: alloc_send_slab_def alloc_inv_def blocks_at_def)
qed

section \<open>A new slab\<close>

lemma ctor_slab_ok:
  assumes "class_size bs" and "\<forall>i < nblocks_of bs. block_addr a bs i \<notin> U"
  shows "slab_ok U a (obj_slab_ctor bs zero_slab)"
proof -
  have b: "8 \<le> unat bs" "unat bs \<le> 32768" using class_size_bounds [OF assms(1)] by simp_all
  have "freed (obj_slab_ctor bs zero_slab) = {}" using freed_empty_iff [OF ctor_wf [OF b]] by simp
  moreover have "avail (obj_slab_ctor bs zero_slab) = {0..<nblocks_of bs}" using b by (intro ctor_avail) simp_all
  ultimately show ?thesis using assms ctor_wf [OF b] by (auto simp: slab_ok_def OWNED_def UNOWNED_def)
qed

lemma geom_grow:
  assumes "geom st" and "current_slab st < end_addr st"
  shows "geom (st\<lparr>current_slab := current_slab st + sizeof_obj_slab\<rparr>)"
    and "constructed (st\<lparr>current_slab := current_slab st + sizeof_obj_slab\<rparr>) b
      \<longleftrightarrow> constructed st b \<or> b = current_slab st"
    and "current_slab st < current_slab st + sizeof_obj_slab"
proof -
  let ?c = "current_slab st" and ?st = "st\<lparr>current_slab := current_slab st + sizeof_obj_slab\<rparr>"
  have al: "aligned ?c" "aligned (end_addr st)" "region_start st \<le> ?c" using assms(1) by (simp_all add: geom_def)
  have e: "unat ?c + 34048 \<le> unat (end_addr st)" using aligned_less_step al assms(2) by blast
  then have u: "unat (?c + sizeof_obj_slab) = unat ?c + 34048"
    using unat_u64_bound [of "end_addr st"] by (simp add: unat_word_ariths(1) sizeof_obj_slab_eq)
  then have al': "aligned (?c + sizeof_obj_slab)" using al(1) by (simp add: aligned_iff)
  show "geom ?st" using assms(1) e u al' by (simp add: geom_def word_le_nat_alt)
  show "?c < ?c + sizeof_obj_slab" using u by (simp add: word_less_nat_alt)
  have "b < ?c + sizeof_obj_slab \<longleftrightarrow> b < ?c \<or> b = ?c" if "aligned b"
  proof -
    have "unat b + 34048 \<le> unat ?c + 34048" if "b < ?c + sizeof_obj_slab"
      using aligned_less_step [OF \<open>aligned b\<close> al' that] u by simp
    then show ?thesis using u by (auto simp: word_less_nat_alt word_unat_eq_iff)
  qed
  then show "constructed ?st b \<longleftrightarrow> constructed st b \<or> b = ?c" using al by (auto simp: constructed_def)
qed

lemma new_slab_inv:
  assumes inv: "alloc_inv st Q C L {}" and room: "current_slab st < end_addr st" and bs: "class_size bs"
  defines "a \<equiv> current_slab st"
  shows "alloc_inv (st\<lparr>current_slab := a + sizeof_obj_slab, slabs := (slabs st)(a \<mapsto> obj_slab_ctor bs zero_slab)\<rparr>) Q C L {a}"
proof -
  let ?s = "obj_slab_ctor bs zero_slab"
  let ?st = "st\<lparr>current_slab := a + sizeof_obj_slab, slabs := (slabs st)(a \<mapsto> ?s)\<rparr>"
  note d = invD [OF inv] and g = geom_grow [OF invD(1) [OF inv] room, folded a_def]
  have con: "constructed ?st b \<longleftrightarrow> constructed st b \<or> b = a" for b
    using g(2) [of b] by (simp add: constructed_def region_start_def)
  have geom: "geom ?st" using g(1) by (simp add: geom_def region_start_def)
  have nc: "\<not> constructed st a" by (simp add: a_def constructed_def)
  then have nq: "a \<notin> members Q" using d(4) by (auto simp: queue_ok_def)
  have cls: "class_of st b k \<Longrightarrow> b \<noteq> a \<Longrightarrow> class_of ?st b k" for b k by (simp add: class_of_def)
  have blk: "is_block ?st p" if p: "is_block st p" for p
  proof -
    obtain b s i where b: "constructed st b" "slabs st b = Some s" "i < nblocks_of (block_size s)" "p = block_addr b (block_size s) i"
      using p unfolding is_block_def by blast
    then have "constructed ?st b" "slabs ?st b = Some s" using nc con by auto
    then show ?thesis using b(3,4) unfolding is_block_def by blast
  qed
  have blkc: "constructed st (addr_to_slab p)" if "p \<in> members C \<union> L" for p
    using that d(5) is_block_slab [OF inv] unfolding blocks_ok_def by blast
  have rooma: "slab_room a" using constructed_slab_room [OF geom] con by blast
  have "block_addr a bs i \<notin> members C \<union> L" if "i < nblocks_of bs" for i
  proof
    assume "block_addr a bs i \<in> members C \<union> L"
    then have "constructed st (addr_to_slab (block_addr a bs i))" by (rule blkc)
    then show False using nc addr_to_slab_block [OF rooma _ that] class_size_bounds [OF bs] by simp
  qed
  then have ok: "slab_ok (members C \<union> L) a ?s" using ctor_slab_ok [OF bs] by blast
  have "a < b \<and> a \<le> b" if "a + sizeof_obj_slab \<le> b" for b
    using less_le_trans [OF g(3) that] by simp
  then have "slabs_ok ?st Q {a} (members C \<union> L)"
    using d(3) ok con nc nq unfolding slabs_ok_def by (auto simp: a_def)
  moreover have "class_of ?st b k" if "b \<in> set (Q (k, c))" for b k c
    using cls [OF queue_class [OF inv that]] nc queue_constructed [OF inv that] by blast
  then have "queue_ok ?st Q {a}" using d(4) con nq unfolding queue_ok_def by simp
  moreover have "class_of ?st (addr_to_slab p) k" if "p \<in> set (C (k, c))" for p k c
    using cls [OF cache_class [OF inv that]] nc blkc [of p] membersI [of p C, OF that] by blast
  then have "blocks_ok ?st C L" using d(5) blk unfolding blocks_ok_def by simp
  moreover have "sms_ok ?st Q C"
    using sms_ok_heap [OF d(2), of "(slabs st)(a \<mapsto> ?s)"] nq by (auto simp: sms_ok_def same_next_def)
  ultimately show ?thesis using geom by (simp add: alloc_inv_def core_def)
qed

end
