(* ===== verification/Allocator_Steps.thy ===== *)
theory Allocator_Steps
  imports Allocator_Invariant
begin

text \<open>
  What one round of \<open>_allocate_inner\<close> and one call of \<open>_free\<close> do to a state that satisfies the
  invariant, branch by branch. No branch fails an assertion or leaves the bounds of an array.
\<close>

definition avail_at :: "object_allocator \<Rightarrow> u64 \<Rightarrow> nat set" where
  "avail_at st a = (case slabs st a of None \<Rightarrow> {} | Some s \<Rightarrow> avail s)"

definition freed_at :: "object_allocator \<Rightarrow> u64 \<Rightarrow> nat set" where
  "freed_at st a = (case slabs st a of None \<Rightarrow> {} | Some s \<Rightarrow> freed s)"

lemma at_simps [simp]:
  "slabs st a = Some s \<Longrightarrow> avail_at st a = avail s" "slabs st a = Some s \<Longrightarrow> freed_at st a = freed s"
  by (simp_all add: avail_at_def freed_at_def)

lemma blocks_at_eq:
  "blocks_at st' a = blocks_at st a \<Longrightarrow> avail_at st' a = avail_at st a \<and> freed_at st' a = freed_at st a"
  by (auto simp: blocks_at_def avail_at_def freed_at_def split: option.splits)

text \<open>What a step on the slab \<open>a\<close> leaves alone.\<close>

definition frame :: "u64 \<Rightarrow> object_allocator \<Rightarrow> object_allocator \<Rightarrow> bool" where
  "frame a st st' \<longleftrightarrow> same_region st st' \<and> (\<forall>b. b \<noteq> a \<longrightarrow> blocks_at st' b = blocks_at st b)"

lemma frameD: "frame a st st' \<Longrightarrow> b \<noteq> a \<Longrightarrow> avail_at st' b = avail_at st b \<and> freed_at st' b = freed_at st b"
  unfolding frame_def using blocks_at_eq by blast

lemma frame_trans: "frame a st st' \<Longrightarrow> frame a st' st'' \<Longrightarrow> frame a st st''"
  by (auto simp: frame_def same_region_def)

lemma frame_simps [simp]:
  "frame a st st" "frame a st (st\<lparr>slabs := (slabs st)(a \<mapsto> s)\<rparr>)" "frame a st (put_sm i c sm st)"
  "frame a st (st\<lparr>current_slab := x, slabs := (slabs st)(a \<mapsto> s)\<rparr>)"
  by (simp_all add: frame_def same_region_def blocks_at_def)

lemma frame_blocks: "blocks_at st' = blocks_at st \<Longrightarrow> same_region st st' \<Longrightarrow> frame a st st'"
  by (simp add: frame_def)

lemma slab_op_Inr:
  "slabs st a = Some s \<Longrightarrow> f s = Inr (r, s') \<Longrightarrow> slab_op a f st = Inr (r, st\<lparr>slabs := (slabs st)(a \<mapsto> s')\<rparr>)"
  by (simp add: slab_op_def get_slab_def)

lemma slab_ok_cong:
  assumes "slab_ok U a s" and "slab_wf s'" and "avail s' = avail s" and "freed s' = freed s"
    and "block_size s' = block_size s" and "slab_state s' = slab_state s"
  shows "slab_ok U a s'"
  using assms(1) unfolding slab_ok_def assms(3-6) using assms(2) by blast

section \<open>Taking a block\<close>

lemma slab_take_ok:
  assumes room: "slab_room a" and ok: "slab_ok U a s" and ne: "avail s \<noteq> {}"
  shows "\<exists>ret s'. slab_allocate a c c s = Inr (ret, s') \<and> ret < SUCCESS_BOUND
    \<and> unat ret < nblocks_of (block_size s) \<and> block_addr a (block_size s) (unat ret) \<notin> U
    \<and> slab_ok (insert (block_addr a (block_size s) (unat ret)) U) a s'
    \<and> block_size s' = block_size s \<and> next_slab s' = next_slab s \<and> slab_state s' = slab_state s"
proof -
  let ?bs = "block_size s" and ?N = "\<lambda>U. {i. i < nblocks_of (block_size s) \<and> block_addr a (block_size s) i \<notin> U}"
  have wf: "slab_wf s" and cs: "class_size ?bs" and dis: "avail s \<inter> freed s = {}" and part: "avail s \<union> freed s = ?N U"
    using ok by (simp_all add: slab_ok_def)
  have bs: "8 \<le> unat ?bs" using class_size_bounds [OF cs] by simp
  obtain ret s' where run: "slab_allocate a c c s = Inr (ret, s')" and post: "alloc_post s ret s'"
    using slab_allocate_same_cpu [of a s c] room wf by (auto simp: slab_room_def aligned_def)
  let ?r = "unat ret" and ?p = "block_addr a ?bs (unat ret)"
  have r: "?r \<in> avail s" "avail s' = avail s - {?r}" "freed s' = freed s" "slab_state s' = slab_state s"
    "block_size s' = ?bs" "next_slab s' = next_slab s" "slab_wf s'"
    using post ne by (simp_all add: alloc_post_def freed_def)
  have "?r \<in> ?N U" unfolding part [symmetric] using r(1) by (rule UnI1)
  then have nb: "?r < nblocks_of ?bs" "?p \<notin> U" by simp_all
  have "block_addr a ?bs i = ?p \<longleftrightarrow> i = ?r" if "i < nblocks_of ?bs" for i
    using block_addr_inj [OF room bs that nb(1)] by blast
  then have "?N (insert ?p U) = ?N U - {?r}" by blast
  also have "\<dots> = (avail s - {?r}) \<union> freed s" unfolding part [symmetric] using r(1) dis by blast
  finally have e: "(avail s - {?r}) \<union> freed s = ?N (insert ?p U)" ..
  moreover have "(avail s - {?r}) \<inter> freed s = {}" using dis by blast
  moreover have "slab_state s \<noteq> UNOWNED" using ok ne by (simp add: slab_ok_def)
  ultimately have "slab_ok (insert ?p U) a s'" unfolding slab_ok_def r(2-5) using r(7) cs by simp
  moreover have "ret < SUCCESS_BOUND"
    using r(1) by (simp add: avail_def slab_consts word_less_nat_alt)
  ultimately show ?thesis using run nb r by blast
qed

lemma take_ok:
  assumes inv: "alloc_inv st Q C L {}" and a: "a \<in> set (Q (k, c))" and ne: "avail_at st a \<noteq> {}"
  shows "\<exists>ret st' p. slab_op a (slab_allocate a d d) st = Inr (ret, st') \<and> ret < SUCCESS_BOUND
    \<and> p = a + payload_offset + ucast (slab_sizes ! k) * ret \<and> p \<notin> members C \<union> L
    \<and> addr_to_slab p = a \<and> alloc_inv st' Q C (insert p L) {} \<and> class_of st' a k"
proof -
  have ca: "constructed st a" by (rule queue_constructed [OF inv a])
  have room: "slab_room a" by (rule constructed_slab_room [OF invD(1) [OF inv] ca])
  obtain s where s: "slabs st a = Some s" "slab_ok (members C \<union> L) a s" "a \<in> members Q \<union> {} \<longleftrightarrow> slab_state s = OWNED"
    by (rule inv_slab [OF inv ca])
  have bs: "block_size s = slab_sizes ! k" using queue_class [OF inv a] s(1) by (simp add: class_of_def)
  have ne': "avail s \<noteq> {}" using ne s(1) by simp
  obtain ret s' where t: "slab_allocate a d d s = Inr (ret, s')" "ret < SUCCESS_BOUND"
      "unat ret < nblocks_of (block_size s)" "block_addr a (block_size s) (unat ret) \<notin> members C \<union> L"
      "slab_ok (insert (block_addr a (block_size s) (unat ret)) (members C \<union> L)) a s'"
      "block_size s' = block_size s" "next_slab s' = next_slab s" "slab_state s' = slab_state s"
    using slab_take_ok [OF room s(2) ne', of d] by blast
  let ?p = "block_addr a (block_size s) (unat ret)"
  have ap: "addr_to_slab ?p = a"
    using addr_to_slab_block [OF room _ t(3)] class_size_bounds s(2) by (auto simp: slab_ok_def)
  have "is_block st ?p" using ca s(1) t(3) unfolding is_block_def by blast
  then have "alloc_inv (st\<lparr>slabs := (slabs st)(a \<mapsto> s')\<rparr>) Q C (insert ?p L) {}"
    using t(4-8) s(3) invD(5,8) [OF inv] ap
    by (intro inv_update_slab [OF inv ca s(1)]) (auto simp: blocks_ok_def)
  moreover have "class_of (st\<lparr>slabs := (slabs st)(a \<mapsto> s')\<rparr>) a k" using t(6) bs by (simp add: class_of_def)
  moreover have "?p = a + payload_offset + ucast (slab_sizes ! k) * ret" by (simp add: block_addr_def bs)
  ultimately show ?thesis using slab_op_Inr [of st a s "slab_allocate a d d", OF s(1) t(1)] t(2,4) ap by blast
qed

lemma full_ok:
  assumes inv: "alloc_inv st Q C L {}" and a: "a \<in> set (Q x)" and full: "avail_at st a = {}"
  shows "\<exists>st'. slab_op a (slab_allocate a d d) st = Inr (FULL, st') \<and> alloc_inv st' Q C L {}
    \<and> frame a st st' \<and> avail_at st' a = {} \<and> freed_at st' a = freed_at st a
    \<and> slab_managers st' = slab_managers st \<and> current_slab st' = current_slab st"
proof -
  have ca: "constructed st a" by (rule queue_constructed [OF inv a])
  have room: "slab_room a" by (rule constructed_slab_room [OF invD(1) [OF inv] ca])
  obtain s where s: "slabs st a = Some s" "slab_ok (members C \<union> L) a s" "a \<in> members Q \<union> {} \<longleftrightarrow> slab_state s = OWNED"
    by (rule inv_slab [OF inv ca])
  obtain ret s' where run: "slab_allocate a d d s = Inr (ret, s')" and post: "alloc_post s ret s'"
    using slab_allocate_same_cpu [of a s d] room s(2) by (auto simp: slab_room_def aligned_def slab_ok_def)
  have p: "ret = FULL" "avail s' = {}" "freed s' = freed s" "slab_state s' = slab_state s"
      "block_size s' = block_size s" "next_slab s' = next_slab s" "slab_wf s'"
    using post full s(1) by (simp_all add: alloc_post_def freed_def)
  have "slab_ok (members C \<union> L) a s'" using full s(1) p by (intro slab_ok_cong [OF s(2)]) simp_all
  then have "alloc_inv (st\<lparr>slabs := (slabs st)(a \<mapsto> s')\<rparr>) Q C L {}"
    using p s(3) invD(5,8) [OF inv] by (intro inv_update_slab [OF inv ca s(1)]) (auto simp: blocks_ok_def)
  then show ?thesis using slab_op_Inr [of st a s "slab_allocate a d d", OF s(1) run] p s(1) by auto
qed

section \<open>An empty list\<close>

lemma class_size_nth: "k < 11 \<Longrightarrow> class_size (slab_sizes ! k)"
  by (simp add: class_size_def num_size_classes_def)

lemma idx_to_size_ok: "unat i < 11 \<Longrightarrow> idx_to_size i = Inr (slab_sizes ! unat i)"
  by (simp add: idx_to_size_def num_size_classes_def)

lemma ctor_avail_nonempty: "class_size bs \<Longrightarrow> avail (obj_slab_ctor bs zero_slab) \<noteq> {}"
proof -
  assume "class_size bs"
  then have b: "8 \<le> unat bs" "unat bs \<le> 144" using class_size_bounds by auto
  then have "avail (obj_slab_ctor bs zero_slab) = {0..<nblocks_of bs}" by (intro ctor_avail) simp_all
  moreover have "0 < nblocks_of bs" using b by (simp add: nblocks_of_def div_greater_zero_iff)
  ultimately show ?thesis by simp
qed

lemma new_round_ok:
  assumes inv: "alloc_inv st Q C L {}" and x: "unat i < 11" "unat (ob_send ob) < 8" and room: "current_slab st < end_addr st"
  shows "\<exists>st'. allocate_new_slab ob i st = Inr (None, st')
    \<and> alloc_inv st' (Q((unat i, unat (ob_send ob)) := Q (unat i, unat (ob_send ob)) @ [current_slab st])) C L {}
    \<and> frame (current_slab st) st st' \<and> avail_at st' (current_slab st) \<noteq> {}
    \<and> unat (current_slab st') = unat (current_slab st) + 34048"
proof -
  let ?a = "current_slab st" and ?bs = "slab_sizes ! unat i"
  let ?s = "obj_slab_ctor ?bs zero_slab"
  let ?st = "st\<lparr>current_slab := ?a + sizeof_obj_slab, slabs := (slabs st)(?a \<mapsto> ?s)\<rparr>"
  note g = invD(1) [OF inv]
  have al: "aligned ?a" using g by (simp add: geom_def)
  have fresh: "slabs st ?a = Some zero_slab" using invD(3) [OF inv] al room by (simp add: slabs_ok_def)
  have inv1: "alloc_inv ?st Q C L {?a}" by (rule new_slab_inv [OF inv room class_size_nth [OF x(1)]])
  have c1: "constructed ?st ?a" using invD(4) [OF inv1] by (simp add: queue_ok_def)
  note r = constructed_room [OF invD(1) [OF inv1] c1]
  obtain st' where st': "alloc_send_slab (ob_send ob) ?a i ?st = Inr st'"
      "alloc_inv st' (Q((unat i, unat (ob_send ob)) := Q (unat i, unat (ob_send ob)) @ [?a])) C L {}"
      "blocks_at st' = blocks_at ?st" "current_slab st' = ?a + sizeof_obj_slab" "same_region ?st st'"
    using send_ok [OF inv1 x, of ?s] by (auto simp: class_of_def)
  have fr: "frame ?a st st'"
    using frame_trans [OF frame_simps(4) frame_blocks [OF st'(3,5)]] .
  have "avail_at st' ?a = avail ?s"
    using blocks_at_eq [of st' ?a ?st] st'(3) by (simp add: avail_at_def)
  moreover have "unat (?a + sizeof_obj_slab) = unat ?a + 34048"
    using aligned_less_step [OF al _ room] g unat_u64_bound [of "end_addr st"]
    by (simp add: geom_def unat_word_ariths(1) sizeof_obj_slab_eq)
  moreover have "allocate_new_slab ob i st = Inr (None, st')"
    using room al r(3) st'(1) fresh
    by (simp add: allocate_new_slab_def out_of_memory_def slab_new_def aligned_def idx_to_size_ok [OF x(1)]
        slab_op_def get_slab_def)
  ultimately show ?thesis using st' fr ctor_avail_nonempty [OF class_size_nth [OF x(1)]] by simp
qed

lemma no_room_ok: "\<not> current_slab st < end_addr st \<Longrightarrow> allocate_new_slab ob i st = Inr (Some 0, st)"
  by (simp add: allocate_new_slab_def out_of_memory_def not_less)

section \<open>A full slab\<close>

lemma held_update:
  assumes inv: "alloc_inv st Q C L {a}" and s: "slabs st a = Some s"
    and s': "block_size s' = block_size s" "slab_ok (members C \<union> L) a s'" "slab_state s' = OWNED \<longleftrightarrow> H' = {a}"
    and H': "H' = {a} \<or> H' = {}"
  shows "alloc_inv (st\<lparr>slabs := (slabs st)(a \<mapsto> s')\<rparr>) Q C L H'"
proof -
  have q: "queue_ok st Q {a}" using invD(4) [OF inv] .
  then have c: "constructed st a" and n: "a \<notin> members Q" by (simp_all add: queue_ok_def)
  show ?thesis using s' H' n invD(5,8) [OF inv]
    by (intro inv_update_slab [OF inv c s]) (auto simp: blocks_ok_def)
qed

lemma held_slab:
  assumes "alloc_inv st Q C L {a}"
  obtains s where "slabs st a = Some s" "slab_ok (members C \<union> L) a s" "slab_state s = OWNED"
proof -
  have "constructed st a" using invD(4) [OF assms] by (simp add: queue_ok_def)
  then obtain s where s: "slabs st a = Some s" "slab_ok (members C \<union> L) a s" "a \<in> members Q \<union> {a} \<longleftrightarrow> slab_state s = OWNED"
    by (rule inv_slab [OF assms])
  then show thesis using that by simp
qed

lemma unlink_send_ok:
  assumes inv: "alloc_inv st Q C L {a}" and x: "unat i < 11" "unat c < 8" and cls: "class_of st a (unat i)"
  shows "\<exists>h st'. set_next a 0 (slabs st) = Inr h \<and> alloc_send_slab c a i (st\<lparr>slabs := h\<rparr>) = Inr st'
    \<and> alloc_inv st' (Q((unat i, unat c) := Q (unat i, unat c) @ [a])) C L {}
    \<and> blocks_at st' = blocks_at st \<and> current_slab st' = current_slab st \<and> same_region st st'"
proof -
  obtain s where s: "slabs st a = Some s" "slab_ok (members C \<union> L) a s" "slab_state s = OWNED"
    by (rule held_slab [OF inv])
  let ?st = "st\<lparr>slabs := (slabs st)(a \<mapsto> s\<lparr>next_slab := 0\<rparr>)\<rparr>"
  have inv1: "alloc_inv ?st Q C L {a}" using s by (intro held_update [OF inv s(1)]) simp_all
  have "class_of ?st a (unat i)" using cls s(1) by (simp add: class_of_def)
  then obtain st' where st': "alloc_send_slab c a i ?st = Inr st'"
      "alloc_inv st' (Q((unat i, unat c) := Q (unat i, unat c) @ [a])) C L {}" "blocks_at st' = blocks_at ?st"
      "current_slab st' = current_slab st" "same_region ?st st'"
    using send_ok [OF inv1 x, of "s\<lparr>next_slab := 0\<rparr>"] by auto
  moreover have "blocks_at ?st = blocks_at st" using s(1) by (auto simp: blocks_at_def fun_eq_iff)
  ultimately show ?thesis using s(1) by (auto simp: set_next_def same_region_def)
qed

lemma put_sm_same: "get_sm i c st = Inr sm \<Longrightarrow> put_sm i c sm st = st"
  by (auto simp: get_sm_def put_sm_def split: if_splits)

lemma retire_stale:
  assumes inv: "alloc_inv st Q C L {}" and x: "unat i < 11" "unat (ob_start ob) < 8" and ne: "ob_cas ob \<noteq> ob_start ob"
  shows "retire_full_slab ob i a st = Inr (None, st)"
proof -
  obtain sm where sm: "get_sm i (ob_start ob) st = Inr sm" using get_sm_ok [OF inv x] by blast
  then show ?thesis using ne put_sm_same [OF sm]
    by (simp add: retire_full_slab_def cas_set_next_available_slab_def ANY_def)
qed

text \<open>\<open>_try_release\<close> of a held full slab: the slab is given up, or keeps all its freed blocks.\<close>

lemma release_ok:
  assumes inv: "alloc_inv st Q C L {a}" and full: "avail_at st a = {}"
  shows "\<exists>r st'. slab_op a try_release st = Inr (r, st') \<and> frame a st st' \<and> current_slab st' = current_slab st
    \<and> (if freed_at st a = {} then r = 1 \<and> alloc_inv st' Q C L {}
       else r = 0 \<and> alloc_inv st' Q C L {a} \<and> avail_at st' a \<noteq> {} \<and> class_of st' = class_of st)"
proof -
  obtain s where s: "slabs st a = Some s" "slab_ok (members C \<union> L) a s" "slab_state s = OWNED"
    by (rule held_slab [OF inv])
  have wf: "slab_wf s" using s(2) by (simp add: slab_ok_def)
  have av: "avail s = {}" using full s(1) by simp
  show ?thesis
  proof (cases "freed s = {}")
    case True
    let ?s = "s\<lparr>slab_state := UNOWNED\<rparr>"
    have "try_release s = Inr (1, ?s)"
      using True freed_empty_iff [OF wf] s(3) by (intro try_release_empty) simp_all
    moreover have "slab_ok (members C \<union> L) a ?s"
      using s(2) True av by (simp add: slab_ok_def slab_wf_def)
    then have "alloc_inv (st\<lparr>slabs := (slabs st)(a \<mapsto> ?s)\<rparr>) Q C L {}"
      by (intro held_update [OF inv s(1)]) (simp_all add: OWNED_def UNOWNED_def)
    ultimately show ?thesis using slab_op_Inr [of st a s try_release, OF s(1)] True s(1) by auto
  next
    case False
    obtain s' where s': "try_release s = Inr (0, s')" "slab_wf s'" "avail s' = freed s" "freed s' = {}"
        "block_size s' = block_size s" "slab_state s' = slab_state s"
      using try_release_reclaims [OF wf av False] by blast
    have "slab_ok (members C \<union> L) a s'"
      using s(2,3) s' av unfolding slab_ok_def s'(3-6) by (auto simp: OWNED_def UNOWNED_def)
    then have "alloc_inv (st\<lparr>slabs := (slabs st)(a \<mapsto> s')\<rparr>) Q C L {a}"
      using s' s(3) by (intro held_update [OF inv s(1)]) simp_all
    then show ?thesis using slab_op_Inr [of st a s try_release, OF s(1) s'(1)] False s(1) s'(3)
        class_of_upd(1) [OF s(1) s'(5)] by auto
  qed
qed

lemma retire_ok:
  assumes inv: "alloc_inv st Q C L {}" and x: "unat i < 11" "unat (ob_start ob) < 8" "unat (ob_send ob) < 8"
    and q: "Q (unat i, unat (ob_start ob)) = a # as" and eq: "ob_cas ob = ob_start ob" and full: "avail_at st a = {}"
  defines "Q1 \<equiv> Q((unat i, unat (ob_start ob)) := as)" and "y \<equiv> (unat i, unat (ob_send ob))"
  shows "\<exists>st'. retire_full_slab ob i a st = Inr (None, st') \<and> frame a st st' \<and> current_slab st' = current_slab st
    \<and> (if freed_at st a = {} then alloc_inv st' Q1 C L {}
       else alloc_inv st' (Q1(y := Q1 y @ [a])) C L {} \<and> avail_at st' a \<noteq> {})"
proof -
  have cls: "class_of st a (unat i)" using queue_class [OF inv, of a "unat i"] q by (metis list.set_intros(1))
  obtain sm where sm: "get_sm i (ob_start ob) st = Inr sm"
      "sm_ok (slabs st) sm (Q (unat i, unat (ob_start ob))) (C (unat i, unat (ob_start ob)))"
    using get_sm_ok [OF inv x(1,2)] by blast
  obtain sm' where sm': "cas_set_next_available_slab (ob_start ob) (ob_start ob) a (slabs st) sm = Inr (0, sm')"
      "available_slabs_head sm' \<noteq> a" "alloc_inv (put_sm i (ob_start ob) sm' st) Q1 C L {a}"
    using remove_ok [OF inv x(1,2) sm(2) q] unfolding Q1_def by blast
  let ?st1 = "put_sm i (ob_start ob) sm' st"
  have full1: "avail_at ?st1 a = {}" "freed_at ?st1 a = freed_at st a" using full by (simp_all add: avail_at_def freed_at_def)
  obtain s where s: "slabs ?st1 a = Some s" "slab_state s = OWNED" by (rule held_slab [OF sm'(3)])
  obtain r st2 where rel: "slab_op a try_release ?st1 = Inr (r, st2)" "frame a ?st1 st2" "current_slab st2 = current_slab ?st1"
      "if freed_at st a = {} then r = 1 \<and> alloc_inv st2 Q1 C L {}
       else r = 0 \<and> alloc_inv st2 Q1 C L {a} \<and> avail_at st2 a \<noteq> {} \<and> class_of st2 = class_of ?st1"
    using release_ok [OF sm'(3) full1(1)] unfolding full1(2) by blast
  have fr: "frame a st st2" using frame_trans [OF frame_simps(3) rel(2)] .
  note run = retire_full_slab_def sm(1) sm' eq get_slab_def
  show ?thesis
  proof (cases "freed_at st a = {}")
    case True
    then show ?thesis using rel fr s sm' by (simp add: run)
  next
    case False
    then have inv2: "alloc_inv st2 Q1 C L {a}" "avail_at st2 a \<noteq> {}" "class_of st2 a (unat i)" "r = 0"
      using rel(4) cls by simp_all
    obtain h st3 where st3: "set_next a 0 (slabs st2) = Inr h" "alloc_send_slab (ob_send ob) a i (st2\<lparr>slabs := h\<rparr>) = Inr st3"
        "alloc_inv st3 (Q1(y := Q1 y @ [a])) C L {}" "blocks_at st3 = blocks_at st2" "current_slab st3 = current_slab st2" "same_region st2 st3"
      using unlink_send_ok [OF inv2(1) x(1,3) inv2(3)] unfolding y_def by blast
    have a3: "a \<in> set ((Q1(y := Q1 y @ [a])) y)" by simp
    obtain s3 where s3: "slabs st3 a = Some s3" "a \<in> members (Q1(y := Q1 y @ [a])) \<union> {} \<longleftrightarrow> slab_state s3 = OWNED"
      by (rule inv_slab [OF st3(3) queue_constructed [OF st3(3) a3]])
    have "slab_state s3 = OWNED" using s3(2) membersI [of a "Q1(y := Q1 y @ [a])" y, OF a3] by blast
    then have "retire_full_slab ob i a st = Inr (None, st3)" using s rel(1) inv2(4) st3(1,2) s3(1) by (simp add: run)
    moreover have "avail_at st3 a \<noteq> {}" using inv2(2) blocks_at_eq [of st3 a st2] st3(4) by simp
    ultimately show ?thesis
      using False st3(3,5) rel(3) frame_trans [OF fr frame_blocks [OF st3(4,6)]] by simp
  qed
qed

section \<open>One round\<close>

definition obs_ok :: "cpu_obs \<Rightarrow> bool" where
  "obs_ok ob \<longleftrightarrow> ob_start ob < NPROCS \<and> ob_alloc ob < NPROCS \<and> ob_cas ob < NPROCS \<and> ob_send ob < NPROCS"

lemma obs_ok_unat: "obs_ok ob \<Longrightarrow> unat (ob_start ob) < 8 \<and> unat (ob_send ob) < 8"
  by (simp add: obs_ok_def layout_consts word_less_nat_alt)

lemma round_head:
  assumes inv: "alloc_inv st Q C L {}" and i: "unat i < 11" and ob: "obs_ok ob"
  shows "Q (unat i, unat (ob_start ob)) = [] \<Longrightarrow> allocate_round ob i st = allocate_new_slab ob i st"
    and "Q (unat i, unat (ob_start ob)) = a # as \<Longrightarrow> allocate_round ob i st =
      bind_res (slab_op a (slab_allocate a (ob_start ob) (ob_alloc ob)) st) (\<lambda>(ret, st1).
        if ret < SUCCESS_BOUND then Inr (Some (a + payload_offset + ucast (slab_sizes ! unat i) * ret), st1)
        else if ret \<noteq> MIGRATED then retire_full_slab ob i a st1 else Inr (None, st1))"
proof -
  let ?x = "(unat i, unat (ob_start ob))"
  have c: "unat (ob_start ob) < 8" "\<not> NPROCS \<le> ob_start ob" using ob obs_ok_unat by (auto simp: obs_ok_def not_le)
  obtain sm where sm: "get_sm i (ob_start ob) st = Inr sm" "sm_ok (slabs st) sm (Q ?x) (C ?x)"
    using get_sm_ok [OF inv i c(1)] by blast
  have t: "available_slabs_tail sm mod sizeof_obj_slab = 0" using sm(2) by (simp add: sm_ok_def aligned_def)
  note h = head_cases [OF inv sm(2)]
  show "allocate_round ob i st = allocate_new_slab ob i st" if "Q ?x = []"
    using that h sm(1) t c by (simp add: allocate_round_def)
  show "allocate_round ob i st = bind_res (slab_op a (slab_allocate a (ob_start ob) (ob_alloc ob)) st) (\<lambda>(ret, st1).
        if ret < SUCCESS_BOUND then Inr (Some (a + payload_offset + ucast (slab_sizes ! unat i) * ret), st1)
        else if ret \<noteq> MIGRATED then retire_full_slab ob i a st1 else Inr (None, st1))" if q: "Q ?x = a # as"
  proof -
    have "constructed st a" using queue_constructed [OF inv, of a ?x] q by simp
    then have "a mod sizeof_obj_slab = 0" by (simp add: constructed_def aligned_def)
    moreover have "available_slabs_head sm = a" "a \<noteq> 0" using h q by auto
    ultimately show ?thesis using sm(1) t c by (simp add: allocate_round_def idx_to_size_ok [OF i] cong: if_cong)
  qed
qed

lemma round_take:
  assumes inv: "alloc_inv st Q C L {}" and i: "unat i < 11" and ob: "obs_ok ob" "ob_alloc ob = ob_start ob"
    and q: "Q (unat i, unat (ob_start ob)) = a # as" and ne: "avail_at st a \<noteq> {}"
  shows "\<exists>p st'. allocate_round ob i st = Inr (Some p, st') \<and> p \<notin> members C \<union> L \<and> addr_to_slab p = a
    \<and> alloc_inv st' Q C (insert p L) {} \<and> class_of st' (addr_to_slab p) (unat i)"
proof -
  have a: "a \<in> set (Q (unat i, unat (ob_start ob)))" using q by simp
  obtain ret st' p where t: "slab_op a (slab_allocate a (ob_start ob) (ob_start ob)) st = Inr (ret, st')" "ret < SUCCESS_BOUND"
      "p = a + payload_offset + ucast (slab_sizes ! unat i) * ret" "p \<notin> members C \<union> L" "addr_to_slab p = a"
      "alloc_inv st' Q C (insert p L) {}" "class_of st' a (unat i)"
    using take_ok [OF inv a ne] by blast
  have "allocate_round ob i st = Inr (Some p, st')"
    using t(1-3) by (simp add: round_head(2) [OF inv i ob(1) q] ob(2))
  then show ?thesis using t(4-7) by (intro exI [of _ p] exI [of _ st']) simp
qed

lemma round_migrated:
  assumes inv: "alloc_inv st Q C L {}" and i: "unat i < 11" and ob: "obs_ok ob" "ob_alloc ob \<noteq> ob_start ob"
    and q: "Q (unat i, unat (ob_start ob)) = a # as"
  shows "allocate_round ob i st = Inr (None, st)"
proof -
  have ca: "constructed st a" using queue_constructed [OF inv, of a "(unat i, unat (ob_start ob))"] q by simp
  obtain s where s: "slabs st a = Some s" by (rule inv_slab [OF inv ca])
  have "slab_allocate a (ob_start ob) (ob_alloc ob) s = Inr (MIGRATED, s)"
    using ca ob(2) by (simp add: slab_allocate_def constructed_def aligned_def)
  from slab_op_Inr [of st a s "slab_allocate a (ob_start ob) (ob_alloc ob)", OF s this]
  have "slab_op a (slab_allocate a (ob_start ob) (ob_alloc ob)) st = Inr (MIGRATED, st)"
    using s by (simp add: fun_upd_idem)
  then show ?thesis by (simp add: round_head(2) [OF inv i ob(1) q] SUCCESS_BOUND_def)
qed

lemma round_full:
  assumes inv: "alloc_inv st Q C L {}" and i: "unat i < 11" and ob: "obs_ok ob" "ob_alloc ob = ob_start ob"
    and q: "Q (unat i, unat (ob_start ob)) = a # as" and full: "avail_at st a = {}"
  defines "Q1 \<equiv> Q((unat i, unat (ob_start ob)) := as)" and "y \<equiv> (unat i, unat (ob_send ob))"
  shows "\<exists>st' Q'. allocate_round ob i st = Inr (None, st') \<and> alloc_inv st' Q' C L {} \<and> frame a st st'
    \<and> current_slab st' = current_slab st
    \<and> (ob_cas ob = ob_start ob \<longrightarrow> (if freed_at st a = {} then Q' = Q1 else Q' = Q1(y := Q1 y @ [a]) \<and> avail_at st' a \<noteq> {}))"
proof -
  have a: "a \<in> set (Q (unat i, unat (ob_start ob)))" using q by simp
  note u = obs_ok_unat [OF ob(1)]
  obtain st1 where f: "slab_op a (slab_allocate a (ob_start ob) (ob_start ob)) st = Inr (FULL, st1)" "alloc_inv st1 Q C L {}"
      "frame a st st1" "avail_at st1 a = {}" "freed_at st1 a = freed_at st a" "current_slab st1 = current_slab st"
    using full_ok [OF inv a full] by blast
  have run: "allocate_round ob i st = retire_full_slab ob i a st1"
    using f(1) by (simp add: round_head(2) [OF inv i ob(1) q] ob(2) slab_consts word_less_nat_alt)
  show ?thesis
  proof (cases "ob_cas ob = ob_start ob")
    case False
    then show ?thesis using run f(2,3,6) retire_stale [OF f(2) i] u by auto
  next
    case True
    obtain st' where st': "retire_full_slab ob i a st1 = Inr (None, st')" "frame a st1 st'" "current_slab st' = current_slab st1"
        "if freed_at st a = {} then alloc_inv st' Q1 C L {} else alloc_inv st' (Q1(y := Q1 y @ [a])) C L {} \<and> avail_at st' a \<noteq> {}"
      using retire_ok [OF f(2) i _ _ q True f(4)] u unfolding f(5) Q1_def y_def by blast
    moreover have "frame a st st'" using frame_trans [OF f(3) st'(2)] .
    ultimately show ?thesis using run f(6) by (cases "freed_at st a = {}") auto
  qed
qed

end
