(* ===== verification/Allocator_Correctness.thy ===== *)
theory Allocator_Correctness
  imports Allocator_Steps
begin

text \<open>
  The correctness of \<open>object_allocator\<close>: every call of \<open>_allocate\<close> and \<open>_free\<close>, with any
  migration of the thread between its critical sections, keeps the invariant and fails no
  assertion; hence the blocks the program holds never overlap. With no migration the loop of
  \<open>_allocate_inner\<close> ends.
\<close>

section \<open>Rounds and the loop\<close>

lemma block_nonzero:
  assumes "alloc_inv st Q C L H" and "p \<in> members C \<union> L"
  shows "1280 \<le> unat p"
proof -
  have "is_block st p" using invD(5) [OF assms(1)] assms(2) by (simp add: blocks_ok_def)
  then obtain s i where b: "constructed st (addr_to_slab p)" "slabs st (addr_to_slab p) = Some s"
      "i < nblocks_of (block_size s)" "p = block_addr (addr_to_slab p) (block_size s) i" "class_size (block_size s)"
    by (rule is_block_slab [OF assms(1)])
  have bs: "8 \<le> unat (block_size s)" "0 < unat (block_size s)" using class_size_bounds [OF b(5)] by simp_all
  have "unat (block_addr (addr_to_slab p) (block_size s) i) = unat (addr_to_slab p) + (1280 + unat (block_size s) * i)"
    by (rule unat_block_addr(2) [OF constructed_slab_room [OF invD(1) [OF assms(1)] b(1)] bs(1) b(3) bs(2)])
  then show ?thesis unfolding b(4) [symmetric] by simp
qed

lemma block_not_null: "alloc_inv st Q C L H \<Longrightarrow> p \<in> members C \<union> L \<Longrightarrow> p \<noteq> 0"
  using block_nonzero by fastforce

text \<open>The blocks the program holds after a call that returned \<open>r\<close>.\<close>

definition taken :: "u64 option \<Rightarrow> u64 set \<Rightarrow> u64 set" where
  "taken r L = (case r of None \<Rightarrow> L | Some p \<Rightarrow> if p = 0 then L else insert p L)"

definition fresh_block :: "u64 option \<Rightarrow> nat \<Rightarrow> u64 set \<Rightarrow> object_allocator \<Rightarrow> bool" where
  "fresh_block r k U st \<longleftrightarrow> (\<forall>p. r = Some p \<and> p \<noteq> 0 \<longrightarrow> p \<notin> U \<and> class_of st (addr_to_slab p) k)"

lemma taken_simps [simp]: "taken None L = L" "taken (Some 0) L = L" "p \<noteq> 0 \<Longrightarrow> taken (Some p) L = insert p L"
  by (simp_all add: taken_def)

lemma fresh_simps [simp]:
  "fresh_block None k U st" "fresh_block (Some 0) k U st"
  "p \<noteq> 0 \<Longrightarrow> fresh_block (Some p) k U st \<longleftrightarrow> p \<notin> U \<and> class_of st (addr_to_slab p) k"
  by (simp_all add: fresh_block_def)

lemma round_ok:
  assumes inv: "alloc_inv st Q C L {}" and i: "unat i < 11" and ob: "obs_ok ob"
  shows "\<exists>r st' Q'. allocate_round ob i st = Inr (r, st') \<and> alloc_inv st' Q' C (taken r L) {}
    \<and> fresh_block r (unat i) (members C \<union> L) st'
    \<and> (r = Some 0 \<longrightarrow> current_slab st = end_addr st \<and> Q (unat i, unat (ob_start ob)) = [] \<and> st' = st)"
proof (cases "Q (unat i, unat (ob_start ob))")
  case Nil
  note h = round_head(1) [OF inv i ob Nil]
  show ?thesis
  proof (cases "current_slab st < end_addr st")
    case True
    then obtain st' Q' where "allocate_new_slab ob i st = Inr (None, st')" "alloc_inv st' Q' C L {}"
      using new_round_ok [OF inv i _ True] obs_ok_unat [OF ob] by blast
    then show ?thesis unfolding h by (intro exI [of _ None] exI [of _ st'] exI [of _ Q']) simp
  next
    case False
    then have "current_slab st = end_addr st" using invD(1) [OF inv] by (simp add: geom_def)
    then show ?thesis unfolding h no_room_ok [OF False] using inv Nil
      by (intro exI [of _ "Some 0"] exI [of _ st] exI [of _ Q]) simp
  qed
next
  case (Cons a as)
  consider (mig) "ob_alloc ob \<noteq> ob_start ob" | (take) "ob_alloc ob = ob_start ob" "avail_at st a \<noteq> {}"
    | (full) "ob_alloc ob = ob_start ob" "avail_at st a = {}" by blast
  then show ?thesis
  proof cases
    case mig
    then show ?thesis unfolding round_migrated [OF inv i ob mig Cons] using inv
      by (intro exI [of _ None] exI [of _ st] exI [of _ Q]) simp
  next
    case take
    obtain p st' where t: "allocate_round ob i st = Inr (Some p, st')" "p \<notin> members C \<union> L"
        "alloc_inv st' Q C (insert p L) {}" "class_of st' (addr_to_slab p) (unat i)"
      using round_take [OF inv i ob take(1) Cons take(2)] by blast
    moreover have "p \<noteq> 0" using block_not_null [OF t(3)] by simp
    ultimately show ?thesis by (intro exI [of _ "Some p"] exI [of _ st'] exI [of _ Q]) simp
  next
    case full
    obtain st' Q' where t: "allocate_round ob i st = Inr (None, st')" "alloc_inv st' Q' C L {}"
      using round_full [OF inv i ob full(1) Cons full(2)] by blast
    then show ?thesis by (intro exI [of _ None] exI [of _ st'] exI [of _ Q']) simp
  qed
qed

lemma inner_ok:
  assumes "alloc_inv st Q C L {}" and "unat i < 11" and "\<forall>ob \<in> set obs. obs_ok ob"
  shows "\<exists>r st' Q'. allocate_inner obs i st = Inr (r, st') \<and> alloc_inv st' Q' C (taken r L) {}
    \<and> fresh_block r (unat i) (members C \<union> L) st'"
  using assms
proof (induction obs arbitrary: st Q)
  case (Cons ob obs)
  obtain r st1 Q1 where r: "allocate_round ob i st = Inr (r, st1)" "alloc_inv st1 Q1 C (taken r L) {}"
      "fresh_block r (unat i) (members C \<union> L) st1"
    using round_ok [OF Cons.prems(1,2), of ob] Cons.prems(3) by auto
  show ?case
  proof (cases r)
    case None
    then show ?thesis using Cons.IH [of st1 Q1] r Cons.prems by simp
  next
    case (Some p)
    then show ?thesis using r by (intro exI [of _ r] exI [of _ st1] exI [of _ Q1]) simp
  qed
qed (auto intro: exI [of _ Q for Q])

lemma unat_size_idx: "valid_size sz \<Longrightarrow> unat (size_to_idx sz) < 11"
  using size_to_idx_bound by (simp add: num_size_classes_def)

lemma allocate_ok:
  assumes inv: "alloc_inv st Q C L {}" and sz: "valid_size sz" and cpus: "pop_cpu < NPROCS" "\<forall>ob \<in> set obs. obs_ok ob"
  shows "\<exists>r st' Q' C'. allocate pop_cpu obs sz st = Inr (r, st') \<and> alloc_inv st' Q' C' (taken r L) {}
    \<and> fresh_block r (unat (size_to_idx sz)) L st'"
proof -
  let ?i = "size_to_idx sz"
  have i: "unat ?i < 11" by (rule unat_size_idx [OF sz])
  have c: "unat pop_cpu < 8" using cpus(1) by (simp add: layout_consts word_less_nat_alt)
  let ?x = "(unat ?i, unat pop_cpu)"
  obtain p st1 where pop: "try_pop pop_cpu ?i st = Inr (p, st1)"
      "if C ?x = [] then p = 0 \<and> alloc_inv st1 Q C L {}
       else p = hd (C ?x) \<and> p \<in> members C \<and> class_of st1 (addr_to_slab p) (unat ?i) \<and> alloc_inv st1 Q (C(?x := tl (C ?x))) (insert p L) {}"
    using pop_ok [OF inv i c] by blast
  show ?thesis
  proof (cases "C ?x = []")
    case True
    then have p: "p = 0" "alloc_inv st1 Q C L {}" using pop(2) by simp_all
    obtain r st' Q' where "allocate_inner obs ?i st1 = Inr (r, st')" "alloc_inv st' Q' C (taken r L) {}"
        "fresh_block r (unat ?i) (members C \<union> L) st'"
      using inner_ok [OF p(2) i cpus(2)] by blast
    then show ?thesis using pop(1) p(1) by (auto simp: allocate_def fresh_block_def)
  next
    case False
    then have p: "p \<in> members C" "class_of st1 (addr_to_slab p) (unat ?i)"
        "alloc_inv st1 Q (C(?x := tl (C ?x))) (insert p L) {}" using pop(2) by auto
    have big: "1280 \<le> unat p" using block_nonzero [OF inv] p(1) by simp
    then have run: "allocate pop_cpu obs sz st = Inr (Some p, st1)"
      using pop(1) by (simp add: allocate_def word_less_nat_alt layout_consts)
    have "p \<noteq> 0" using big by auto
    moreover have "p \<notin> L" using p(1) invD(8) [OF inv] by blast
    ultimately show ?thesis using run p by (intro exI [of _ "Some p"] exI [of _ st1] exI [of _ Q] exI) auto
  qed
qed

section \<open>Freeing\<close>

lemma slab_free_ok:
  assumes room: "slab_room a" and ok: "slab_ok U a s" and p: "p = block_addr a (block_size s) i" "p \<in> U"
    and i: "i < nblocks_of (block_size s)"
  shows "\<exists>s'. slab_free (p - a) s = Inr (if slab_state s = UNOWNED then 1 else 0, s')
    \<and> slab_ok (U - {p}) a (s'\<lparr>slab_state := OWNED\<rparr>) \<and> block_size s' = block_size s
    \<and> next_slab s' = next_slab s \<and> slab_state s' = slab_state s"
proof -
  let ?bs = "block_size s" and ?N = "\<lambda>U. {i. i < nblocks_of (block_size s) \<and> block_addr a (block_size s) i \<notin> U}"
  have wf: "slab_wf s" and cs: "class_size ?bs" and dis: "avail s \<inter> freed s = {}" and part: "avail s \<union> freed s = ?N U"
    using ok by (simp_all add: slab_ok_def)
  have bs: "8 \<le> unat ?bs" "0 < unat ?bs" using class_size_bounds [OF cs] by simp_all
  note u = unat_block_addr(2) [OF room bs(1) i bs(2)]
  have off: "unat (p - a) = 1280 + (unat ?bs * i + 0)" unfolding p(1) using u by (subst unat_sub) (simp_all add: word_le_nat_alt)
  obtain s' where s': "slab_free (p - a) s = Inr (if slab_state s = UNOWNED \<and> freed_slots s ! (i div 64) = 0 then 1 else 0, s')"
      "slab_wf s'" "freed s' = insert i (freed s)" "avail s' = avail s" "slab_state s' = slab_state s"
      "next_slab s' = next_slab s" "block_size s' = ?bs"
    using slab_free_block [OF wf bs(1) i bs(2) off] by blast
  have i4: "i div 64 < 64" using i nblocks_le [OF bs(1)] by (intro block_div_bound) linarith
  have "freed_slots s ! (i div 64) = 0" if "slab_state s = UNOWNED"
  proof -
    have "freed s = {}" using that ok by (simp add: slab_ok_def)
    then have "freed_vecs s = 0" using freed_empty_iff [OF wf] by simp
    then show ?thesis using wf i4 by (simp add: slab_wf_def)
  qed
  moreover have "i \<notin> avail s \<union> freed s" unfolding part using p by simp
  moreover have "block_addr a ?bs j = p \<longleftrightarrow> j = i" if "j < nblocks_of ?bs" for j
    using block_addr_inj [OF room bs(1) that i] p(1) by blast
  then have "?N (U - {p}) = insert i (?N U)" using i by blast
  then have "avail s \<union> insert i (freed s) = ?N (U - {p})" using part by simp
  ultimately have "slab_ok (U - {p}) a (s'\<lparr>slab_state := OWNED\<rparr>)"
    using s' cs dis by (simp add: slab_ok_def slab_wf_def OWNED_def UNOWNED_def)
  then show ?thesis using s' \<open>slab_state s = UNOWNED \<Longrightarrow> freed_slots s ! (i div 64) = 0\<close> by auto
qed

lemma class_index:
  assumes "class_size bs"
  obtains k where "k < 11" "bs = slab_sizes ! k" "unat (size_to_idx bs) = k"
proof -
  obtain k where k: "k < 11" "bs = slab_sizes ! k"
    using assms by (auto simp: class_size_def in_set_conv_nth num_size_classes_def)
  then have "size_to_idx bs = of_nat k" using size_to_idx_slab_sizes [of k] by (simp add: num_size_classes_def)
  then have "unat (size_to_idx bs) = k" using k(1) by (simp add: unat_of_nat)
  then show thesis using that k by blast
qed

text \<open>The block goes back to its slab; an unowned slab goes to the list of the core it was freed on.\<close>

lemma free_to_slab_ok:
  assumes inv: "alloc_inv st Q C L {}" and p: "p \<in> L" and c: "unat c < 8"
    and s: "slabs st (addr_to_slab p) = Some s" "block_size s = slab_sizes ! unat i" "unat i < 11"
  shows "\<exists>r st1. slab_op (addr_to_slab p) (slab_free (p - addr_to_slab p)) st = Inr (r, st1) \<and>
    (if slab_state s = UNOWNED then r = 1 \<and> (\<exists>st2 h st3 Q'. slab_op (addr_to_slab p) (\<lambda>s. Inr (set_owned s)) st1 = Inr (1, st2)
        \<and> (\<exists>s2. slabs st2 (addr_to_slab p) = Some s2 \<and> slab_state s2 = OWNED) \<and> set_next (addr_to_slab p) 0 (slabs st2) = Inr h
        \<and> alloc_send_slab c (addr_to_slab p) i (st2\<lparr>slabs := h\<rparr>) = Inr st3 \<and> alloc_inv st3 Q' C (L - {p}) {})
     else r = 0 \<and> alloc_inv st1 Q C (L - {p}) {})"
proof -
  let ?a = "addr_to_slab p"
  have "is_block st p" using invD(5) [OF inv] p by (simp add: blocks_ok_def)
  then obtain t j where b: "constructed st ?a" "slabs st ?a = Some t" "j < nblocks_of (block_size t)"
      "p = block_addr ?a (block_size t) j" "class_size (block_size t)" by (rule is_block_slab [OF inv])
  then have b': "j < nblocks_of (block_size s)" "p = block_addr ?a (block_size s) j" using s(1) by simp_all
  have room: "slab_room ?a" by (rule constructed_slab_room [OF invD(1) [OF inv] b(1)])
  obtain t' where t: "slabs st ?a = Some t'" "slab_ok (members C \<union> L) ?a t'" "?a \<in> members Q \<union> {} \<longleftrightarrow> slab_state t' = OWNED"
    by (rule inv_slab [OF inv b(1)])
  then have ok: "slab_ok (members C \<union> L) ?a s" "?a \<in> members Q \<longleftrightarrow> slab_state s = OWNED" using s(1) by simp_all
  obtain s' where s': "slab_free (p - ?a) s = Inr (if slab_state s = UNOWNED then 1 else 0, s')"
      "slab_ok ((members C \<union> L) - {p}) ?a (s'\<lparr>slab_state := OWNED\<rparr>)" "block_size s' = block_size s"
      "next_slab s' = next_slab s" "slab_state s' = slab_state s"
    using slab_free_ok [OF room ok(1) b'(2) _ b'(1)] p by blast
  have U: "(members C \<union> L) - {p} = members C \<union> (L - {p})" using p invD(8) [OF inv] by blast
  let ?st1 = "st\<lparr>slabs := (slabs st)(?a \<mapsto> s')\<rparr>" and ?o = "s'\<lparr>slab_state := OWNED\<rparr>"
  let ?st2 = "st\<lparr>slabs := (slabs st)(?a \<mapsto> ?o)\<rparr>"
  have run: "slab_op ?a (slab_free (p - ?a)) st = Inr (if slab_state s = UNOWNED then 1 else 0, ?st1)"
    by (rule slab_op_Inr [of st ?a s "slab_free (p - ?a)", OF s(1) s'(1)])
  have inv2: "alloc_inv ?st2 Q C (L - {p}) (if slab_state s = UNOWNED then {?a} else {})"
    using s'(2-4) U ok(2) invD(5,8) [OF inv] ok(1)
    by (intro inv_update_slab [OF inv b(1) s(1)]) (auto simp: blocks_ok_def slab_ok_def slab_wf_def OWNED_def UNOWNED_def)
  show ?thesis
  proof (cases "slab_state s = UNOWNED")
    case True
    have own: "slab_op ?a (\<lambda>s. Inr (set_owned s)) ?st1 = Inr (1, ?st2)"
      using set_owned_unowned [of s'] True s'(5) by (simp add: slab_op_def get_slab_def)
    have "class_of ?st2 ?a (unat i)" using s(2) s'(3) by (simp add: class_of_def)
    then obtain h st3 where "set_next ?a 0 (slabs ?st2) = Inr h" "alloc_send_slab c ?a i (?st2\<lparr>slabs := h\<rparr>) = Inr st3"
        "alloc_inv st3 (Q((unat i, unat c) := Q (unat i, unat c) @ [?a])) C (L - {p}) {}"
      using unlink_send_ok [of ?st2 Q C "L - {p}" ?a i c] inv2 True s(3) c by auto
    then show ?thesis using run own True by fastforce
  next
    case False
    then have "s' = ?o" using ok(1) s'(5) by (auto simp: slab_ok_def slab_wf_def)
    then show ?thesis using run inv2 False by simp
  qed
qed

lemma free_ok:
  assumes inv: "alloc_inv st Q C L {}" and p: "p \<in> L" and cpus: "push_cpu < NPROCS" "send_cpu < NPROCS"
  shows "\<exists>st' Q' C'. free push_cpu send_cpu p st = Inr st' \<and> alloc_inv st' Q' C' (L - {p}) {}"
proof -
  let ?a = "addr_to_slab p"
  have c: "unat push_cpu < 8" "unat send_cpu < 8" using cpus by (simp_all add: layout_consts word_less_nat_alt)
  have "is_block st p" using invD(5) [OF inv] p by (simp add: blocks_ok_def)
  then obtain s j where b: "constructed st ?a" "slabs st ?a = Some s" "j < nblocks_of (block_size s)"
      "p = block_addr ?a (block_size s) j" "class_size (block_size s)" by (rule is_block_slab [OF inv])
  let ?i = "size_to_idx (block_size s)"
  obtain k where k: "k < 11" "block_size s = slab_sizes ! k" "unat ?i = k" by (rule class_index [OF b(5)])
  have cls: "class_of st ?a (unat ?i)" using b(2) k by (simp add: class_of_def)
  have al: "?a mod sizeof_obj_slab = 0" using b(1) by (simp add: constructed_def aligned_def)
  let ?x = "(unat ?i, unat push_cpu)"
  obtain r st1 where push: "try_push push_cpu p ?i st = Inr (r, st1)"
      "if length (C ?x) = 13 then r = 1 \<and> alloc_inv st1 Q C L {} \<and> slabs st1 = slabs st \<and> constructed st1 = constructed st
       else r = 0 \<and> alloc_inv st1 Q (C(?x := p # C ?x)) (L - {p}) {}"
    using push_ok [OF inv _ c(1) p cls] k by blast
  note run = free_def get_slab_def b(2) push(1) al
  show ?thesis
  proof (cases "length (C ?x) = 13")
    case False
    then show ?thesis using push(2) by (auto simp: run)
  next
    case True
    then have st1: "r = 1" "alloc_inv st1 Q C L {}" "slabs st1 ?a = Some s" using push(2) b(2) by simp_all
    obtain r2 st2 where f: "slab_op ?a (slab_free (p - ?a)) st1 = Inr (r2, st2)"
        "if slab_state s = UNOWNED then r2 = 1 \<and> (\<exists>st3 h st4 Q'. slab_op ?a (\<lambda>s. Inr (set_owned s)) st2 = Inr (1, st3)
            \<and> (\<exists>s2. slabs st3 ?a = Some s2 \<and> slab_state s2 = OWNED) \<and> set_next ?a 0 (slabs st3) = Inr h
            \<and> alloc_send_slab send_cpu ?a ?i (st3\<lparr>slabs := h\<rparr>) = Inr st4 \<and> alloc_inv st4 Q' C (L - {p}) {})
         else r2 = 0 \<and> alloc_inv st2 Q C (L - {p}) {}"
      using free_to_slab_ok [OF st1(2) p c(2) st1(3), of ?i] k by auto
    show ?thesis
    proof (cases "slab_state s = UNOWNED")
      case True
      then show ?thesis using f st1(1) by (auto simp: run) blast
    next
      case False
      then show ?thesis using f st1(1) by (auto simp: run)
    qed
  qed
qed

section \<open>The loop ends when the thread stays on its core\<close>

definition one_core :: "u32 \<Rightarrow> cpu_obs" where
  "one_core c = \<lparr>ob_start = c, ob_alloc = c, ob_cas = c, ob_send = c\<rparr>"

lemma one_core_simps [simp]:
  "ob_start (one_core c) = c" "ob_alloc (one_core c) = c" "ob_cas (one_core c) = c" "ob_send (one_core c) = c"
  "obs_ok (one_core c) \<longleftrightarrow> c < NPROCS"
  by (simp_all add: one_core_def obs_ok_def)

lemma inner_live_head:
  assumes inv: "alloc_inv st Q C L {}" and i: "unat i < 11" and c: "c < NPROCS"
    and q: "Q (unat i, unat c) = b # bs" and av: "avail_at st b \<noteq> {}"
  shows "\<exists>p st'. allocate_inner (replicate (Suc n) (one_core c)) i st = Inr (Some p, st')"
proof -
  obtain p st' where "allocate_round (one_core c) i st = Inr (Some p, st')"
    using round_take [OF inv i, of "one_core c" b bs] q av c by auto
  then show ?thesis by simp
qed

lemma inner_live_empty:
  assumes inv: "alloc_inv st Q C L {}" and i: "unat i < 11" and c: "c < NPROCS" and q: "Q (unat i, unat c) = []"
  shows "\<exists>p st'. allocate_inner (replicate (Suc (Suc n)) (one_core c)) i st = Inr (Some p, st')"
proof (cases "current_slab st < end_addr st")
  case True
  let ?a = "current_slab st"
  have c8: "unat c < 8" using c by (simp add: layout_consts word_less_nat_alt)
  obtain st1 where st1: "allocate_new_slab (one_core c) i st = Inr (None, st1)"
      "alloc_inv st1 (Q((unat i, unat c) := [?a])) C L {}" "avail_at st1 ?a \<noteq> {}"
    using new_round_ok [OF inv i, of "one_core c"] True c8 q by auto
  have "allocate_round (one_core c) i st = Inr (None, st1)"
    using round_head(1) [OF inv i, of "one_core c"] q c st1(1) by simp
  moreover have "\<exists>p st'. allocate_inner (replicate (Suc n) (one_core c)) i st1 = Inr (Some p, st')"
    by (rule inner_live_head [OF st1(2) i c _ st1(3)]) simp
  ultimately show ?thesis by simp
next
  case False
  then show ?thesis using round_head(1) [OF inv i, of "one_core c"] q c no_room_ok [OF False] by simp
qed

lemma inner_live:
  assumes "alloc_inv st Q C L {}" and i: "unat i < 11" and c: "c < NPROCS"
    and "Q (unat i, unat c) = xs @ ys" and "\<forall>b \<in> set ys. avail_at st b \<noteq> {}" and "length xs + 2 \<le> n"
  shows "\<exists>p st'. allocate_inner (replicate n (one_core c)) i st = Inr (Some p, st')"
  using assms(1,4-6)
proof (induction xs arbitrary: st Q ys n)
  case Nil
  obtain m where n: "n = Suc (Suc m)" using Nil.prems(4) by (auto simp: le_iff_add)
  show ?case
  proof (cases ys)
    case Nil': Nil
    then show ?thesis unfolding n using Nil.prems by (intro inner_live_empty [OF Nil.prems(1) i c]) simp
  next
    case (Cons b bs)
    then show ?thesis unfolding n using Nil.prems by (intro inner_live_head [OF Nil.prems(1) i c]) auto
  qed
next
  case (Cons a xs)
  obtain m where n: "n = Suc m" "length xs + 2 \<le> m" using Cons.prems(4) by (cases n) auto
  have q: "Q (unat i, unat c) = a # (xs @ ys)" using Cons.prems(2) by simp
  show ?case
  proof (cases "avail_at st a = {}")
    case False
    then show ?thesis unfolding n by (rule inner_live_head [OF Cons.prems(1) i c q])
  next
    case True
    have "distinct (a # xs @ ys)" using invD(6) [OF Cons.prems(1)] q by (metis fam_ok_def)
    then have na: "\<forall>b \<in> set ys. b \<noteq> a" by auto
    obtain st1 Q1 where r: "allocate_round (one_core c) i st = Inr (None, st1)" "alloc_inv st1 Q1 C L {}" "frame a st st1"
        "if freed_at st a = {} then Q1 = Q((unat i, unat c) := xs @ ys)
         else Q1 = (Q((unat i, unat c) := xs @ ys))((unat i, unat c) := (Q((unat i, unat c) := xs @ ys)) (unat i, unat c) @ [a])
           \<and> avail_at st1 a \<noteq> {}"
      using round_full [OF Cons.prems(1) i, of "one_core c" a "xs @ ys", unfolded one_core_simps, OF c refl q True] by blast
    have ys: "\<forall>b \<in> set ys. avail_at st1 b \<noteq> {}" using frameD [OF r(3)] na Cons.prems(3) by simp
    have "\<exists>p st'. allocate_inner (replicate m (one_core c)) i st1 = Inr (Some p, st')"
    proof (cases "freed_at st a = {}")
      case True
      then show ?thesis using r(4) ys n(2) by (intro Cons.IH [OF r(2), of ys]) simp_all
    next
      case False
      then show ?thesis using r(4) ys n(2) by (intro Cons.IH [OF r(2), of "ys @ [a]"]) auto
    qed
    then show ?thesis unfolding n(1) using r(1) by simp
  qed
qed

section \<open>Construction and reset\<close>

lemma region_bounds:
  assumes "unat mem + unat len < 2 ^ 64" and "45440 \<le> unat len"
  defines "lo \<equiv> mem + sizeof_memory_layout" and "n \<equiv> len - sizeof_memory_layout"
  shows "\<exists>e. calculate_end lo n = Inr e \<and> aligned e \<and> aligned (calculate_start lo) \<and> calculate_start lo \<le> e
    \<and> mem < calculate_start lo \<and> unat lo = unat mem + 11392 \<and> unat n = unat len - 11392
    \<and> unat lo \<le> unat (calculate_start lo) \<and> unat (calculate_start lo) < unat lo + 34048
    \<and> unat e \<le> unat lo + unat n \<and> unat lo + unat n < unat e + 34048"
proof -
  let ?S = "calculate_start lo"
  have lo: "unat lo = unat mem + 11392" using assms(1,2) by (simp add: lo_def layout_consts unat_word_ariths(1))
  have n: "unat n = unat len - 11392" unfolding n_def layout_consts
    using assms(2) by (subst unat_sub) (simp_all add: word_le_nat_alt)
  have pos: "0 < sizeof_obj_slab" by (simp add: sizeof_obj_slab_eq)
  have "unat lo + unat sizeof_obj_slab \<le> 2 ^ LENGTH(64)" using lo assms(1,2) by (simp add: sizeof_obj_slab_eq)
  note s = roundup_bounds [OF pos this, folded calculate_start_def, unfolded sizeof_obj_slab_eq(2)]
  have off: "unat (?S - lo) = unat ?S - unat lo" using s(2) by (intro unat_sub) (simp add: word_le_nat_alt)
  have d: "unat (n - (?S - lo)) = unat n - (unat ?S - unat lo)"
    using off n s assms(2) by (subst unat_sub) (simp_all add: word_le_nat_alt)
  let ?r = "rounddown (n - (?S - lo)) sizeof_obj_slab"
  note r = rounddown_bounds [OF pos, of "n - (?S - lo)", unfolded sizeof_obj_slab_eq(2) d]
  have e: "unat (?S + ?r) = unat ?S + unat ?r" using r(2) s n lo assms by (simp add: unat_word_ariths(1))
  have al: "aligned ?S" "aligned ?r" "aligned (?S + ?r)" using s(1) r(1) e by (simp_all add: aligned_iff)
  have "calculate_end lo n = Inr (?S + ?r)"
    using s(2) al by (simp add: calculate_end_def aligned_def word_le_nat_alt)
  moreover have "unat ?S + unat ?r \<le> unat lo + unat n" "unat lo + unat n < unat ?S + unat ?r + 34048"
    using r(2,3) s(2,3) n assms(2) by linarith+
  ultimately show ?thesis using al e s lo n by (simp add: word_le_nat_alt word_less_nat_alt)
qed

lemma zero_managers_ok: "slab_managers st = zero_managers \<Longrightarrow> sms_ok st (\<lambda>_. []) (\<lambda>_. [])"
  by (simp add: sms_ok_def zero_managers_def num_size_classes_def layout_consts zero_manager_def sm_ok_def
      sm_rep_def fc_rep_def cache_size_eq aligned_def)

lemma fam_empty [simp]: "fam_ok (\<lambda>_. [])" "members (\<lambda>_. []) = {}"
  by (simp_all add: fam_ok_def members_def)

lemma map_ok:
  assumes mm: "mmap len reserve = Some mem" and w: "unat mem + unat len < 2 ^ 64" and big: "45440 \<le> unat len"
  shows "\<exists>st. object_allocator_map mmap len reserve = Inr st \<and> alloc_inv st (\<lambda>_. []) (\<lambda>_. []) {} {}
    \<and> m_addr st = mem \<and> raw_region_size st = len \<and> current_slab st = region_start st
    \<and> unat mem + 11392 \<le> unat (region_start st) \<and> unat (region_start st) < unat mem + 45440
    \<and> unat (end_addr st) \<le> unat mem + unat len \<and> unat mem + unat len < unat (end_addr st) + 34048"
proof -
  let ?lo = "mem + sizeof_memory_layout" and ?n = "len - sizeof_memory_layout"
  let ?S = "calculate_start ?lo"
  obtain e where e: "calculate_end ?lo ?n = Inr e" "aligned e" "aligned ?S" "?S \<le> e" "mem < ?S"
      "unat ?lo = unat mem + 11392" "unat ?n = unat len - 11392" "unat ?lo \<le> unat ?S" "unat ?S < unat ?lo + 34048"
      "unat e \<le> unat ?lo + unat ?n" "unat ?lo + unat ?n < unat e + 34048"
    using region_bounds [OF w big] by blast
  let ?st = "\<lparr>m_addr = mem, end_addr = e, slab_managers = zero_managers, current_slab = ?S, raw_region_size = len,
    slabs = zero_slabs ?lo ?n\<rparr>"
  have "object_allocator_map mmap len reserve = Inr ?st"
    using mm e(1,2,3) by (simp add: object_allocator_map_def safe_mmap_def object_allocator_ctor_def
        memory_layout_ctor_def slab_allocator_ctor_def aligned_def)
  moreover have con: "\<not> constructed ?st a" for a by (auto simp: constructed_def region_start_def)
  have "zero_slabs ?lo ?n a = Some zero_slab" if "aligned a" "?S \<le> a" "a < e" for a
    using that aligned_less_step [OF that(1) e(2) that(3)] e(8,10)
    by (simp add: zero_slabs_def aligned_def word_le_nat_alt sizeof_obj_slab_eq)
  then have "core ?st (\<lambda>_. []) (\<lambda>_. []) {} {}"
    using e con by (simp add: core_def geom_def region_start_def slabs_ok_def queue_ok_def blocks_ok_def)
  then have "alloc_inv ?st (\<lambda>_. []) (\<lambda>_. []) {} {}" by (simp add: alloc_inv_def zero_managers_ok)
  ultimately show ?thesis using e big by (simp add: region_start_def)
qed

text \<open>No operation changes the region.\<close>

lemma slab_op_region: "slab_op a f st = Inr (r, st') \<Longrightarrow> same_region st st'"
  by (auto simp: slab_op_def)

lemma send_region: "alloc_send_slab c a i st = Inr st' \<Longrightarrow> same_region st st'"
  by (auto simp: alloc_send_slab_def)

lemma cache_region:
  "try_pop c i st = Inr (r, st') \<Longrightarrow> same_region st st'" "try_push c p i st = Inr (r, st') \<Longrightarrow> same_region st st'"
  by (auto simp: try_pop_def try_push_def)

lemma same_region_step:
  "same_region (st\<lparr>slabs := h\<rparr>) st' \<longleftrightarrow> same_region st st'"
  "same_region (st\<lparr>current_slab := x\<rparr>) st' \<longleftrightarrow> same_region st st'"
  "same_region (put_sm i c sm st) st' \<longleftrightarrow> same_region st st'"
  by (simp_all add: same_region_def)

lemma round_region:
  assumes "allocate_round ob i st = Inr (r, st')"
  shows "same_region st st'"
proof -
  have new: "same_region st st'" if "allocate_new_slab ob i st = Inr (r, st')" for st st' r
    using that by (auto simp: allocate_new_slab_def slab_new_def Let_def same_region_step
        split: if_splits dest!: slab_op_region send_region intro: same_region_trans) (simp add: same_region_def)+
  have ret: "same_region st st'" if "retire_full_slab ob i a st = Inr (r, st')" for st st' r a
    using that by (auto simp: retire_full_slab_def Let_def same_region_step
        split: if_splits dest!: slab_op_region send_region intro: same_region_trans)
  show ?thesis
    using assms by (auto simp: allocate_round_def Let_def split: if_splits
        dest!: slab_op_region new ret intro: same_region_trans)
qed

lemma inner_region: "allocate_inner obs i st = Inr (r, st') \<Longrightarrow> same_region st st'"
proof (induction obs arbitrary: st)
  case (Cons ob obs)
  then show ?case by (auto split: option.splits dest!: round_region intro: same_region_trans)
qed simp

lemma allocate_region: "allocate c obs sz st = Inr (r, st') \<Longrightarrow> same_region st st'"
  by (auto simp: allocate_def Let_def split: if_splits dest!: cache_region(1) inner_region intro: same_region_trans)

lemma free_region: "free c d p st = Inr st' \<Longrightarrow> same_region st st'"
  by (auto simp: free_def Let_def same_region_step split: if_splits
      dest!: cache_region(2) slab_op_region send_region intro: same_region_trans) (simp add: same_region_def)

section \<open>Runs of the allocator\<close>

text \<open>
  A program's use of the allocator: the state with the set of blocks the program holds. It
  asks for blocks of a served size and frees blocks it holds, from any core, and its threads
  move between cores at any point outside the critical sections.
\<close>

inductive heap_step :: "object_allocator \<times> u64 set \<Rightarrow> object_allocator \<times> u64 set \<Rightarrow> bool" where
  alloc: "valid_size sz \<Longrightarrow> c < NPROCS \<Longrightarrow> \<forall>ob \<in> set obs. obs_ok ob \<Longrightarrow> allocate c obs sz st = Inr (r, st')
    \<Longrightarrow> heap_step (st, L) (st', taken r L)"
| free: "p \<in> L \<Longrightarrow> c < NPROCS \<Longrightarrow> d < NPROCS \<Longrightarrow> free c d p st = Inr st' \<Longrightarrow> heap_step (st, L) (st', L - {p})"

inductive heap_run :: "object_allocator \<Rightarrow> object_allocator \<Rightarrow> u64 set \<Rightarrow> bool" for st0 where
  start: "heap_run st0 st0 {}"
| step: "heap_run st0 st L \<Longrightarrow> heap_step (st, L) (st', L') \<Longrightarrow> heap_run st0 st' L'"

inductive_cases heap_stepE: "heap_step (st, L) (st', L')"

text \<open>A freshly mapped allocator: a region that does not wrap around and holds at least one slab.\<close>

definition fresh_allocator :: "(u64 \<Rightarrow> bool \<Rightarrow> u64 option) \<Rightarrow> u64 \<Rightarrow> bool \<Rightarrow> object_allocator \<Rightarrow> bool" where
  "fresh_allocator mmap len reserve st \<longleftrightarrow> object_allocator_map mmap len reserve = Inr st
     \<and> (\<exists>mem. mmap len reserve = Some mem \<and> unat mem + unat len < 2 ^ 64) \<and> 45440 \<le> unat len"

lemma fresh_inv: "fresh_allocator mmap len reserve st \<Longrightarrow> alloc_inv st (\<lambda>_. []) (\<lambda>_. []) {} {}"
  unfolding fresh_allocator_def using map_ok by fastforce

lemma heap_step_inv:
  assumes "heap_step (st, L) (st', L')" and "alloc_inv st Q C L {}"
  shows "\<exists>Q' C'. alloc_inv st' Q' C' L' {}"
proof (rule heap_stepE [OF assms(1)])
  fix sz c obs r
  assume "L' = taken r L" "valid_size sz" "c < NPROCS" "\<forall>ob \<in> set obs. obs_ok ob" "allocate c obs sz st = Inr (r, st')"
  then show ?thesis using allocate_ok [OF assms(2), of sz c obs] by auto
next
  fix p c d
  assume "L' = L - {p}" "p \<in> L" "c < NPROCS" "d < NPROCS" "free c d p st = Inr st'"
  then show ?thesis using free_ok [OF assms(2), of p c d] by auto
qed

lemma heap_run_inv:
  assumes "heap_run st0 st L" and "fresh_allocator mmap len reserve st0"
  shows "\<exists>Q C. alloc_inv st Q C L {}"
  using assms(1)
proof induction
  case start
  then show ?case using fresh_inv [OF assms(2)] by blast
next
  case (step st L st' L')
  then show ?case using heap_step_inv by blast
qed

lemma heap_run_region: "heap_run st0 st L \<Longrightarrow> same_region st0 st"
proof (induction rule: heap_run.induct)
  case (step st L st' L')
  from step.hyps(2) have "same_region st st'"
    by (rule heap_stepE) (auto dest: allocate_region free_region)
  then show ?case using step.IH same_region_trans by blast
qed simp

section \<open>The bytes of the blocks\<close>

definition block_bytes :: "object_allocator \<Rightarrow> u64 \<Rightarrow> nat set" where
  "block_bytes st p = (case slabs st (addr_to_slab p) of None \<Rightarrow> {}
     | Some s \<Rightarrow> {unat p ..< unat p + unat (block_size s)})"

lemma block_placed:
  assumes inv: "alloc_inv st Q C L {}" and p: "p \<in> members C \<union> L"
  obtains s i where "constructed st (addr_to_slab p)" "slabs st (addr_to_slab p) = Some s" "i < nblocks_of (block_size s)"
    "unat p = unat (addr_to_slab p) + (1280 + unat (block_size s) * i)" "class_size (block_size s)"
    "block_bytes st p = {unat p ..< unat p + unat (block_size s)}"
    "1280 + unat (block_size s) * i + unat (block_size s) \<le> 34048" "slab_room (addr_to_slab p)"
proof -
  have "is_block st p" using invD(5) [OF inv] p by (simp add: blocks_ok_def)
  then obtain s i where b: "constructed st (addr_to_slab p)" "slabs st (addr_to_slab p) = Some s"
      "i < nblocks_of (block_size s)" "p = block_addr (addr_to_slab p) (block_size s) i" "class_size (block_size s)"
    by (rule is_block_slab [OF inv])
  have room: "slab_room (addr_to_slab p)" by (rule constructed_slab_room [OF invD(1) [OF inv] b(1)])
  have bs: "8 \<le> unat (block_size s)" "unat (block_size s) - 1 < unat (block_size s)" "0 < unat (block_size s)"
    using class_size_bounds [OF b(5)] by simp_all
  have u: "unat p = unat (addr_to_slab p) + (1280 + unat (block_size s) * i)"
    by (subst b(4)) (rule unat_block_addr(2) [OF room bs(1) b(3) bs(3)])
  have "1280 + unat (block_size s) * i + unat (block_size s) \<le> 34048"
    using unat_block_addr(3) [OF room bs(1) b(3) bs(2)] by linarith
  then show thesis using that [OF b(1-3) u b(5)] b(2) room by (simp add: block_bytes_def)
qed

lemma slabs_apart:
  assumes "aligned a" and "aligned b" and "a \<noteq> b"
  shows "unat a + 34048 \<le> unat b \<or> unat b + 34048 \<le> unat a"
  using aligned_less_step [OF assms(1,2)] aligned_less_step [OF assms(2,1)] assms(3) by (cases a b rule: linorder_cases) auto

lemma blocks_disjoint:
  assumes inv: "alloc_inv st Q C L {}" and p: "p \<in> members C \<union> L" and q: "q \<in> members C \<union> L" and ne: "p \<noteq> q"
  shows "block_bytes st p \<inter> block_bytes st q = {}"
proof -
  obtain s i where P: "constructed st (addr_to_slab p)" "slabs st (addr_to_slab p) = Some s" "i < nblocks_of (block_size s)"
    "unat p = unat (addr_to_slab p) + (1280 + unat (block_size s) * i)" "class_size (block_size s)"
    "block_bytes st p = {unat p ..< unat p + unat (block_size s)}"
    "1280 + unat (block_size s) * i + unat (block_size s) \<le> 34048" "slab_room (addr_to_slab p)"
    by (rule block_placed [OF inv p])
  obtain t j where R: "constructed st (addr_to_slab q)" "slabs st (addr_to_slab q) = Some t" "j < nblocks_of (block_size t)"
    "unat q = unat (addr_to_slab q) + (1280 + unat (block_size t) * j)" "class_size (block_size t)"
    "block_bytes st q = {unat q ..< unat q + unat (block_size t)}"
    "1280 + unat (block_size t) * j + unat (block_size t) \<le> 34048" "slab_room (addr_to_slab q)"
    by (rule block_placed [OF inv q])
  show ?thesis
  proof (cases "addr_to_slab p = addr_to_slab q")
    case False
    then have "unat (addr_to_slab p) + 34048 \<le> unat (addr_to_slab q) \<or> unat (addr_to_slab q) + 34048 \<le> unat (addr_to_slab p)"
      using P(1) R(1) by (intro slabs_apart) (simp_all add: constructed_def)
    then show ?thesis unfolding P(6) R(6) using P(4,7) R(4,7) by auto
  next
    case True
    then have st: "t = s" using P(2) R(2) by simp
    have "i \<noteq> j" using ne P(4) R(4) True st by (auto simp: word_unat_eq_iff)
    then have "Suc i \<le> j \<or> Suc j \<le> i" by linarith
    then have "unat (block_size s) * Suc i \<le> unat (block_size s) * j \<or> unat (block_size s) * Suc j \<le> unat (block_size s) * i"
      using mult_le_mono2 by blast
    then show ?thesis unfolding P(6) R(6) st using P(4) R(4) True st by auto
  qed
qed

lemma class_size_dvd: "class_size bs \<Longrightarrow> 8 dvd unat bs"
  by (auto simp: class_size_def slab_sizes_def)

lemma block_in_region:
  assumes inv: "alloc_inv st Q C L {}" and p: "p \<in> members C \<union> L"
  shows "block_bytes st p \<subseteq> {unat (region_start st) + 1280 ..< unat (end_addr st)} \<and> 8 dvd unat p
    \<and> valid_addr p st = Inr () \<and> in_range p st"
proof -
  obtain s i where P: "constructed st (addr_to_slab p)" "slabs st (addr_to_slab p) = Some s" "i < nblocks_of (block_size s)"
    "unat p = unat (addr_to_slab p) + (1280 + unat (block_size s) * i)" "class_size (block_size s)"
    "block_bytes st p = {unat p ..< unat p + unat (block_size s)}"
    "1280 + unat (block_size s) * i + unat (block_size s) \<le> 34048" "slab_room (addr_to_slab p)"
    by (rule block_placed [OF inv p])
  note g = invD(1) [OF inv]
  have c: "unat (addr_to_slab p) + 34048 \<le> unat (end_addr st)" "unat (region_start st) \<le> unat (addr_to_slab p)"
    using constructed_room [OF g P(1)] P(1) by (simp_all add: constructed_def word_le_nat_alt)
  obtain z where z: "unat (addr_to_slab p) = 34048 * z" using P(8) by (auto simp: slab_room_def aligned_iff dvd_def)
  have pos: "0 < unat (block_size s)" using class_size_bounds [OF P(5)] by simp
  have "8 dvd unat p" unfolding P(4) z using class_size_dvd [OF P(5)] by (intro dvd_add dvd_mult2) simp_all
  moreover have "unat (p mod sizeof_obj_slab) = 1280 + unat (block_size s) * i"
    using P(4,7) pos z by (simp add: unat_mod sizeof_obj_slab_eq)
  then have "payload_offset \<le> p mod sizeof_obj_slab" by (simp add: word_le_nat_alt slab_consts)
  moreover have "region_start st < p" "p < end_addr st" using P(4,7) c pos by (simp_all add: word_less_nat_alt)
  moreover have "m_addr st < region_start st" using g by (simp add: geom_def)
  ultimately show ?thesis unfolding P(6)
    using P(4,7) c by (auto simp: valid_addr_def in_range_def region_start_def)
qed

section \<open>Exhaustion, reuse and reset\<close>

lemma inner_null:
  assumes "alloc_inv st Q C L {}" and "unat i < 11" and "\<forall>ob \<in> set obs. obs_ok ob"
    and "allocate_inner obs i st = Inr (Some 0, st')"
  shows "current_slab st' = end_addr st' \<and> (\<exists>ob \<in> set obs. \<exists>sm. get_sm i (ob_start ob) st' = Inr sm \<and> available_slabs_head sm = 0)"
  using assms
proof (induction obs arbitrary: st Q)
  case (Cons ob obs)
  have ob: "obs_ok ob" using Cons.prems(3) by simp
  obtain r st1 Q1 where r: "allocate_round ob i st = Inr (r, st1)" "alloc_inv st1 Q1 C (taken r L) {}"
      "r = Some 0 \<longrightarrow> current_slab st = end_addr st \<and> Q (unat i, unat (ob_start ob)) = [] \<and> st1 = st"
    using round_ok [OF Cons.prems(1,2) ob] by blast
  show ?case
  proof (cases r)
    case None
    then have "alloc_inv st1 Q1 C L {}" "allocate_inner obs i st1 = Inr (Some 0, st')" using r Cons.prems(4) by simp_all
    then show ?thesis using Cons.IH [of st1 Q1] Cons.prems(2,3) by auto
  next
    case (Some p)
    then have z: "p = 0" "st' = st1" using r(1) Cons.prems(4) by simp_all
    obtain sm where sm: "get_sm i (ob_start ob) st = Inr sm"
        "sm_ok (slabs st) sm (Q (unat i, unat (ob_start ob))) (C (unat i, unat (ob_start ob)))"
      using get_sm_ok [OF Cons.prems(1,2)] obs_ok_unat [OF ob] by blast
    then show ?thesis using Some z r(3) head_cases [OF Cons.prems(1) sm(2)] by auto
  qed
qed simp

lemma allocate_null:
  assumes inv: "alloc_inv st Q C L {}" and sz: "valid_size sz" and cpus: "pop_cpu < NPROCS" "\<forall>ob \<in> set obs. obs_ok ob"
    and run: "allocate pop_cpu obs sz st = Inr (Some 0, st')"
  shows "current_slab st' = end_addr st' \<and> (\<exists>ob \<in> set obs. \<exists>sm. get_sm (size_to_idx sz) (ob_start ob) st' = Inr sm \<and> available_slabs_head sm = 0)"
proof -
  let ?i = "size_to_idx sz" and ?x = "(unat (size_to_idx sz), unat pop_cpu)"
  have i: "unat ?i < 11" by (rule unat_size_idx [OF sz])
  have c: "unat pop_cpu < 8" using cpus(1) by (simp add: layout_consts word_less_nat_alt)
  obtain p st1 where pop: "try_pop pop_cpu ?i st = Inr (p, st1)"
      "if C ?x = [] then p = 0 \<and> alloc_inv st1 Q C L {}
       else p = hd (C ?x) \<and> p \<in> members C \<and> class_of st1 (addr_to_slab p) (unat ?i) \<and> alloc_inv st1 Q (C(?x := tl (C ?x))) (insert p L) {}"
    using pop_ok [OF inv i c] by blast
  have "C ?x = []"
  proof (rule ccontr)
    assume "C ?x \<noteq> []"
    then have "1280 \<le> unat p" using pop(2) block_nonzero [OF inv, of p] by auto
    then show False using run pop(1) by (auto simp: allocate_def word_less_nat_alt layout_consts)
  qed
  then have p: "p = 0" "alloc_inv st1 Q C L {}" using pop(2) by simp_all
  then have "allocate_inner obs ?i st1 = Inr (Some 0, st')" using run pop(1) by (simp add: allocate_def)
  then show ?thesis by (rule inner_null [OF p(2) i cpus(2)])
qed

lemma free_reuse:
  assumes inv: "alloc_inv st Q C L {}" and p: "p \<in> L" and cpus: "c < NPROCS" "d < NPROCS"
    and s: "slabs st (addr_to_slab p) = Some s" and sz: "size_to_idx sz = size_to_idx (block_size s)"
    and sm: "get_sm (size_to_idx sz) c st = Inr sm" "current_idx (fc sm) \<noteq> 13"
  shows "\<exists>st1 st2. free c d p st = Inr st1 \<and> allocate c obs sz st1 = Inr (Some p, st2)"
proof -
  let ?i = "size_to_idx sz" and ?x = "(unat (size_to_idx sz), unat c)"
  have c: "unat c < 8" using cpus(1) by (simp add: layout_consts word_less_nat_alt)
  have "is_block st p" using invD(5) [OF inv] p by (simp add: blocks_ok_def)
  then obtain t j where b: "slabs st (addr_to_slab p) = Some t" "class_size (block_size t)" by (rule is_block_slab [OF inv])
  have cs: "class_size (block_size s)" using b s by simp
  obtain k where k: "k < 11" "block_size s = slab_sizes ! k" "unat ?i = k" unfolding sz by (rule class_index [OF cs])
  have cls: "class_of st (addr_to_slab p) (unat ?i)" using s k by (simp add: class_of_def)
  have i: "unat ?i < 11" using k by simp
  obtain sm' where sm': "get_sm ?i c st = Inr sm'" "sm_ok (slabs st) sm' (Q ?x) (C ?x)" using get_sm_ok [OF inv i c] by blast
  then have "unat (current_idx (fc sm)) = length (C ?x)" using sm(1) by (simp add: sm_ok_def fc_rep_def)
  then have nf: "length (C ?x) \<noteq> 13" using sm(2) by (auto simp: word_unat_eq_iff)
  obtain st1 where st1: "try_push c p ?i st = Inr (0, st1)" "alloc_inv st1 Q (C(?x := p # C ?x)) (L - {p}) {}"
    using push_ok [OF inv i c p cls] nf by auto
  have free: "free c d p st = Inr st1" using st1(1) s sz by (simp add: free_def get_slab_def)
  obtain st2 where "try_pop c ?i st1 = Inr (p, st2)" using pop_ok [OF st1(2) i c] by auto
  moreover have "1280 \<le> unat p" using block_nonzero [OF inv] p by simp
  ultimately have "allocate c obs sz st1 = Inr (Some p, st2)"
    by (simp add: allocate_def word_less_nat_alt layout_consts)
  then show ?thesis using free by blast
qed

lemma reset_region:
  "object_allocator_map mmap len reserve = Inr st0 \<Longrightarrow> same_region st0 st \<Longrightarrow> reset st = Inr st0"
  by (auto simp: object_allocator_map_def object_allocator_ctor_def memory_layout_ctor_def reset_def same_region_def
      split: if_splits)

lemma fresh_exists: "\<exists>st. fresh_allocator (\<lambda>_ _. Some 65536) 2147483648 False st"
  using map_ok [of "\<lambda>_ _. Some 65536" 2147483648 False 65536] by (auto simp: fresh_allocator_def)

section \<open>Concrete runs\<close>

lemma first_block:
  assumes inv: "alloc_inv st (\<lambda>_. []) (\<lambda>_. []) {} {}" and c: "c < NPROCS" and sz: "valid_size sz"
    and room: "current_slab st < end_addr st"
  shows "\<exists>p st' Q. allocate c [one_core c, one_core c] sz st = Inr (Some p, st') \<and> p \<noteq> 0
    \<and> alloc_inv st' Q (\<lambda>_. []) {p} {} \<and> class_of st' (addr_to_slab p) (unat (size_to_idx sz))"
proof -
  let ?i = "size_to_idx sz" and ?a = "current_slab st"
  have i: "unat ?i < 11" by (rule unat_size_idx [OF sz])
  have c8: "unat c < 8" using c by (simp add: layout_consts word_less_nat_alt)
  obtain st1 where pop: "try_pop c ?i st = Inr (0, st1)" "alloc_inv st1 (\<lambda>_. []) (\<lambda>_. []) {} {}"
    using pop_ok [OF inv i c8] by auto
  have same: "st1 = st"
    using pop(1) fcs.pop_empty get_sm_ok [OF inv i c8] put_sm_same
    by (auto simp: try_pop_def sm_ok_def)
  obtain st2 where st2: "allocate_new_slab (one_core c) ?i st = Inr (None, st2)"
      "alloc_inv st2 ((\<lambda>_. [])((unat ?i, unat c) := [?a])) (\<lambda>_. []) {} {}" "avail_at st2 ?a \<noteq> {}"
    using new_round_ok [OF inv i, of "one_core c"] room c8 by auto
  have "allocate_round (one_core c) ?i st = Inr (None, st2)"
    using round_head(1) [OF inv i, of "one_core c"] c st2(1) by simp
  moreover obtain p st3 where p: "allocate_round (one_core c) ?i st2 = Inr (Some p, st3)"
      "alloc_inv st3 ((\<lambda>_. [])((unat ?i, unat c) := [?a])) (\<lambda>_. []) (insert p {}) {}"
      "class_of st3 (addr_to_slab p) (unat ?i)"
    using round_take [OF st2(2) i, of "one_core c" ?a "[]"] st2(3) c by auto
  moreover have "p \<noteq> 0" using block_not_null [OF p(2)] by simp
  ultimately have "allocate c [one_core c, one_core c] sz st = Inr (Some p, st3)"
    using pop(1) same by (simp add: allocate_def)
  then show ?thesis using p(2,3) \<open>p \<noteq> 0\<close> by blast
qed

lemma demo_run:
  "\<exists>st0 st1 p. fresh_allocator (\<lambda>_ _. Some 65536) 2147483648 False st0 \<and> p \<noteq> 0
    \<and> allocate 2 [one_core 2, one_core 2] 20 st0 = Inr (Some p, st1) \<and> heap_run st0 st1 {p}
    \<and> (\<exists>Q. alloc_inv st1 Q (\<lambda>_. []) {p} {}) \<and> class_of st1 (addr_to_slab p) (unat (size_to_idx 20))"
proof -
  obtain st0 where st0: "object_allocator_map (\<lambda>_ _. Some 65536) 2147483648 False = Inr st0"
      "alloc_inv st0 (\<lambda>_. []) (\<lambda>_. []) {} {}" "current_slab st0 = region_start st0"
      "unat (region_start st0) < 65536 + 45440" "65536 + 2147483648 < unat (end_addr st0) + 34048"
    using map_ok [of "\<lambda>_ _. Some 65536" 2147483648 False 65536] by auto
  have f: "fresh_allocator (\<lambda>_ _. Some 65536) 2147483648 False st0" using st0(1) by (simp add: fresh_allocator_def)
  have "current_slab st0 < end_addr st0" using st0(3-5) by (simp add: word_less_nat_alt)
  then obtain p st1 where p: "allocate 2 [one_core 2, one_core 2] 20 st0 = Inr (Some p, st1)" "p \<noteq> 0"
      "\<exists>Q. alloc_inv st1 Q (\<lambda>_. []) {p} {}" "class_of st1 (addr_to_slab p) (unat (size_to_idx 20))"
    using first_block [OF st0(2), of 2 20] by (auto simp: layout_consts valid_size_def)
  have "heap_step (st0, {}) (st1, taken (Some p) {})"
    by (rule heap_step.alloc [OF _ _ _ p(1)]) (simp_all add: layout_consts valid_size_def)
  then have "heap_run st0 st1 {p}" using heap_run.step [OF heap_run.start] p(2) by fastforce
  then show ?thesis using f p by blast
qed

text \<open>A mapping that is too small for a slab behind the managers.\<close>

lemma demo_exhausted:
  "\<exists>st0. fresh_allocator (\<lambda>_ _. Some 65536) 45440 True st0 \<and> allocate 1 [one_core 1] 8 st0 = Inr (Some 0, st0)"
proof -
  obtain st0 where st0: "object_allocator_map (\<lambda>_ _. Some 65536) 45440 True = Inr st0"
      "alloc_inv st0 (\<lambda>_. []) (\<lambda>_. []) {} {}" "current_slab st0 = region_start st0"
      "76928 \<le> unat (region_start st0)" "unat (end_addr st0) \<le> 110976"
    using map_ok [of "\<lambda>_ _. Some 65536" 45440 True 65536] by auto
  have f: "fresh_allocator (\<lambda>_ _. Some 65536) 45440 True st0" using st0(1) by (simp add: fresh_allocator_def)
  obtain a b where "unat (region_start st0) = 34048 * a" "unat (end_addr st0) = 34048 * b"
    using invD(1) [OF st0(2)] by (auto simp: geom_def aligned_iff dvd_def)
  moreover from this have "3 \<le> a" "b \<le> 3" using st0(4,5) by linarith+
  ultimately have "\<not> current_slab st0 < end_addr st0" using st0(3) by (simp add: word_less_nat_alt)
  note n = no_room_ok [OF this]
  have i: "unat (size_to_idx 8) < 11" by (simp add: unat_size_idx valid_size_def)
  obtain st1 where pop: "try_pop 1 (size_to_idx 8) st0 = Inr (0, st1)" using pop_ok [OF st0(2) i, of 1] by auto
  have "st1 = st0"
    using pop fcs.pop_empty get_sm_ok [OF st0(2) i, of 1] put_sm_same by (auto simp: try_pop_def sm_ok_def)
  then have "allocate 1 [one_core 1] 8 st0 = Inr (Some 0, st0)"
    using pop round_head(1) [OF st0(2) i, of "one_core 1"] n by (simp add: allocate_def layout_consts)
  then show ?thesis using f by blast
qed

end
