(* ===== verification/Size_Class_Tables.thy ===== *)
theory Size_Class_Tables
  imports Prelude
begin

text \<open>
  The size classes of the vendored tcmalloc: \<open>struct SizeClassInfo\<close> of
  \<open>src/tcmalloc-src/tcmalloc/size_class_info.h\<close> and its tables in \<open>size_classes.cc\<close>,
  \<open>experimental_56_size_class.cc\<close> and \<open>experimental_4k_size_class.cc\<close>. Each file has a table
  for four page sizes and for two default alignments of \<open>new\<close>: the suffix \<open>a\<close> marks the
  tables for an alignment of at most 8, \<open>n\<close> the others, and the number is the page shift.

  The fields are \<open>size_t\<close>; the model has them as integers, and every operation that stores
  one in a narrower field writes the reduction out.
\<close>

record size_class_info =
  sci_size :: int
  sci_pages :: int
  sci_num_to_move :: int

definition kSizeClassInfoMembers :: int where
  "kSizeClassInfoMembers = 3"

definition sci_value :: "size_class_info \<Rightarrow> int \<Rightarrow> int result" where
  "sci_value s index =
     (if index = 0 then Inr (c_int (sci_size s)) else if index = 1 then Inr (c_int (sci_pages s))
      else if index = 2 then Inr (c_int (sci_num_to_move s))
      else if index < kSizeClassInfoMembers then Inr 0 else Inl Assert_Failed)"

definition sci_set_value :: "int \<Rightarrow> int \<Rightarrow> size_class_info \<Rightarrow> size_class_info result" where
  "sci_set_value index v s =
     (if index = 0 then Inr (s\<lparr>sci_size := v mod 2 ^ 64\<rparr>) else if index = 1 then Inr (s\<lparr>sci_pages := v mod 2 ^ 64\<rparr>)
      else if index = 2 then Inr (s\<lparr>sci_num_to_move := v mod 2 ^ 64\<rparr>)
      else if index < kSizeClassInfoMembers then Inr s else Inl Assert_Failed)"

text \<open>A row of a table: \<open>{ bytes, pages, batch size }\<close>.\<close>

definition sci :: "int \<Rightarrow> int \<Rightarrow> int \<Rightarrow> size_class_info" where
  "sci b p n = \<lparr>sci_size = b, sci_pages = p, sci_num_to_move = n\<rparr>"

lemma sci_simps [simp]:
  "sci_size (sci b p n) = b" "sci_pages (sci b p n) = p" "sci_num_to_move (sci b p n) = n"
  by (simp_all add: sci_def)

section \<open>The default tables\<close>

definition kSizeClasses_a13 :: "size_class_info list" where
  "kSizeClasses_a13 =
    [sci 0 0 0, sci 8 1 32, sci 16 1 32, sci 24 1 32, sci 32 1 32, sci 40 1 32, sci 48 1 32, sci 56 1
     32, sci 64 1 32, sci 72 1 32, sci 80 1 32, sci 88 1 32, sci 96 1 32, sci 104 1 32, sci 112 1 32,
     sci 120 1 32, sci 128 1 32, sci 136 1 32, sci 144 1 32, sci 160 1 32, sci 176 1 32, sci 192 1
     32, sci 208 1 32, sci 224 1 32, sci 240 1 32, sci 256 1 32, sci 272 1 32, sci 288 1 32, sci 312
     1 32, sci 336 1 32, sci 352 1 32, sci 384 1 32, sci 408 1 32, sci 424 1 32, sci 448 1 32, sci
     480 1 32, sci 512 1 32, sci 576 1 32, sci 640 1 32, sci 704 1 32, sci 768 1 32, sci 896 1 32,
     sci 1024 1 32, sci 1152 2 32, sci 1280 2 32, sci 1408 2 32, sci 1536 2 32, sci 1792 2 32, sci
     2048 2 32, sci 2304 2 28, sci 2688 2 24, sci 3200 2 20, sci 3456 3 18, sci 3584 4 18, sci 4096 2
     16, sci 4736 3 13, sci 5376 2 12, sci 6144 3 10, sci 6528 4 10, sci 7168 7 9, sci 8192 2 8, sci
     9472 5 6, sci 10240 4 6, sci 12288 3 5, sci 14336 7 4, sci 16384 2 4, sci 20480 5 3, sci 24576 3
     2, sci 28672 7 2, sci 32768 4 2, sci 40960 5 2, sci 49152 6 2, sci 57344 7 2, sci 65536 8 2, sci
     73728 9 2, sci 81920 10 2, sci 98304 12 2, sci 106496 13 2, sci 114688 14 2, sci 131072 16 2,
     sci 147456 18 2, sci 163840 20 2, sci 180224 22 2, sci 204800 25 2, sci 229376 28 2, sci 262144
     32 2]"

definition kSizeClasses_a15 :: "size_class_info list" where
  "kSizeClasses_a15 =
    [sci 0 0 0, sci 8 1 32, sci 16 1 32, sci 24 1 32, sci 32 1 32, sci 40 1 32, sci 48 1 32, sci 56 1
     32, sci 64 1 32, sci 72 1 32, sci 80 1 32, sci 88 1 32, sci 96 1 32, sci 104 1 32, sci 112 1 32,
     sci 120 1 32, sci 128 1 32, sci 144 1 32, sci 160 1 32, sci 176 1 32, sci 192 1 32, sci 208 1
     32, sci 224 1 32, sci 240 1 32, sci 256 1 32, sci 280 1 32, sci 304 1 32, sci 336 1 32, sci 368
     1 32, sci 416 1 32, sci 464 1 32, sci 512 1 32, sci 576 1 32, sci 640 1 32, sci 704 1 32, sci
     832 1 32, sci 896 1 32, sci 1024 1 32, sci 1152 1 32, sci 1280 1 32, sci 1408 1 32, sci 1536 1
     32, sci 1792 1 32, sci 2048 1 32, sci 2176 1 30, sci 2432 1 26, sci 2688 1 24, sci 2944 1 22,
     sci 3200 1 20, sci 3584 1 18, sci 4096 1 16, sci 4608 1 14, sci 5376 1 12, sci 6528 1 10, sci
     8192 1 8, sci 9344 2 7, sci 10880 1 6, sci 13056 2 5, sci 13952 3 4, sci 16384 1 4, sci 19072 3
     3, sci 21760 2 3, sci 24576 3 2, sci 28032 6 2, sci 32768 1 2, sci 38144 5 2, sci 40960 4 2, sci
     49152 3 2, sci 57344 7 2, sci 65536 2 2, sci 81920 5 2, sci 98304 3 2, sci 114688 7 2, sci
     131072 4 2, sci 163840 5 2, sci 196608 6 2, sci 229376 7 2, sci 262144 8 2]"

definition kSizeClasses_a18 :: "size_class_info list" where
  "kSizeClasses_a18 =
    [sci 0 0 0, sci 8 1 32, sci 16 1 32, sci 24 1 32, sci 32 1 32, sci 40 1 32, sci 48 1 32, sci 56 1
     32, sci 64 1 32, sci 72 1 32, sci 80 1 32, sci 88 1 32, sci 96 1 32, sci 104 1 32, sci 112 1 32,
     sci 128 1 32, sci 144 1 32, sci 160 1 32, sci 176 1 32, sci 192 1 32, sci 216 1 32, sci 232 1
     32, sci 256 1 32, sci 288 1 32, sci 304 1 32, sci 320 1 32, sci 344 1 32, sci 384 1 32, sci 416
     1 32, sci 464 1 32, sci 512 1 32, sci 576 1 32, sci 640 1 32, sci 704 1 32, sci 832 1 32, sci
     960 1 32, sci 1024 1 32, sci 1152 1 32, sci 1280 1 32, sci 1408 1 32, sci 1664 1 32, sci 1792 1
     32, sci 1920 1 32, sci 2048 1 32, sci 2176 1 30, sci 2304 1 28, sci 2432 1 26, sci 2688 1 24,
     sci 2944 1 22, sci 3328 1 19, sci 3584 1 18, sci 4096 1 16, sci 4736 1 13, sci 5120 1 12, sci
     5504 1 11, sci 5760 1 11, sci 6144 1 10, sci 6528 1 10, sci 7168 1 9, sci 8192 1 8, sci 8704 1
     7, sci 9600 1 6, sci 10880 1 6, sci 11904 1 5, sci 13056 1 5, sci 14464 1 4, sci 16384 1 4, sci
     18688 1 3, sci 21760 1 3, sci 23808 1 2, sci 26112 1 2, sci 29056 1 2, sci 32768 1 2, sci 37376
     1 2, sci 43648 1 2, sci 45568 2 2, sci 52352 1 2, sci 56064 2 2, sci 65536 1 2, sci 74880 2 2,
     sci 87296 1 2, sci 104832 2 2, sci 112256 3 2, sci 131072 1 2, sci 149760 3 2, sci 174720 2 2,
     sci 196608 3 2, sci 209664 4 2, sci 262144 1 2]"

definition kSizeClasses_a12 :: "size_class_info list" where
  "kSizeClasses_a12 =
    [sci 0 0 0, sci 8 1 32, sci 16 1 32, sci 24 1 32, sci 32 1 32, sci 40 1 32, sci 48 1 32, sci 56 1
     32, sci 64 1 32, sci 72 1 32, sci 80 1 32, sci 96 1 32, sci 104 1 32, sci 112 1 32, sci 128 1
     32, sci 144 1 32, sci 160 1 32, sci 176 1 32, sci 192 1 32, sci 208 1 32, sci 240 1 32, sci 272
     1 32, sci 288 1 32, sci 312 1 32, sci 336 1 32, sci 408 1 32, sci 448 1 32, sci 512 1 32, sci
     576 2 32, sci 640 2 32, sci 704 2 32, sci 896 2 32, sci 1024 2 32, sci 1152 3 32, sci 1280 3 32,
     sci 1536 3 32, sci 1792 4 32, sci 2048 4 32, sci 2304 4 28, sci 2688 4 24, sci 3200 4 20, sci
     4096 4 16, sci 4736 5 13, sci 6144 3 10, sci 7168 7 9, sci 8192 4 8]"

definition kSizeClasses_n13 :: "size_class_info list" where
  "kSizeClasses_n13 =
    [sci 0 0 0, sci 8 1 32, sci 16 1 32, sci 32 1 32, sci 48 1 32, sci 64 1 32, sci 80 1 32, sci 96 1
     32, sci 112 1 32, sci 128 1 32, sci 144 1 32, sci 160 1 32, sci 176 1 32, sci 192 1 32, sci 208
     1 32, sci 224 1 32, sci 240 1 32, sci 256 1 32, sci 272 1 32, sci 288 1 32, sci 304 1 32, sci
     320 1 32, sci 336 1 32, sci 352 1 32, sci 368 1 32, sci 384 1 32, sci 400 1 32, sci 416 1 32,
     sci 448 1 32, sci 480 1 32, sci 512 1 32, sci 576 1 32, sci 640 1 32, sci 704 1 32, sci 768 1
     32, sci 896 1 32, sci 1024 1 32, sci 1152 2 32, sci 1280 2 32, sci 1408 2 32, sci 1536 2 32, sci
     1792 2 32, sci 2048 2 32, sci 2304 2 28, sci 2688 2 24, sci 2816 3 23, sci 3200 2 20, sci 3456 3
     18, sci 3584 4 18, sci 4096 2 16, sci 4736 3 13, sci 5376 2 12, sci 6144 3 10, sci 6528 4 10,
     sci 6784 5 9, sci 7168 7 9, sci 8192 2 8, sci 9472 5 6, sci 10240 4 6, sci 12288 3 5, sci 13568
     5 4, sci 14336 7 4, sci 16384 2 4, sci 20480 5 3, sci 24576 3 2, sci 28672 7 2, sci 32768 4 2,
     sci 40960 5 2, sci 49152 6 2, sci 57344 7 2, sci 65536 8 2, sci 73728 9 2, sci 81920 10 2, sci
     90112 11 2, sci 98304 12 2, sci 106496 13 2, sci 114688 14 2, sci 131072 16 2, sci 139264 17 2,
     sci 155648 19 2, sci 172032 21 2, sci 196608 24 2, sci 204800 25 2, sci 221184 27 2, sci 245760
     30 2, sci 262144 32 2]"

definition kSizeClasses_n15 :: "size_class_info list" where
  "kSizeClasses_n15 =
    [sci 0 0 0, sci 8 1 32, sci 16 1 32, sci 32 1 32, sci 48 1 32, sci 64 1 32, sci 80 1 32, sci 96 1
     32, sci 112 1 32, sci 128 1 32, sci 144 1 32, sci 160 1 32, sci 176 1 32, sci 192 1 32, sci 208
     1 32, sci 224 1 32, sci 240 1 32, sci 256 1 32, sci 272 1 32, sci 288 1 32, sci 304 1 32, sci
     336 1 32, sci 368 1 32, sci 400 1 32, sci 416 1 32, sci 464 1 32, sci 512 1 32, sci 576 1 32,
     sci 640 1 32, sci 704 1 32, sci 768 1 32, sci 832 1 32, sci 896 1 32, sci 960 1 32, sci 1024 1
     32, sci 1152 1 32, sci 1280 1 32, sci 1408 1 32, sci 1536 1 32, sci 1664 1 32, sci 1920 1 32,
     sci 2048 1 32, sci 2176 1 30, sci 2304 1 28, sci 2432 1 26, sci 2688 1 24, sci 2944 1 22, sci
     3200 1 20, sci 3584 1 18, sci 4096 1 16, sci 4608 1 14, sci 5376 1 12, sci 6528 1 10, sci 7168 2
     9, sci 8192 1 8, sci 9344 2 7, sci 10880 1 6, sci 13056 2 5, sci 13952 3 4, sci 16384 1 4, sci
     19072 3 3, sci 21760 2 3, sci 24576 3 2, sci 28032 6 2, sci 32768 1 2, sci 38144 5 2, sci 40960
     4 2, sci 49152 3 2, sci 57344 7 2, sci 65536 2 2, sci 81920 5 2, sci 98304 3 2, sci 114688 7 2,
     sci 131072 4 2, sci 163840 5 2, sci 196608 6 2, sci 229376 7 2, sci 262144 8 2]"

definition kSizeClasses_n18 :: "size_class_info list" where
  "kSizeClasses_n18 =
    [sci 0 0 0, sci 8 1 32, sci 16 1 32, sci 32 1 32, sci 48 1 32, sci 64 1 32, sci 80 1 32, sci 96 1
     32, sci 112 1 32, sci 128 1 32, sci 144 1 32, sci 160 1 32, sci 176 1 32, sci 192 1 32, sci 208
     1 32, sci 224 1 32, sci 240 1 32, sci 256 1 32, sci 288 1 32, sci 304 1 32, sci 320 1 32, sci
     352 1 32, sci 384 1 32, sci 416 1 32, sci 464 1 32, sci 512 1 32, sci 576 1 32, sci 640 1 32,
     sci 704 1 32, sci 832 1 32, sci 960 1 32, sci 1024 1 32, sci 1152 1 32, sci 1280 1 32, sci 1408
     1 32, sci 1536 1 32, sci 1664 1 32, sci 1792 1 32, sci 1920 1 32, sci 2048 1 32, sci 2176 1 30,
     sci 2304 1 28, sci 2432 1 26, sci 2688 1 24, sci 2944 1 22, sci 3328 1 19, sci 3584 1 18, sci
     4096 1 16, sci 4736 1 13, sci 5120 1 12, sci 5504 1 11, sci 5760 1 11, sci 6144 1 10, sci 6528 1
     10, sci 7168 1 9, sci 7680 1 8, sci 8192 1 8, sci 8704 1 7, sci 9344 1 7, sci 9984 1 6, sci
     10880 1 6, sci 11904 1 5, sci 13056 1 5, sci 14464 1 4, sci 16384 1 4, sci 17408 1 3, sci 18688
     1 3, sci 20096 1 3, sci 21760 1 3, sci 23808 1 2, sci 26112 1 2, sci 29056 1 2, sci 32768 1 2,
     sci 37376 1 2, sci 43648 1 2, sci 45568 2 2, sci 52352 1 2, sci 56064 2 2, sci 65536 1 2, sci
     74880 2 2, sci 87296 1 2, sci 104832 2 2, sci 112256 3 2, sci 131072 1 2, sci 149760 3 2, sci
     174720 2 2, sci 196608 3 2, sci 209664 4 2, sci 262144 1 2]"

definition kSizeClasses_n12 :: "size_class_info list" where
  "kSizeClasses_n12 =
    [sci 0 0 0, sci 8 1 32, sci 16 1 32, sci 32 1 32, sci 48 1 32, sci 64 1 32, sci 80 1 32, sci 96 1
     32, sci 112 1 32, sci 128 1 32, sci 144 1 32, sci 160 1 32, sci 176 1 32, sci 192 1 32, sci 208
     1 32, sci 224 1 32, sci 240 1 32, sci 256 1 32, sci 272 1 32, sci 288 1 32, sci 304 1 32, sci
     336 1 32, sci 368 1 32, sci 400 1 32, sci 448 1 32, sci 512 1 32, sci 576 2 32, sci 640 2 32,
     sci 704 2 32, sci 768 2 32, sci 896 2 32, sci 1024 2 32, sci 1152 3 32, sci 1280 3 32, sci 1536
     3 32, sci 1792 4 32, sci 2048 4 32, sci 2304 4 28, sci 2688 4 24, sci 3200 4 20, sci 3584 7 18,
     sci 4096 4 16, sci 4736 5 13, sci 6144 3 10, sci 7168 7 9, sci 8192 4 8]"

section \<open>The experiment without the class of 56 bytes\<close>

definition kExperimentalSizeClasses_a13 :: "size_class_info list" where
  "kExperimentalSizeClasses_a13 =
    [sci 0 0 0, sci 8 1 32, sci 16 1 32, sci 24 1 32, sci 32 1 32, sci 40 1 32, sci 48 1 32, sci 64 1
     32, sci 72 1 32, sci 80 1 32, sci 88 1 32, sci 96 1 32, sci 104 1 32, sci 112 1 32, sci 120 1
     32, sci 128 1 32, sci 136 1 32, sci 144 1 32, sci 160 1 32, sci 176 1 32, sci 192 1 32, sci 208
     1 32, sci 224 1 32, sci 240 1 32, sci 256 1 32, sci 272 1 32, sci 288 1 32, sci 312 1 32, sci
     336 1 32, sci 352 1 32, sci 384 1 32, sci 408 1 32, sci 424 1 32, sci 448 1 32, sci 480 1 32,
     sci 512 1 32, sci 576 1 32, sci 640 1 32, sci 704 1 32, sci 768 1 32, sci 896 1 32, sci 1024 1
     32, sci 1152 2 32, sci 1280 2 32, sci 1408 2 32, sci 1536 2 32, sci 1792 2 32, sci 2048 2 32,
     sci 2304 2 28, sci 2688 2 24, sci 2816 3 23, sci 3200 2 20, sci 3456 3 18, sci 3584 4 18, sci
     4096 2 16, sci 4736 3 13, sci 5376 2 12, sci 6144 3 10, sci 6528 4 10, sci 7168 7 9, sci 8192 2
     8, sci 9472 5 6, sci 10240 4 6, sci 12288 3 5, sci 14336 7 4, sci 16384 2 4, sci 20480 5 3, sci
     24576 3 2, sci 28672 7 2, sci 32768 4 2, sci 40960 5 2, sci 49152 6 2, sci 57344 7 2, sci 65536
     8 2, sci 73728 9 2, sci 81920 10 2, sci 98304 12 2, sci 106496 13 2, sci 114688 14 2, sci 131072
     16 2, sci 147456 18 2, sci 163840 20 2, sci 180224 22 2, sci 204800 25 2, sci 229376 28 2, sci
     262144 32 2]"

definition kExperimentalSizeClasses_a15 :: "size_class_info list" where
  "kExperimentalSizeClasses_a15 =
    [sci 0 0 0, sci 8 1 32, sci 16 1 32, sci 24 1 32, sci 32 1 32, sci 40 1 32, sci 48 1 32, sci 64 1
     32, sci 72 1 32, sci 80 1 32, sci 88 1 32, sci 96 1 32, sci 104 1 32, sci 112 1 32, sci 120 1
     32, sci 128 1 32, sci 144 1 32, sci 160 1 32, sci 176 1 32, sci 192 1 32, sci 208 1 32, sci 224
     1 32, sci 240 1 32, sci 256 1 32, sci 280 1 32, sci 304 1 32, sci 336 1 32, sci 368 1 32, sci
     416 1 32, sci 464 1 32, sci 512 1 32, sci 576 1 32, sci 640 1 32, sci 704 1 32, sci 832 1 32,
     sci 896 1 32, sci 1024 1 32, sci 1152 1 32, sci 1280 1 32, sci 1408 1 32, sci 1536 1 32, sci
     1792 1 32, sci 2048 1 32, sci 2176 1 30, sci 2432 1 26, sci 2688 1 24, sci 2944 1 22, sci 3200 1
     20, sci 3584 1 18, sci 4096 1 16, sci 4608 1 14, sci 5376 1 12, sci 6528 1 10, sci 7168 2 9, sci
     8192 1 8, sci 9344 2 7, sci 10880 1 6, sci 13056 2 5, sci 13952 3 4, sci 16384 1 4, sci 19072 3
     3, sci 21760 2 3, sci 24576 3 2, sci 28032 6 2, sci 32768 1 2, sci 38144 5 2, sci 40960 4 2, sci
     49152 3 2, sci 57344 7 2, sci 65536 2 2, sci 81920 5 2, sci 98304 3 2, sci 114688 7 2, sci
     131072 4 2, sci 163840 5 2, sci 196608 6 2, sci 229376 7 2, sci 262144 8 2]"

definition kExperimentalSizeClasses_a18 :: "size_class_info list" where
  "kExperimentalSizeClasses_a18 =
    [sci 0 0 0, sci 8 1 32, sci 16 1 32, sci 24 1 32, sci 32 1 32, sci 40 1 32, sci 48 1 32, sci 64 1
     32, sci 72 1 32, sci 80 1 32, sci 88 1 32, sci 96 1 32, sci 104 1 32, sci 112 1 32, sci 128 1
     32, sci 144 1 32, sci 160 1 32, sci 176 1 32, sci 192 1 32, sci 216 1 32, sci 232 1 32, sci 256
     1 32, sci 288 1 32, sci 304 1 32, sci 320 1 32, sci 344 1 32, sci 384 1 32, sci 416 1 32, sci
     464 1 32, sci 512 1 32, sci 576 1 32, sci 640 1 32, sci 704 1 32, sci 832 1 32, sci 960 1 32,
     sci 1024 1 32, sci 1152 1 32, sci 1280 1 32, sci 1408 1 32, sci 1664 1 32, sci 1792 1 32, sci
     1920 1 32, sci 2048 1 32, sci 2176 1 30, sci 2304 1 28, sci 2432 1 26, sci 2688 1 24, sci 2944 1
     22, sci 3328 1 19, sci 3584 1 18, sci 4096 1 16, sci 4736 1 13, sci 5120 1 12, sci 5504 1 11,
     sci 5760 1 11, sci 6144 1 10, sci 6528 1 10, sci 7168 1 9, sci 7680 1 8, sci 8192 1 8, sci 8704
     1 7, sci 9600 1 6, sci 10880 1 6, sci 11904 1 5, sci 13056 1 5, sci 14464 1 4, sci 16384 1 4,
     sci 18688 1 3, sci 21760 1 3, sci 23808 1 2, sci 26112 1 2, sci 29056 1 2, sci 32768 1 2, sci
     37376 1 2, sci 43648 1 2, sci 45568 2 2, sci 52352 1 2, sci 56064 2 2, sci 65536 1 2, sci 74880
     2 2, sci 87296 1 2, sci 104832 2 2, sci 112256 3 2, sci 131072 1 2, sci 149760 3 2, sci 174720 2
     2, sci 196608 3 2, sci 209664 4 2, sci 262144 1 2]"

definition kExperimentalSizeClasses_a12 :: "size_class_info list" where
  "kExperimentalSizeClasses_a12 =
    [sci 0 0 0, sci 8 1 32, sci 16 1 32, sci 24 1 32, sci 32 1 32, sci 40 1 32, sci 48 1 32, sci 64 1
     32, sci 72 1 32, sci 80 1 32, sci 96 1 32, sci 104 1 32, sci 112 1 32, sci 120 1 32, sci 128 1
     32, sci 144 1 32, sci 160 1 32, sci 176 1 32, sci 192 1 32, sci 208 1 32, sci 240 1 32, sci 272
     1 32, sci 288 1 32, sci 312 1 32, sci 336 1 32, sci 408 1 32, sci 448 1 32, sci 512 1 32, sci
     576 2 32, sci 640 2 32, sci 704 2 32, sci 896 2 32, sci 1024 2 32, sci 1152 3 32, sci 1280 3 32,
     sci 1536 3 32, sci 1792 4 32, sci 2048 4 32, sci 2304 4 28, sci 2688 4 24, sci 3200 4 20, sci
     4096 4 16, sci 4736 5 13, sci 6144 3 10, sci 7168 7 9, sci 8192 4 8]"

definition kExperimentalSizeClasses_n13 :: "size_class_info list" where
  "kExperimentalSizeClasses_n13 =
    [sci 0 0 0, sci 8 1 32, sci 16 1 32, sci 32 1 32, sci 48 1 32, sci 64 1 32, sci 80 1 32, sci 96 1
     32, sci 112 1 32, sci 128 1 32, sci 144 1 32, sci 160 1 32, sci 176 1 32, sci 192 1 32, sci 208
     1 32, sci 224 1 32, sci 240 1 32, sci 256 1 32, sci 272 1 32, sci 288 1 32, sci 304 1 32, sci
     320 1 32, sci 336 1 32, sci 352 1 32, sci 368 1 32, sci 384 1 32, sci 400 1 32, sci 416 1 32,
     sci 448 1 32, sci 480 1 32, sci 512 1 32, sci 576 1 32, sci 640 1 32, sci 704 1 32, sci 768 1
     32, sci 896 1 32, sci 1024 1 32, sci 1152 2 32, sci 1280 2 32, sci 1408 2 32, sci 1536 2 32, sci
     1792 2 32, sci 2048 2 32, sci 2304 2 28, sci 2688 2 24, sci 2816 3 23, sci 3200 2 20, sci 3456 3
     18, sci 3584 4 18, sci 4096 2 16, sci 4736 3 13, sci 5376 2 12, sci 6144 3 10, sci 6528 4 10,
     sci 6784 5 9, sci 7168 7 9, sci 8192 2 8, sci 9472 5 6, sci 10240 4 6, sci 12288 3 5, sci 13568
     5 4, sci 14336 7 4, sci 16384 2 4, sci 20480 5 3, sci 24576 3 2, sci 28672 7 2, sci 32768 4 2,
     sci 40960 5 2, sci 49152 6 2, sci 57344 7 2, sci 65536 8 2, sci 73728 9 2, sci 81920 10 2, sci
     90112 11 2, sci 98304 12 2, sci 106496 13 2, sci 114688 14 2, sci 131072 16 2, sci 139264 17 2,
     sci 155648 19 2, sci 172032 21 2, sci 196608 24 2, sci 204800 25 2, sci 221184 27 2, sci 245760
     30 2, sci 262144 32 2]"

definition kExperimentalSizeClasses_n15 :: "size_class_info list" where
  "kExperimentalSizeClasses_n15 =
    [sci 0 0 0, sci 8 1 32, sci 16 1 32, sci 32 1 32, sci 48 1 32, sci 64 1 32, sci 80 1 32, sci 96 1
     32, sci 112 1 32, sci 128 1 32, sci 144 1 32, sci 160 1 32, sci 176 1 32, sci 192 1 32, sci 208
     1 32, sci 224 1 32, sci 240 1 32, sci 256 1 32, sci 272 1 32, sci 288 1 32, sci 304 1 32, sci
     336 1 32, sci 368 1 32, sci 400 1 32, sci 416 1 32, sci 464 1 32, sci 512 1 32, sci 576 1 32,
     sci 640 1 32, sci 704 1 32, sci 768 1 32, sci 832 1 32, sci 896 1 32, sci 960 1 32, sci 1024 1
     32, sci 1152 1 32, sci 1280 1 32, sci 1408 1 32, sci 1536 1 32, sci 1664 1 32, sci 1920 1 32,
     sci 2048 1 32, sci 2176 1 30, sci 2304 1 28, sci 2432 1 26, sci 2688 1 24, sci 2944 1 22, sci
     3200 1 20, sci 3584 1 18, sci 4096 1 16, sci 4608 1 14, sci 5376 1 12, sci 6528 1 10, sci 7168 2
     9, sci 8192 1 8, sci 9344 2 7, sci 10880 1 6, sci 13056 2 5, sci 13952 3 4, sci 16384 1 4, sci
     19072 3 3, sci 21760 2 3, sci 24576 3 2, sci 28032 6 2, sci 32768 1 2, sci 38144 5 2, sci 40960
     4 2, sci 49152 3 2, sci 57344 7 2, sci 65536 2 2, sci 81920 5 2, sci 98304 3 2, sci 114688 7 2,
     sci 131072 4 2, sci 163840 5 2, sci 196608 6 2, sci 229376 7 2, sci 262144 8 2]"

definition kExperimentalSizeClasses_n18 :: "size_class_info list" where
  "kExperimentalSizeClasses_n18 =
    [sci 0 0 0, sci 8 1 32, sci 16 1 32, sci 32 1 32, sci 48 1 32, sci 64 1 32, sci 80 1 32, sci 96 1
     32, sci 112 1 32, sci 128 1 32, sci 144 1 32, sci 160 1 32, sci 176 1 32, sci 192 1 32, sci 208
     1 32, sci 224 1 32, sci 240 1 32, sci 256 1 32, sci 288 1 32, sci 304 1 32, sci 320 1 32, sci
     352 1 32, sci 384 1 32, sci 416 1 32, sci 464 1 32, sci 512 1 32, sci 576 1 32, sci 640 1 32,
     sci 704 1 32, sci 832 1 32, sci 960 1 32, sci 1024 1 32, sci 1152 1 32, sci 1280 1 32, sci 1408
     1 32, sci 1536 1 32, sci 1664 1 32, sci 1792 1 32, sci 1920 1 32, sci 2048 1 32, sci 2176 1 30,
     sci 2304 1 28, sci 2432 1 26, sci 2688 1 24, sci 2944 1 22, sci 3328 1 19, sci 3584 1 18, sci
     4096 1 16, sci 4736 1 13, sci 5120 1 12, sci 5504 1 11, sci 5760 1 11, sci 6144 1 10, sci 6528 1
     10, sci 7168 1 9, sci 7680 1 8, sci 8192 1 8, sci 8704 1 7, sci 9344 1 7, sci 9984 1 6, sci
     10880 1 6, sci 11904 1 5, sci 13056 1 5, sci 14464 1 4, sci 16384 1 4, sci 17408 1 3, sci 18688
     1 3, sci 20096 1 3, sci 21760 1 3, sci 23808 1 2, sci 26112 1 2, sci 29056 1 2, sci 32768 1 2,
     sci 37376 1 2, sci 43648 1 2, sci 45568 2 2, sci 52352 1 2, sci 56064 2 2, sci 65536 1 2, sci
     74880 2 2, sci 87296 1 2, sci 104832 2 2, sci 112256 3 2, sci 131072 1 2, sci 149760 3 2, sci
     174720 2 2, sci 196608 3 2, sci 209664 4 2, sci 262144 1 2]"

definition kExperimentalSizeClasses_n12 :: "size_class_info list" where
  "kExperimentalSizeClasses_n12 =
    [sci 0 0 0, sci 8 1 32, sci 16 1 32, sci 32 1 32, sci 48 1 32, sci 64 1 32, sci 80 1 32, sci 96 1
     32, sci 112 1 32, sci 128 1 32, sci 144 1 32, sci 160 1 32, sci 176 1 32, sci 192 1 32, sci 208
     1 32, sci 224 1 32, sci 240 1 32, sci 256 1 32, sci 272 1 32, sci 288 1 32, sci 304 1 32, sci
     336 1 32, sci 368 1 32, sci 400 1 32, sci 448 1 32, sci 512 1 32, sci 576 2 32, sci 640 2 32,
     sci 704 2 32, sci 768 2 32, sci 896 2 32, sci 1024 2 32, sci 1152 3 32, sci 1280 3 32, sci 1536
     3 32, sci 1792 4 32, sci 2048 4 32, sci 2304 4 28, sci 2688 4 24, sci 3200 4 20, sci 3584 7 18,
     sci 4096 4 16, sci 4736 5 13, sci 6144 3 10, sci 7168 7 9, sci 8192 4 8]"

section \<open>The experiment with single-page classes of 4096 and 8192 bytes\<close>

definition kExperimental4kSizeClasses_a13 :: "size_class_info list" where
  "kExperimental4kSizeClasses_a13 =
    [sci 0 0 0, sci 8 1 32, sci 16 1 32, sci 24 1 32, sci 32 1 32, sci 40 1 32, sci 48 1 32, sci 56 1
     32, sci 64 1 32, sci 72 1 32, sci 80 1 32, sci 88 1 32, sci 96 1 32, sci 104 1 32, sci 112 1 32,
     sci 120 1 32, sci 128 1 32, sci 136 1 32, sci 144 1 32, sci 160 1 32, sci 176 1 32, sci 192 1
     32, sci 208 1 32, sci 224 1 32, sci 240 1 32, sci 256 1 32, sci 272 1 32, sci 288 1 32, sci 312
     1 32, sci 336 1 32, sci 352 1 32, sci 384 1 32, sci 408 1 32, sci 424 1 32, sci 448 1 32, sci
     480 1 32, sci 512 1 32, sci 576 1 32, sci 640 1 32, sci 704 1 32, sci 768 1 32, sci 896 1 32,
     sci 1024 1 32, sci 1152 2 32, sci 1280 2 32, sci 1408 2 32, sci 1536 2 32, sci 1792 2 32, sci
     2048 2 32, sci 2304 2 28, sci 2688 2 24, sci 3200 2 20, sci 3456 3 18, sci 3584 4 18, sci 4096 1
     16, sci 4736 3 13, sci 5376 2 12, sci 6144 3 10, sci 6528 4 10, sci 7168 7 9, sci 8192 1 8, sci
     9472 5 6, sci 10240 4 6, sci 12288 3 5, sci 14336 7 4, sci 16384 2 4, sci 20480 5 3, sci 24576 3
     2, sci 28672 7 2, sci 32768 4 2, sci 40960 5 2, sci 49152 6 2, sci 57344 7 2, sci 65536 8 2, sci
     73728 9 2, sci 81920 10 2, sci 98304 12 2, sci 106496 13 2, sci 114688 14 2, sci 131072 16 2,
     sci 147456 18 2, sci 163840 20 2, sci 180224 22 2, sci 204800 25 2, sci 229376 28 2, sci 262144
     32 2]"

definition kExperimental4kSizeClasses_a15 :: "size_class_info list" where
  "kExperimental4kSizeClasses_a15 =
    [sci 0 0 0, sci 8 1 32, sci 16 1 32, sci 24 1 32, sci 32 1 32, sci 40 1 32, sci 48 1 32, sci 56 1
     32, sci 64 1 32, sci 72 1 32, sci 80 1 32, sci 88 1 32, sci 96 1 32, sci 104 1 32, sci 112 1 32,
     sci 120 1 32, sci 128 1 32, sci 144 1 32, sci 160 1 32, sci 176 1 32, sci 192 1 32, sci 208 1
     32, sci 224 1 32, sci 240 1 32, sci 256 1 32, sci 280 1 32, sci 304 1 32, sci 336 1 32, sci 368
     1 32, sci 416 1 32, sci 464 1 32, sci 512 1 32, sci 576 1 32, sci 640 1 32, sci 704 1 32, sci
     832 1 32, sci 896 1 32, sci 1024 1 32, sci 1152 1 32, sci 1280 1 32, sci 1408 1 32, sci 1536 1
     32, sci 1792 1 32, sci 2048 1 32, sci 2176 1 30, sci 2432 1 26, sci 2688 1 24, sci 2944 1 22,
     sci 3200 1 20, sci 3584 1 18, sci 4096 1 16, sci 4608 1 14, sci 5376 1 12, sci 6528 1 10, sci
     8192 1 8, sci 9344 2 7, sci 10880 1 6, sci 13056 2 5, sci 13952 3 4, sci 16384 1 4, sci 19072 3
     3, sci 21760 2 3, sci 24576 3 2, sci 28032 6 2, sci 32768 1 2, sci 38144 5 2, sci 40960 4 2, sci
     49152 3 2, sci 57344 7 2, sci 65536 2 2, sci 81920 5 2, sci 98304 3 2, sci 114688 7 2, sci
     131072 4 2, sci 163840 5 2, sci 196608 6 2, sci 229376 7 2, sci 262144 8 2]"

definition kExperimental4kSizeClasses_a18 :: "size_class_info list" where
  "kExperimental4kSizeClasses_a18 =
    [sci 0 0 0, sci 8 1 32, sci 16 1 32, sci 24 1 32, sci 32 1 32, sci 40 1 32, sci 48 1 32, sci 56 1
     32, sci 64 1 32, sci 72 1 32, sci 80 1 32, sci 88 1 32, sci 96 1 32, sci 104 1 32, sci 112 1 32,
     sci 128 1 32, sci 144 1 32, sci 160 1 32, sci 176 1 32, sci 192 1 32, sci 216 1 32, sci 232 1
     32, sci 256 1 32, sci 288 1 32, sci 304 1 32, sci 320 1 32, sci 344 1 32, sci 384 1 32, sci 416
     1 32, sci 464 1 32, sci 512 1 32, sci 576 1 32, sci 640 1 32, sci 704 1 32, sci 832 1 32, sci
     960 1 32, sci 1024 1 32, sci 1152 1 32, sci 1280 1 32, sci 1408 1 32, sci 1664 1 32, sci 1792 1
     32, sci 1920 1 32, sci 2048 1 32, sci 2176 1 30, sci 2304 1 28, sci 2432 1 26, sci 2688 1 24,
     sci 2944 1 22, sci 3328 1 19, sci 3584 1 18, sci 4096 1 16, sci 4736 1 13, sci 5120 1 12, sci
     5504 1 11, sci 5760 1 11, sci 6144 1 10, sci 6528 1 10, sci 7168 1 9, sci 8192 1 8, sci 8704 1
     7, sci 9600 1 6, sci 10880 1 6, sci 11904 1 5, sci 13056 1 5, sci 14464 1 4, sci 16384 1 4, sci
     18688 1 3, sci 21760 1 3, sci 23808 1 2, sci 26112 1 2, sci 29056 1 2, sci 32768 1 2, sci 37376
     1 2, sci 43648 1 2, sci 45568 2 2, sci 52352 1 2, sci 56064 2 2, sci 65536 1 2, sci 74880 2 2,
     sci 87296 1 2, sci 104832 2 2, sci 112256 3 2, sci 131072 1 2, sci 149760 3 2, sci 174720 2 2,
     sci 196608 3 2, sci 209664 4 2, sci 262144 1 2]"

definition kExperimental4kSizeClasses_a12 :: "size_class_info list" where
  "kExperimental4kSizeClasses_a12 =
    [sci 0 0 0, sci 8 1 32, sci 16 1 32, sci 24 1 32, sci 32 1 32, sci 40 1 32, sci 48 1 32, sci 56 1
     32, sci 64 1 32, sci 72 1 32, sci 80 1 32, sci 96 1 32, sci 104 1 32, sci 112 1 32, sci 128 1
     32, sci 144 1 32, sci 160 1 32, sci 176 1 32, sci 192 1 32, sci 208 1 32, sci 240 1 32, sci 272
     1 32, sci 288 1 32, sci 312 1 32, sci 336 1 32, sci 408 1 32, sci 448 1 32, sci 512 1 32, sci
     576 2 32, sci 640 2 32, sci 704 2 32, sci 896 2 32, sci 1024 2 32, sci 1152 3 32, sci 1280 3 32,
     sci 1536 3 32, sci 1792 4 32, sci 2048 4 32, sci 2304 4 28, sci 2688 4 24, sci 3200 4 20, sci
     4096 4 16, sci 4736 5 13, sci 6144 3 10, sci 7168 7 9, sci 8192 4 8]"

definition kExperimental4kSizeClasses_n13 :: "size_class_info list" where
  "kExperimental4kSizeClasses_n13 =
    [sci 0 0 0, sci 8 1 32, sci 16 1 32, sci 32 1 32, sci 48 1 32, sci 64 1 32, sci 80 1 32, sci 96 1
     32, sci 112 1 32, sci 128 1 32, sci 144 1 32, sci 160 1 32, sci 176 1 32, sci 192 1 32, sci 208
     1 32, sci 224 1 32, sci 240 1 32, sci 256 1 32, sci 272 1 32, sci 288 1 32, sci 304 1 32, sci
     320 1 32, sci 336 1 32, sci 352 1 32, sci 368 1 32, sci 384 1 32, sci 400 1 32, sci 416 1 32,
     sci 448 1 32, sci 480 1 32, sci 512 1 32, sci 576 1 32, sci 640 1 32, sci 704 1 32, sci 768 1
     32, sci 896 1 32, sci 1024 1 32, sci 1152 2 32, sci 1280 2 32, sci 1408 2 32, sci 1536 2 32, sci
     1792 2 32, sci 2048 2 32, sci 2304 2 28, sci 2688 2 24, sci 2816 3 23, sci 3200 2 20, sci 3456 3
     18, sci 3584 4 18, sci 4096 1 16, sci 4736 3 13, sci 5376 2 12, sci 6144 3 10, sci 6528 4 10,
     sci 6784 5 9, sci 7168 7 9, sci 8192 1 8, sci 9472 5 6, sci 10240 4 6, sci 12288 3 5, sci 13568
     5 4, sci 14336 7 4, sci 16384 2 4, sci 20480 5 3, sci 24576 3 2, sci 28672 7 2, sci 32768 4 2,
     sci 40960 5 2, sci 49152 6 2, sci 57344 7 2, sci 65536 8 2, sci 73728 9 2, sci 81920 10 2, sci
     90112 11 2, sci 98304 12 2, sci 106496 13 2, sci 114688 14 2, sci 131072 16 2, sci 139264 17 2,
     sci 155648 19 2, sci 172032 21 2, sci 196608 24 2, sci 204800 25 2, sci 221184 27 2, sci 245760
     30 2, sci 262144 32 2]"

definition kExperimental4kSizeClasses_n15 :: "size_class_info list" where
  "kExperimental4kSizeClasses_n15 =
    [sci 0 0 0, sci 8 1 32, sci 16 1 32, sci 32 1 32, sci 48 1 32, sci 64 1 32, sci 80 1 32, sci 96 1
     32, sci 112 1 32, sci 128 1 32, sci 144 1 32, sci 160 1 32, sci 176 1 32, sci 192 1 32, sci 208
     1 32, sci 224 1 32, sci 240 1 32, sci 256 1 32, sci 272 1 32, sci 288 1 32, sci 304 1 32, sci
     336 1 32, sci 368 1 32, sci 400 1 32, sci 416 1 32, sci 464 1 32, sci 512 1 32, sci 576 1 32,
     sci 640 1 32, sci 704 1 32, sci 768 1 32, sci 832 1 32, sci 896 1 32, sci 960 1 32, sci 1024 1
     32, sci 1152 1 32, sci 1280 1 32, sci 1408 1 32, sci 1536 1 32, sci 1664 1 32, sci 1920 1 32,
     sci 2048 1 32, sci 2176 1 30, sci 2304 1 28, sci 2432 1 26, sci 2688 1 24, sci 2944 1 22, sci
     3200 1 20, sci 3584 1 18, sci 4096 1 16, sci 4608 1 14, sci 5376 1 12, sci 6528 1 10, sci 7168 2
     9, sci 8192 1 8, sci 9344 2 7, sci 10880 1 6, sci 13056 2 5, sci 13952 3 4, sci 16384 1 4, sci
     19072 3 3, sci 21760 2 3, sci 24576 3 2, sci 28032 6 2, sci 32768 1 2, sci 38144 5 2, sci 40960
     4 2, sci 49152 3 2, sci 57344 7 2, sci 65536 2 2, sci 81920 5 2, sci 98304 3 2, sci 114688 7 2,
     sci 131072 4 2, sci 163840 5 2, sci 196608 6 2, sci 229376 7 2, sci 262144 8 2]"

definition kExperimental4kSizeClasses_n18 :: "size_class_info list" where
  "kExperimental4kSizeClasses_n18 =
    [sci 0 0 0, sci 8 1 32, sci 16 1 32, sci 32 1 32, sci 48 1 32, sci 64 1 32, sci 80 1 32, sci 96 1
     32, sci 112 1 32, sci 128 1 32, sci 144 1 32, sci 160 1 32, sci 176 1 32, sci 192 1 32, sci 208
     1 32, sci 224 1 32, sci 240 1 32, sci 256 1 32, sci 288 1 32, sci 304 1 32, sci 320 1 32, sci
     352 1 32, sci 384 1 32, sci 416 1 32, sci 464 1 32, sci 512 1 32, sci 576 1 32, sci 640 1 32,
     sci 704 1 32, sci 832 1 32, sci 960 1 32, sci 1024 1 32, sci 1152 1 32, sci 1280 1 32, sci 1408
     1 32, sci 1536 1 32, sci 1664 1 32, sci 1792 1 32, sci 1920 1 32, sci 2048 1 32, sci 2176 1 30,
     sci 2304 1 28, sci 2432 1 26, sci 2688 1 24, sci 2944 1 22, sci 3328 1 19, sci 3584 1 18, sci
     4096 1 16, sci 4736 1 13, sci 5120 1 12, sci 5504 1 11, sci 5760 1 11, sci 6144 1 10, sci 6528 1
     10, sci 7168 1 9, sci 7680 1 8, sci 8192 1 8, sci 8704 1 7, sci 9344 1 7, sci 9984 1 6, sci
     10880 1 6, sci 11904 1 5, sci 13056 1 5, sci 14464 1 4, sci 16384 1 4, sci 17408 1 3, sci 18688
     1 3, sci 20096 1 3, sci 21760 1 3, sci 23808 1 2, sci 26112 1 2, sci 29056 1 2, sci 32768 1 2,
     sci 37376 1 2, sci 43648 1 2, sci 45568 2 2, sci 52352 1 2, sci 56064 2 2, sci 65536 1 2, sci
     74880 2 2, sci 87296 1 2, sci 104832 2 2, sci 112256 3 2, sci 131072 1 2, sci 149760 3 2, sci
     174720 2 2, sci 196608 3 2, sci 209664 4 2, sci 262144 1 2]"

definition kExperimental4kSizeClasses_n12 :: "size_class_info list" where
  "kExperimental4kSizeClasses_n12 =
    [sci 0 0 0, sci 8 1 32, sci 16 1 32, sci 32 1 32, sci 48 1 32, sci 64 1 32, sci 80 1 32, sci 96 1
     32, sci 112 1 32, sci 128 1 32, sci 144 1 32, sci 160 1 32, sci 176 1 32, sci 192 1 32, sci 208
     1 32, sci 224 1 32, sci 240 1 32, sci 256 1 32, sci 272 1 32, sci 288 1 32, sci 304 1 32, sci
     336 1 32, sci 368 1 32, sci 400 1 32, sci 448 1 32, sci 512 1 32, sci 576 2 32, sci 640 2 32,
     sci 704 2 32, sci 768 2 32, sci 896 2 32, sci 1024 2 32, sci 1152 3 32, sci 1280 3 32, sci 1536
     3 32, sci 1792 4 32, sci 2048 4 32, sci 2304 4 28, sci 2688 4 24, sci 3200 4 20, sci 3584 7 18,
     sci 4096 4 16, sci 4736 5 13, sci 6144 3 10, sci 7168 7 9, sci 8192 4 8]"

lemmas size_class_tables =
  kSizeClasses_a13_def kSizeClasses_a15_def kSizeClasses_a18_def kSizeClasses_a12_def
  kSizeClasses_n13_def kSizeClasses_n15_def kSizeClasses_n18_def kSizeClasses_n12_def
  kExperimentalSizeClasses_a13_def kExperimentalSizeClasses_a15_def kExperimentalSizeClasses_a18_def
  kExperimentalSizeClasses_a12_def kExperimentalSizeClasses_n13_def kExperimentalSizeClasses_n15_def
  kExperimentalSizeClasses_n18_def kExperimentalSizeClasses_n12_def
  kExperimental4kSizeClasses_a13_def kExperimental4kSizeClasses_a15_def
  kExperimental4kSizeClasses_a18_def kExperimental4kSizeClasses_a12_def
  kExperimental4kSizeClasses_n13_def kExperimental4kSizeClasses_n15_def
  kExperimental4kSizeClasses_n18_def kExperimental4kSizeClasses_n12_def

end
