(* ===== verification/Runtime_Size_Classes.thy ===== *)
theory Runtime_Size_Classes
  imports Size_Class_Tables
begin

text \<open>
  The parser of size classes given at run time:
  \<open>src/tcmalloc-src/tcmalloc/runtime_size_classes.cc\<close>. The environment variable holds rows
  \<open>size,pages,num_to_move\<close> separated by semicolons. The lemmas show that the parser stays
  inside its array and its integers, and that it reads back every printed table.
\<close>

section \<open>The parser\<close>

definition zero_class :: size_class_info where
  "zero_class = sci 0 0 0"

text \<open>The loop over the characters, in class \<open>c\<close> at field \<open>t\<close>; the result is the return value and the array.\<close>

fun parse_loop :: "int \<Rightarrow> nat \<Rightarrow> nat \<Rightarrow> int \<Rightarrow> size_class_info list \<Rightarrow> string \<Rightarrow> (int \<times> size_class_info list) result" where
  "parse_loop max_size max_classes c t parsed [] = Inr (int c + 1, parsed)"
| "parse_loop max_size max_classes c t parsed (e # es) =
     (if 48 \<le> (of_char e :: int) \<and> (of_char e :: int) \<le> 57
      then let n = of_char e - 48
           in if length parsed \<le> c then Inl Out_Of_Bounds
              else bind_res (sci_value (parsed ! c) t) (\<lambda>x.
                let v = 10 * x + n
                in if \<not> fits_int v then Inl Int_Overflow
                   else if v > max_size then Inr (-3, parsed)
                   else bind_res (sci_set_value t v (parsed ! c)) (\<lambda>s.
                     parse_loop max_size max_classes c t (parsed[c := s]) es))
      else if e = CHR '';''
      then if max_classes \<le> c + 1 then Inr (int (c + 1), parsed)
           else parse_loop max_size max_classes (c + 1) 0 parsed es
      else if e = CHR '',''
      then if kSizeClassInfoMembers \<le> t + 1 then Inr (-1, parsed)
           else parse_loop max_size max_classes c (t + 1) parsed es
      else Inr (-2, parsed))"

definition ParseSizeClasses :: "string \<Rightarrow> int \<Rightarrow> nat \<Rightarrow> (int \<times> size_class_info list) result" where
  "ParseSizeClasses env max_size max_classes =
     parse_loop max_size max_classes 1 0 (replicate max_classes zero_class) env"

text \<open>Without the variable the array keeps what was on the stack, here \<open>junk\<close>.\<close>

definition MaybeSizeClassesFromEnv ::
  "(string \<Rightarrow> string option) \<Rightarrow> int \<Rightarrow> nat \<Rightarrow> size_class_info list \<Rightarrow> (int \<times> size_class_info list) result" where
  "MaybeSizeClassesFromEnv getenv max_size max_classes junk =
     (case getenv ''TCMALLOC_SIZE_CLASSES'' of None \<Rightarrow> Inr (0, junk)
      | Some e \<Rightarrow> ParseSizeClasses e max_size max_classes)"

section \<open>Fields by index\<close>

definition field :: "int \<Rightarrow> size_class_info \<Rightarrow> int" where
  "field t s = (if t = 0 then sci_size s else if t = 1 then sci_pages s else sci_num_to_move s)"

definition set_field :: "int \<Rightarrow> int \<Rightarrow> size_class_info \<Rightarrow> size_class_info" where
  "set_field t v s = (if t = 0 then s\<lparr>sci_size := v\<rparr> else if t = 1 then s\<lparr>sci_pages := v\<rparr> else s\<lparr>sci_num_to_move := v\<rparr>)"

definition class_bounded :: "int \<Rightarrow> size_class_info \<Rightarrow> bool" where
  "class_bounded m s \<longleftrightarrow> sci_size s \<in> {0..m} \<and> sci_pages s \<in> {0..m} \<and> sci_num_to_move s \<in> {0..m}"

lemma sci_value_field: "0 \<le> t \<Longrightarrow> t < 3 \<Longrightarrow> fits_int (field t s) \<Longrightarrow> sci_value s t = Inr (field t s)"
  by (auto simp: sci_value_def field_def c_int_id)

lemma sci_set_value_field: "0 \<le> t \<Longrightarrow> t < 3 \<Longrightarrow> 0 \<le> v \<Longrightarrow> fits_int v \<Longrightarrow> sci_set_value t v s = Inr (set_field t v s)"
  by (auto simp: sci_set_value_def set_field_def fits_int_def)

lemma field_set_field: "0 \<le> t \<Longrightarrow> t < 3 \<Longrightarrow> field t (set_field t v s) = v"
  "0 \<le> t \<Longrightarrow> t < 3 \<Longrightarrow> 0 \<le> u \<Longrightarrow> u < 3 \<Longrightarrow> u \<noteq> t \<Longrightarrow> field u (set_field t v s) = field u s"
  by (auto simp: field_def set_field_def)

lemma set_field_twice: "set_field t v (set_field t w s) = set_field t v s"
  by (simp add: set_field_def)

lemma class_bounded_field: "class_bounded m s \<Longrightarrow> 0 \<le> field t s \<and> field t s \<le> m"
  by (simp add: class_bounded_def field_def)

lemma class_bounded_set_field: "class_bounded m s \<Longrightarrow> 0 \<le> v \<Longrightarrow> v \<le> m \<Longrightarrow> class_bounded m (set_field t v s)"
  by (auto simp: class_bounded_def set_field_def)

section \<open>The parser is safe\<close>

text \<open>A bound on \<open>max_size\<close> under which ten times a field and a digit stay an \<open>int\<close>.\<close>

definition parse_bound :: "int \<Rightarrow> bool" where
  "parse_bound m \<longleftrightarrow> 0 \<le> m \<and> m \<le> 214748363"

lemma parse_loop_safe:
  assumes "1 \<le> c" and "c < max_classes" and "length parsed = max_classes" and "0 \<le> t" and "t < 3"
    and "parse_bound m" and "\<forall>s \<in> set parsed. class_bounded m s"
  shows "\<exists>r out. parse_loop m max_classes c t parsed env = Inr (r, out) \<and> length out = max_classes
    \<and> (r \<in> {-3, -2, -1} \<or> 2 \<le> r \<and> r \<le> int max_classes) \<and> out ! 0 = parsed ! 0 \<and> (\<forall>s \<in> set out. class_bounded m s)"
  using assms
proof (induction env arbitrary: c t parsed)
  case (Cons e es)
  let ?n = "of_char e - 48 :: int" and ?s = "parsed ! c"
  show ?case
  proof (cases "48 \<le> (of_char e :: int) \<and> (of_char e :: int) \<le> 57")
    case True
    have s: "class_bounded m ?s" using Cons.prems(2,3,7) by simp
    then have f: "0 \<le> field t ?s" "field t ?s \<le> m" using class_bounded_field by auto
    let ?v = "10 * field t ?s + ?n"
    have fit: "fits_int (field t ?s)" "fits_int ?v" "0 \<le> ?v"
      using f True Cons.prems(6) by (auto simp: fits_int_def parse_bound_def)
    show ?thesis
    proof (cases "?v > m")
      case True
      then show ?thesis using \<open>48 \<le> _ \<and> _\<close> Cons.prems fit by (auto simp: sci_value_field Let_def)
    next
      case False
      have "\<forall>s \<in> set (parsed[c := set_field t ?v ?s]). class_bounded m s"
        using Cons.prems(7) class_bounded_set_field [OF s fit(3)] False set_update_subset_insert [of parsed c] by fastforce
      moreover have "parse_loop m max_classes c t parsed (e # es) = parse_loop m max_classes c t (parsed[c := set_field t ?v ?s]) es"
        using True Cons.prems fit False by (simp add: sci_value_field sci_set_value_field Let_def)
      ultimately show ?thesis
        using Cons.IH [of c "parsed[c := set_field t ?v ?s]" t] Cons.prems by simp
    qed
  next
    case False
    note other = this
    consider "e = CHR '';''" "c + 1 < max_classes" | "e = CHR '',''" "t + 1 < 3"
      | "e = CHR '';''" "\<not> c + 1 < max_classes" | "e = CHR '',''" "\<not> t + 1 < 3" | "e \<noteq> CHR '';''" "e \<noteq> CHR '',''"
      by blast
    then show ?thesis
    proof cases
      case 1
      then show ?thesis using Cons.IH [of "c + 1" parsed 0] Cons.prems by simp
    next
      case 2
      then show ?thesis using Cons.IH [of c parsed "t + 1"] Cons.prems by (simp add: kSizeClassInfoMembers_def)
    qed (use other Cons.prems in \<open>auto simp: kSizeClassInfoMembers_def\<close>)
  qed
qed auto

lemma parse_safe:
  assumes "2 \<le> max_classes" and "parse_bound m"
  shows "\<exists>r out. ParseSizeClasses env m max_classes = Inr (r, out) \<and> length out = max_classes
    \<and> (r \<in> {-3, -2, -1} \<or> 2 \<le> r \<and> r \<le> int max_classes) \<and> out ! 0 = zero_class \<and> (\<forall>s \<in> set out. class_bounded m s)"
  using parse_loop_safe [of 1 max_classes "replicate max_classes zero_class" 0 m env] assms
  by (auto simp: ParseSizeClasses_def class_bounded_def zero_class_def parse_bound_def)

section \<open>Reading back a printed table\<close>

declare parse_loop.simps [simp del]

definition show_class :: "size_class_info \<Rightarrow> string" where
  "show_class s = decimal (nat (sci_size s)) @ '','' @ decimal (nat (sci_pages s)) @ '','' @ decimal (nat (sci_num_to_move s))"

fun show_classes :: "size_class_info list \<Rightarrow> string" where
  "show_classes [] = []"
| "show_classes [s] = show_class s"
| "show_classes (s # ss) = show_class s @ '';'' @ show_classes ss"

lemma parse_digit:
  assumes "d < 10" and "c < length parsed" and "0 \<le> t" and "t < 3" and "fits_int (field t (parsed ! c))"
    and "v = 10 * field t (parsed ! c) + int d" and "0 \<le> v" and "v \<le> m" and "parse_bound m"
  shows "parse_loop m k c t parsed (char_of (48 + d) # es) = parse_loop m k c t (parsed[c := set_field t v (parsed ! c)]) es"
proof -
  have "fits_int v" using assms(7-9) by (simp add: fits_int_def parse_bound_def)
  then show ?thesis using assms by (simp add: parse_loop.simps of_char_digit sci_value_field sci_set_value_field Let_def)
qed

lemma parse_decimal:
  assumes "c < length parsed" and "0 \<le> t" and "t < 3" and "field t (parsed ! c) = 0" and "int n \<le> m" and "parse_bound m"
  shows "parse_loop m k c t parsed (decimal n @ es) = parse_loop m k c t (parsed[c := set_field t (int n) (parsed ! c)]) es"
  using assms
proof (induction n arbitrary: es rule: decimal.induct)
  case (1 n)
  show ?case
  proof (cases "n < 10")
    case True
    then show ?thesis using 1(2-) by (subst decimal.simps) (simp add: parse_digit [where v = "int n"] fits_int_def)
  next
    case False
    let ?p = "parsed[c := set_field t (int (n div 10)) (parsed ! c)]"
    have "parse_loop m k c t parsed (decimal n @ es) = parse_loop m k c t ?p (char_of (48 + n mod 10) # es)"
      using False 1 by (subst decimal.simps) simp
    moreover have "int n = 10 * int (n div 10) + int (n mod 10)" by presburger
    moreover have "fits_int (int (n div 10))" using 1(6,7) by (auto simp: fits_int_def parse_bound_def)
    ultimately show ?thesis
      using 1(2-) by (simp add: parse_digit [where v = "int n"] field_set_field set_field_twice del: of_nat_add)
  qed
qed

lemma parse_class:
  assumes "c < length parsed" and "parsed ! c = zero_class" and "class_bounded m s" and "parse_bound m"
  shows "parse_loop m k c 0 parsed (show_class s @ es) = parse_loop m k c 2 (parsed[c := s]) es"
proof -
  have comma: "parse_loop m k c t p (CHR '','' # xs) = parse_loop m k c (t + 1) p xs" if "t < 2" for t p xs
    using that by (simp add: parse_loop.simps kSizeClassInfoMembers_def)
  show ?thesis
    using assms by (cases s) (simp add: show_class_def parse_decimal comma zero_class_def field_def set_field_def sci_def class_bounded_def)
qed

lemma parse_classes:
  assumes "ss \<noteq> []" and "c + length ss \<le> k" and "length parsed = k" and "1 \<le> c"
    and "\<forall>i. c \<le> i \<and> i < k \<longrightarrow> parsed ! i = zero_class" and "\<forall>s \<in> set ss. class_bounded m s" and "parse_bound m"
  shows "parse_loop m k c 0 parsed (show_classes ss) = Inr (int (c + length ss), take c parsed @ ss @ drop (c + length ss) parsed)"
  using assms
proof (induction ss arbitrary: c parsed rule: show_classes.induct)
  case (2 s)
  then show ?case using parse_class [of c parsed m s k "[]"] by (simp add: upd_conv_take_nth_drop parse_loop.simps)
next
  case (3 s s' ss)
  let ?p = "parsed[c := s]"
  have "parse_loop m k c 0 parsed (show_classes (s # s' # ss)) = parse_loop m k (c + 1) 0 ?p (show_classes (s' # ss))"
    using 3(3-) parse_class [of c parsed m s k "CHR '';'' # show_classes (s' # ss)"] by (simp add: parse_loop.simps)
  also have "\<dots> = Inr (int (c + 1 + length (s' # ss)), take (c + 1) ?p @ (s' # ss) @ drop (c + 1 + length (s' # ss)) ?p)"
    using 3(3-) by (intro "3.IH") auto
  finally show ?case using 3(3-) by (simp add: take_Suc_conv_app_nth)
qed simp

section \<open>Properties\<close>

text \<open>
  C40: on any string the parser stays inside its array and its integers. It returns an error
  code, or the number of classes, between 2 and the size of the array; class 0 stays empty
  and every field lies between 0 and the largest size.
\<close>

theorem parse_size_classes_safe:
  assumes "2 \<le> max_classes" and "parse_bound max_size"
  shows "\<exists>r out. ParseSizeClasses env max_size max_classes = Inr (r, out) \<and> length out = max_classes
    \<and> (r \<in> {-3, -2, -1} \<or> 2 \<le> r \<and> r \<le> int max_classes) \<and> out ! 0 = zero_class
    \<and> (\<forall>s \<in> set out. class_bounded max_size s)"
  using assms by (rule parse_safe)

theorem parse_size_classes_safe_witness:
  "\<exists>r out. ParseSizeClasses ''8,1;;16,,4,x'' 8192 46 = Inr (r, out) \<and> length out = 46 \<and> out ! 0 = zero_class"
  using parse_size_classes_safe [of 46 8192 "''8,1;;16,,4,x''"] by (fastforce simp: parse_bound_def)

text \<open>
  C39: a printed table of classes whose fields do not exceed the largest size is read back
  as it was, in the slots from 1 on, and the return value counts the empty class 0 as well.
\<close>

theorem parse_shown_classes:
  assumes "ss \<noteq> []" and "length ss < max_classes" and "parse_bound max_size" and "\<forall>s \<in> set ss. class_bounded max_size s"
  shows "ParseSizeClasses (show_classes ss) max_size max_classes
    = Inr (int (length ss) + 1, zero_class # ss @ replicate (max_classes - 1 - length ss) zero_class)"
  using parse_classes [of ss 1 max_classes "replicate max_classes zero_class" max_size] assms
  by (simp add: ParseSizeClasses_def take_replicate)

theorem parse_shown_classes_witness:
  "ParseSizeClasses (show_classes [sci 8 1 32, sci 8192 2 2]) 8192 4 = Inr (3, [sci 0 0 0, sci 8 1 32, sci 8192 2 2, sci 0 0 0])"
  using parse_shown_classes [of "[sci 8 1 32, sci 8192 2 2]" 4 8192]
  by (simp add: parse_bound_def class_bounded_def zero_class_def)

end
