(* ===== verification/Experiments.thy ===== *)
theory Experiments
  imports Prelude
begin

text \<open>
  The experiments of the vendored tcmalloc: the table of
  \<open>src/tcmalloc-src/tcmalloc/experiment_config.h\<close> and the selection by two environment
  variables in \<open>experiment.cc\<close>. The environment is a function \<open>getenv\<close>; the sources read it
  once and keep the result in a static buffer.
\<close>

section \<open>The table\<close>

datatype Experiment = TCMALLOC_TEMERAIRE | TCMALLOC_SANS_56_SIZECLASS | TCMALLOC_ARBITRARY_TRANSFER_CACHE
  | TCMALLOC_LARGE_NUM_TO_MOVE | TCMALLOC_PARTIAL_RELEASE | TCMALLOC_4K_SIZE_CLASS

fun experiment_id :: "Experiment \<Rightarrow> nat" where
  "experiment_id TCMALLOC_TEMERAIRE = 0"
| "experiment_id TCMALLOC_SANS_56_SIZECLASS = 1"
| "experiment_id TCMALLOC_ARBITRARY_TRANSFER_CACHE = 2"
| "experiment_id TCMALLOC_LARGE_NUM_TO_MOVE = 3"
| "experiment_id TCMALLOC_PARTIAL_RELEASE = 4"
| "experiment_id TCMALLOC_4K_SIZE_CLASS = 5"

definition kNumExperiments :: nat where
  "kNumExperiments = 6"

definition experiments :: "(Experiment \<times> string) list" where
  "experiments =
    [(TCMALLOC_TEMERAIRE, ''TCMALLOC_TEMERAIRE''),
     (TCMALLOC_SANS_56_SIZECLASS, ''TCMALLOC_SANS_56_SIZECLASS''),
     (TCMALLOC_ARBITRARY_TRANSFER_CACHE, ''TCMALLOC_ARBITRARY_TRANSFER_CACHE''),
     (TCMALLOC_LARGE_NUM_TO_MOVE, ''TCMALLOC_LARGE_NUM_TO_MOVE''),
     (TCMALLOC_PARTIAL_RELEASE, ''TCMALLOC_PARTIAL_RELEASE''),
     (TCMALLOC_4K_SIZE_CLASS, ''TCMALLOC_4K_SIZE_CLASS'')]"

section \<open>Selection\<close>

fun lookup_label :: "(Experiment \<times> string) list \<Rightarrow> string \<Rightarrow> Experiment option" where
  "lookup_label [] label = None"
| "lookup_label ((eid, name) # configs) label = (if name = label then Some eid else lookup_label configs label)"

definition LookupExperimentID :: "string \<Rightarrow> Experiment option" where
  "LookupExperimentID label = lookup_label experiments label"

definition kDelimiter :: char where
  "kDelimiter = CHR '',''"

text \<open>
  The tokens \<open>ParseExperiments\<close> passes to its callback, in order; the argument is the rest of
  the labels from \<open>pos\<close> on.
\<close>

function ParseExperiments :: "string \<Rightarrow> string list" where
  "ParseExperiments labels =
     (case dropWhile (\<lambda>c. c \<noteq> kDelimiter) labels of
        [] \<Rightarrow> [labels]
      | _ # rest \<Rightarrow> takeWhile (\<lambda>c. c \<noteq> kDelimiter) labels # ParseExperiments rest)"
  by pat_completeness auto
termination
proof (relation "measure length", simp)
  fix labels rest :: string and c
  assume "dropWhile (\<lambda>c. c \<noteq> kDelimiter) labels = c # rest"
  then have "length (c # rest) \<le> length labels" using length_dropWhile_le [of "\<lambda>c. c \<noteq> kDelimiter" labels] by simp
  then show "(rest, labels) \<in> measure length" by simp
qed

declare ParseExperiments.simps [simp del]

definition mark_experiment :: "bool \<Rightarrow> bool list \<Rightarrow> string \<Rightarrow> bool list" where
  "mark_experiment v buffer token =
     (case LookupExperimentID token of Some eid \<Rightarrow> buffer[experiment_id eid := v] | None \<Rightarrow> buffer)"

definition SelectExperiments :: "string \<Rightarrow> string \<Rightarrow> bool list" where
  "SelectExperiments active disabled =
     (let buffer = foldl (mark_experiment True) (replicate kNumExperiments False) (ParseExperiments active);
          buffer = (if disabled = ''all'' then replicate kNumExperiments False else buffer)
      in foldl (mark_experiment False) buffer (ParseExperiments disabled))"

definition GetSelectedExperiments :: "(string \<Rightarrow> string option) \<Rightarrow> bool list" where
  "GetSelectedExperiments getenv =
     SelectExperiments (case getenv ''BORG_EXPERIMENTS'' of Some s \<Rightarrow> s | None \<Rightarrow> [])
       (case getenv ''BORG_DISABLE_EXPERIMENTS'' of Some s \<Rightarrow> s | None \<Rightarrow> [])"

definition IsExperimentActive :: "(string \<Rightarrow> string option) \<Rightarrow> Experiment \<Rightarrow> bool" where
  "IsExperimentActive getenv exp = GetSelectedExperiments getenv ! experiment_id exp"

section \<open>Reports\<close>

definition FillExperimentProperties :: "(string \<Rightarrow> string option) \<Rightarrow> (string \<rightharpoonup> nat) \<Rightarrow> (string \<rightharpoonup> nat)" where
  "FillExperimentProperties getenv result =
     foldl (\<lambda>m (eid, name). m(''tcmalloc.experiment.'' @ name \<mapsto> if IsExperimentActive getenv eid then 1 else 0))
       result experiments"

definition FindExperimentByName :: "string \<Rightarrow> Experiment option" where
  "FindExperimentByName name = lookup_label experiments name"

definition PrintExperiments :: "(string \<Rightarrow> string option) \<Rightarrow> string" where
  "PrintExperiments getenv =
     (let by_id = GetSelectedExperiments getenv;
          status = map (\<lambda>(eid, name). by_id ! experiment_id eid) experiments
      in ''MALLOC EXPERIMENTS:''
         @ concat (map (\<lambda>i. '' '' @ snd (experiments ! i) @ ''='' @ (if status ! i then ''1'' else ''0'')) [0..<length experiments])
         @ [CHR 0x0A])"

section \<open>Tokens\<close>

fun join_tokens :: "string list \<Rightarrow> string" where
  "join_tokens [] = []"
| "join_tokens [t] = t"
| "join_tokens (t # ts) = t @ kDelimiter # join_tokens ts"

lemma join_tokens_Cons: "ts \<noteq> [] \<Longrightarrow> join_tokens (t # ts) = t @ kDelimiter # join_tokens ts"
  by (cases ts) auto

lemma parse_experiments_nonempty: "ParseExperiments labels \<noteq> []"
  by (subst ParseExperiments.simps) (simp split: list.splits)

lemma parse_experiments_spec:
  "join_tokens (ParseExperiments labels) = labels \<and> (\<forall>t \<in> set (ParseExperiments labels). kDelimiter \<notin> set t)"
proof (induction labels rule: ParseExperiments.induct)
  case (1 labels)
  let ?P = "\<lambda>c. c \<noteq> kDelimiter"
  show ?case
  proof (cases "dropWhile ?P labels")
    case Nil
    then have "ParseExperiments labels = [labels]" by (subst ParseExperiments.simps) (simp only: list.case)
    then show ?thesis using Nil by (auto simp: dropWhile_eq_Nil_conv)
  next
    case (Cons c rest)
    have eq: "ParseExperiments labels = takeWhile ?P labels # ParseExperiments rest"
      using Cons by (subst ParseExperiments.simps) simp
    have "c = kDelimiter" using hd_dropWhile [of ?P labels] Cons by simp
    moreover have "takeWhile ?P labels @ dropWhile ?P labels = labels" by (rule takeWhile_dropWhile_id)
    ultimately have "join_tokens (ParseExperiments labels) = labels"
      unfolding eq using 1 [OF Cons] Cons by (simp add: join_tokens_Cons parse_experiments_nonempty)
    moreover have "kDelimiter \<notin> set (takeWhile ?P labels)" by (auto dest: set_takeWhileD)
    ultimately show ?thesis using 1 [OF Cons] unfolding eq by auto
  qed
qed

section \<open>The selected set\<close>

definition experiment_name :: "Experiment \<Rightarrow> string" where
  "experiment_name e = snd (experiments ! experiment_id e)"

lemma lookup_name: "LookupExperimentID label = Some e \<longleftrightarrow> label = experiment_name e"
  unfolding LookupExperimentID_def experiment_name_def experiments_def by (cases e) auto

lemma experiment_id_inj [simp]: "experiment_id d = experiment_id e \<longleftrightarrow> d = e"
  by (cases d; cases e) simp_all

lemma experiment_id_bound [simp]: "experiment_id e < kNumExperiments"
  by (cases e) (simp_all add: kNumExperiments_def)

lemma mark_experiments:
  assumes "length buffer = kNumExperiments"
  shows "length (foldl (mark_experiment v) buffer tokens) = kNumExperiments
    \<and> foldl (mark_experiment v) buffer tokens ! experiment_id e
      = (if experiment_name e \<in> set tokens then v else buffer ! experiment_id e)"
  using assms
proof (induction tokens arbitrary: buffer)
  case (Cons t ts)
  have "mark_experiment v buffer t ! experiment_id e = (if experiment_name e = t then v else buffer ! experiment_id e)"
  proof (cases "LookupExperimentID t")
    case None
    then have "experiment_name e \<noteq> t" using lookup_name [of t e] by auto
    then show ?thesis using None by (simp add: mark_experiment_def)
  next
    case (Some d)
    then have "experiment_name e = t \<longleftrightarrow> d = e" using lookup_name [of t e] by auto
    then show ?thesis using Some Cons.prems by (simp add: mark_experiment_def nth_list_update)
  qed
  moreover have "length (mark_experiment v buffer t) = kNumExperiments"
    using Cons.prems by (simp add: mark_experiment_def split: option.splits)
  ultimately show ?case using Cons.IH by auto
qed simp

lemma select_experiments:
  "SelectExperiments active disabled ! experiment_id e \<longleftrightarrow>
     experiment_name e \<in> set (ParseExperiments active) \<and> disabled \<noteq> ''all''
     \<and> experiment_name e \<notin> set (ParseExperiments disabled)"
  unfolding SelectExperiments_def Let_def by (simp add: mark_experiments)

section \<open>Properties\<close>

text \<open>
  an experiment is active exactly when its name is one of the comma-separated labels of
  \<open>BORG_EXPERIMENTS\<close>, \<open>BORG_DISABLE_EXPERIMENTS\<close> is not \<open>all\<close>, and its name is not one of the
  labels of that variable. The labels are the pieces between the commas: they contain none,
  and joined by commas they give the variable back.
\<close>

theorem experiment_active_iff:
  "IsExperimentActive getenv e \<longleftrightarrow>
     (\<exists>on off. on = (case getenv ''BORG_EXPERIMENTS'' of Some s \<Rightarrow> s | None \<Rightarrow> [])
       \<and> off = (case getenv ''BORG_DISABLE_EXPERIMENTS'' of Some s \<Rightarrow> s | None \<Rightarrow> [])
       \<and> experiment_name e \<in> set (ParseExperiments on) \<and> off \<noteq> ''all'' \<and> experiment_name e \<notin> set (ParseExperiments off)
       \<and> join_tokens (ParseExperiments on) = on \<and> kDelimiter \<notin> \<Union> (set ` set (ParseExperiments on)))"
  using parse_experiments_spec by (auto simp: IsExperimentActive_def GetSelectedExperiments_def select_experiments)

end
