(* ===== verification/Size_Map.thy ===== *)
theory Size_Map
  imports Runtime_Size_Classes Experiments
begin

text \<open>
  The size map of the vendored tcmalloc: the configurations and \<open>class SizeMap\<close> of
  \<open>src/tcmalloc-src/tcmalloc/common.h\<close>, with \<open>ValidSizeClasses\<close>, \<open>SetSizeClasses\<close> and \<open>Init\<close>
  of \<open>common.cc\<close>. The main result is that \<open>Init\<close>, on any table that passes
  \<open>ValidSizeClasses\<close>, builds a lookup array with which \<open>GetSizeClass\<close> finds the smallest
  class that holds the request.
\<close>

section \<open>Configurations\<close>

datatype page_config = Small_But_Slow | Default_Pages | Large_Pages | Pages_256K

fun kPageShift :: "page_config \<Rightarrow> nat" where
  "kPageShift Small_But_Slow = 12"
| "kPageShift Large_Pages = 15"
| "kPageShift Pages_256K = 18"
| "kPageShift Default_Pages = 13"

fun kNumClasses :: "page_config \<Rightarrow> nat" where
  "kNumClasses Small_But_Slow = 46"
| "kNumClasses Large_Pages = 78"
| "kNumClasses Pages_256K = 89"
| "kNumClasses Default_Pages = 86"

fun kMaxSize :: "page_config \<Rightarrow> int" where
  "kMaxSize Small_But_Slow = 8192"
| "kMaxSize Large_Pages = 256 * 1024"
| "kMaxSize Pages_256K = 256 * 1024"
| "kMaxSize Default_Pages = 256 * 1024"

fun kMinPages :: "page_config \<Rightarrow> int" where
  "kMinPages Small_But_Slow = 2"
| "kMinPages Large_Pages = 8"
| "kMinPages Pages_256K = 8"
| "kMinPages Default_Pages = 8"

definition kPageSize :: "page_config \<Rightarrow> int" where
  "kPageSize cfg = 2 ^ kPageShift cfg"

definition kMaxObjectsToMove :: int where "kMaxObjectsToMove = 128"
definition kAlignment :: int where "kAlignment = 8"
definition kMultiPageSize :: int where "kMultiPageSize = 512"
definition kMultiPageAlignment :: int where "kMultiPageAlignment = 64"
definition kMaxSmallSize :: int where "kMaxSmallSize = 1024"

lemmas size_map_consts = kMaxObjectsToMove_def kAlignment_def kMultiPageSize_def kMultiPageAlignment_def
  kMaxSmallSize_def

definition kClassArraySize :: "page_config \<Rightarrow> nat" where
  "kClassArraySize cfg = nat ((kMaxSize cfg + 127 + 120 * 2 ^ 7) div 2 ^ 7 + 1)"

text \<open>The tables for a configuration; \<open>al\<close> says that \<open>new\<close> aligns to at most 8 bytes.\<close>

fun kSizeClasses :: "bool \<Rightarrow> page_config \<Rightarrow> size_class_info list" where
  "kSizeClasses al Default_Pages = (if al then kSizeClasses_a13 else kSizeClasses_n13)"
| "kSizeClasses al Large_Pages = (if al then kSizeClasses_a15 else kSizeClasses_n15)"
| "kSizeClasses al Pages_256K = (if al then kSizeClasses_a18 else kSizeClasses_n18)"
| "kSizeClasses al Small_But_Slow = (if al then kSizeClasses_a12 else kSizeClasses_n12)"

fun kExperimentalSizeClasses :: "bool \<Rightarrow> page_config \<Rightarrow> size_class_info list" where
  "kExperimentalSizeClasses al Default_Pages = (if al then kExperimentalSizeClasses_a13 else kExperimentalSizeClasses_n13)"
| "kExperimentalSizeClasses al Large_Pages = (if al then kExperimentalSizeClasses_a15 else kExperimentalSizeClasses_n15)"
| "kExperimentalSizeClasses al Pages_256K = (if al then kExperimentalSizeClasses_a18 else kExperimentalSizeClasses_n18)"
| "kExperimentalSizeClasses al Small_But_Slow = (if al then kExperimentalSizeClasses_a12 else kExperimentalSizeClasses_n12)"

fun kExperimental4kSizeClasses :: "bool \<Rightarrow> page_config \<Rightarrow> size_class_info list" where
  "kExperimental4kSizeClasses al Default_Pages = (if al then kExperimental4kSizeClasses_a13 else kExperimental4kSizeClasses_n13)"
| "kExperimental4kSizeClasses al Large_Pages = (if al then kExperimental4kSizeClasses_a15 else kExperimental4kSizeClasses_n15)"
| "kExperimental4kSizeClasses al Pages_256K = (if al then kExperimental4kSizeClasses_a18 else kExperimental4kSizeClasses_n18)"
| "kExperimental4kSizeClasses al Small_But_Slow = (if al then kExperimental4kSizeClasses_a12 else kExperimental4kSizeClasses_n12)"

section \<open>Validation\<close>

text \<open>The body of the loop of \<open>ValidSizeClasses\<close> for class \<open>c\<close>: false when it returns.\<close>

definition valid_class :: "page_config \<Rightarrow> size_class_info \<Rightarrow> size_class_info \<Rightarrow> bool" where
  "valid_class cfg prev cur =
     (let class_size = sci_size cur; pages = sci_pages cur; num_objects_to_move = sci_num_to_move cur
      in if class_size \<le> sci_size prev then False
         else if class_size > kMaxSize cfg then False
         else let alignment = (if class_size \<le> kMultiPageSize then kAlignment
                               else if class_size \<le> kMaxSmallSize then kMultiPageAlignment else 128)
              in if class_size AND (alignment - 1) \<noteq> 0 then False
                 else if class_size \<le> kMultiPageSize \<and> pages \<noteq> 1 then False
                 else if pages \<ge> 256 then False
                 else \<not> num_objects_to_move > kMaxObjectsToMove)"

definition ValidSizeClasses :: "page_config \<Rightarrow> int \<Rightarrow> size_class_info list \<Rightarrow> bool" where
  "ValidSizeClasses cfg num_classes parsed =
     (if num_classes \<le> 0 then False
      else list_all (\<lambda>c. valid_class cfg (parsed ! (c - 1)) (parsed ! c)) [1..<nat num_classes]
        \<and> \<not> sci_size (parsed ! (nat num_classes - 1)) < kMaxSize cfg)"

section \<open>The map\<close>

record size_map =
  class_array :: "int list"
  num_objects_to_move_arr :: "int list"
  class_to_pages_arr :: "int list"
  class_to_size_arr :: "int list"

text \<open>Zero-initialised static storage.\<close>

definition zero_size_map :: "page_config \<Rightarrow> size_map" where
  "zero_size_map cfg = \<lparr>class_array = replicate (kClassArraySize cfg) 0,
     num_objects_to_move_arr = replicate (kNumClasses cfg) 0,
     class_to_pages_arr = replicate (kNumClasses cfg) 0,
     class_to_size_arr = replicate (kNumClasses cfg) 0\<rparr>"

definition ClassIndexMaybe :: "page_config \<Rightarrow> int \<Rightarrow> int option" where
  "ClassIndexMaybe cfg s =
     (if s \<le> kMaxSmallSize then Some ((s + 7) div 2 ^ 3)
      else if s \<le> kMaxSize cfg then Some ((s + 127 + 120 * 2 ^ 7) div 2 ^ 7)
      else None)"

definition ClassIndex :: "page_config \<Rightarrow> int \<Rightarrow> int result" where
  "ClassIndex cfg s = (case ClassIndexMaybe cfg s of Some i \<Rightarrow> Inr i | None \<Rightarrow> Inl Assert_Failed)"

text \<open>
  \<open>SetSizeClasses\<close>: the classes from the argument, and the largest static class for the
  rest. \<open>class_to_pages_\<close> and \<open>num_objects_to_move_\<close> hold \<open>unsigned char\<close>s,
  \<open>class_to_size_\<close> holds \<open>uint32_t\<close>s. \<open>large\<close> is whether the experiment
  \<open>TCMALLOC_LARGE_NUM_TO_MOVE\<close> is active.
\<close>

definition SetSizeClasses ::
  "page_config \<Rightarrow> bool \<Rightarrow> size_class_info list \<Rightarrow> nat \<Rightarrow> size_class_info list \<Rightarrow> size_map \<Rightarrow> size_map" where
  "SetSizeClasses cfg large statics num_classes parsed sm =
     (let top = statics ! (kNumClasses cfg - 1);
          move = (if large then min kMaxObjectsToMove (4 * sci_num_to_move top) else sci_num_to_move top);
          fill = (\<lambda>f rest. map (\<lambda>c. if num_classes \<le> c then rest else if c = 0 then 0 else f (parsed ! c)) [0..<kNumClasses cfg])
      in sm\<lparr>class_to_size_arr := fill (\<lambda>s. sci_size s mod 2 ^ 32) (sci_size top mod 2 ^ 32),
            class_to_pages_arr := fill (\<lambda>s. sci_pages s mod 2 ^ 8) (sci_pages top mod 2 ^ 8),
            num_objects_to_move_arr := fill (\<lambda>s. sci_num_to_move s mod 2 ^ 8) (move mod 2 ^ 8)\<rparr>)"

text \<open>\<open>MaybeRunTimeSizeClasses\<close>; the array is on the stack, its content before is \<open>junk\<close>.\<close>

definition MaybeRunTimeSizeClasses ::
  "page_config \<Rightarrow> (string \<Rightarrow> string option) \<Rightarrow> size_class_info list \<Rightarrow> size_class_info list \<Rightarrow> size_map \<Rightarrow> (bool \<times> size_map) result" where
  "MaybeRunTimeSizeClasses cfg getenv statics junk sm =
     bind_res (MaybeSizeClassesFromEnv getenv (kMaxSize cfg) (kNumClasses cfg) junk) (\<lambda>(num_classes, parsed).
       if \<not> ValidSizeClasses cfg num_classes parsed then Inr (False, sm)
       else if num_classes \<noteq> int (kNumClasses cfg) then Inr (False, sm)
       else Inr (True, SetSizeClasses cfg (IsExperimentActive getenv TCMALLOC_LARGE_NUM_TO_MOVE) statics (nat num_classes) parsed sm))"

text \<open>The loops of \<open>Init\<close>: the inner one for class \<open>c\<close> from size \<open>s\<close>, and the outer one.\<close>

function fill_class :: "page_config \<Rightarrow> nat \<Rightarrow> int \<Rightarrow> int \<Rightarrow> int list \<Rightarrow> int list result" where
  "fill_class cfg c s max_size_in_class arr =
     (if s \<le> max_size_in_class
      then bind_res (ClassIndex cfg s) (\<lambda>i.
           if i < 0 \<or> int (length arr) \<le> i then Inl Out_Of_Bounds
           else fill_class cfg c (s + kAlignment) max_size_in_class (arr[nat i := int c mod 2 ^ 8]))
      else Inr arr)"
  by pat_completeness auto
termination
  by (relation "measure (\<lambda>(cfg, c, s, m, arr). nat (m + 1 - s))") (auto simp: kAlignment_def)

declare fill_class.simps [simp del]

fun init_classes :: "page_config \<Rightarrow> int list \<Rightarrow> nat list \<Rightarrow> int \<Rightarrow> int list \<Rightarrow> int list result" where
  "init_classes cfg sizes [] next_size arr = Inr arr"
| "init_classes cfg sizes (c # cs) next_size arr =
     bind_res (fill_class cfg c next_size (sizes ! c) arr) (\<lambda>arr'.
       if sizes ! c + kAlignment > kMaxSize cfg then Inr arr'
       else init_classes cfg sizes cs (sizes ! c + kAlignment) arr')"

text \<open>\<open>Init\<close>: the sanity checks, the static table of the active experiment, the table of the environment, and the loops.\<close>

definition init_tables :: "bool \<Rightarrow> page_config \<Rightarrow> (string \<Rightarrow> string option) \<Rightarrow> size_class_info list" where
  "init_tables al cfg getenv =
     (if IsExperimentActive getenv TCMALLOC_SANS_56_SIZECLASS then kExperimentalSizeClasses al cfg
      else if IsExperimentActive getenv TCMALLOC_4K_SIZE_CLASS then kExperimental4kSizeClasses al cfg
      else kSizeClasses al cfg)"

definition Init :: "bool \<Rightarrow> page_config \<Rightarrow> (string \<Rightarrow> string option) \<Rightarrow> size_class_info list \<Rightarrow> size_map \<Rightarrow> size_map result" where
  "Init al cfg getenv junk sm =
     bind_res (ClassIndex cfg 0) (\<lambda>i0.
     if i0 \<noteq> 0 then Inl Assert_Failed
     else bind_res (ClassIndex cfg (kMaxSize cfg)) (\<lambda>im.
     if im \<ge> int (kClassArraySize cfg) then Inl Assert_Failed
     else bind_res (MaybeRunTimeSizeClasses cfg getenv (kSizeClasses al cfg) junk
         (SetSizeClasses cfg (IsExperimentActive getenv TCMALLOC_LARGE_NUM_TO_MOVE) (kSizeClasses al cfg)
            (kNumClasses cfg) (init_tables al cfg getenv) sm)) (\<lambda>(_, sm1).
     bind_res (init_classes cfg (class_to_size_arr sm1) [1..<kNumClasses cfg] 0 (class_array sm1)) (\<lambda>arr.
     Inr (sm1\<lparr>class_array := arr\<rparr>)))))"

definition GetSizeClass :: "page_config \<Rightarrow> size_map \<Rightarrow> int \<Rightarrow> int option" where
  "GetSizeClass cfg sm s =
     (case ClassIndexMaybe cfg s of Some idx \<Rightarrow> Some (class_array sm ! nat idx) | None \<Rightarrow> None)"

definition class_to_size :: "page_config \<Rightarrow> size_map \<Rightarrow> nat \<Rightarrow> int result" where
  "class_to_size cfg sm cl = (if cl < kNumClasses cfg then Inr (class_to_size_arr sm ! cl) else Inl Assert_Failed)"

definition class_to_pages :: "page_config \<Rightarrow> size_map \<Rightarrow> nat \<Rightarrow> int result" where
  "class_to_pages cfg sm cl = (if cl < kNumClasses cfg then Inr (class_to_pages_arr sm ! cl) else Inl Assert_Failed)"

definition num_objects_to_move :: "page_config \<Rightarrow> size_map \<Rightarrow> nat \<Rightarrow> int result" where
  "num_objects_to_move cfg sm cl = (if cl < kNumClasses cfg then Inr (num_objects_to_move_arr sm ! cl) else Inl Assert_Failed)"

definition SizeClass :: "page_config \<Rightarrow> size_map \<Rightarrow> int \<Rightarrow> int result" where
  "SizeClass cfg sm s =
     (if s \<le> kMaxSize cfg then Inr (case GetSizeClass cfg sm s of Some c \<Rightarrow> c | None \<Rightarrow> 0) else Inl Assert_Failed)"

text \<open>The loop of the aligned lookup, from class \<open>cl\<close> on.\<close>

function find_aligned_class :: "page_config \<Rightarrow> size_map \<Rightarrow> int \<Rightarrow> nat \<Rightarrow> nat option result" where
  "find_aligned_class cfg sm msk cl =
     bind_res (class_to_size cfg sm cl) (\<lambda>csz.
       if csz AND msk = 0 then Inr (Some cl)
       else if cl + 1 < kNumClasses cfg then find_aligned_class cfg sm msk (cl + 1) else Inr None)"
  by pat_completeness auto
termination
  by (relation "measure (\<lambda>(cfg, sm, m, cl). kNumClasses cfg - cl)") auto

declare find_aligned_class.simps [simp del]

definition GetSizeClassAligned :: "page_config \<Rightarrow> size_map \<Rightarrow> int \<Rightarrow> int \<Rightarrow> nat option result" where
  "GetSizeClassAligned cfg sm s align =
     (if \<not> align > 0 then Inl Assert_Failed
      else if align AND (align - 1) \<noteq> 0 then Inl Assert_Failed
      else if align \<ge> kPageSize cfg then Inr None
      else case GetSizeClass cfg sm s of None \<Rightarrow> Inr None
        | Some cl \<Rightarrow> find_aligned_class cfg sm (align - 1) (nat cl))"

text \<open>Bytes to pages, rounding up, on \<open>size_t\<close>.\<close>

definition pages :: "page_config \<Rightarrow> u64 \<Rightarrow> u64" where
  "pages cfg bytes = drop_bit (kPageShift cfg) bytes
     + (if bytes AND (push_bit (kPageShift cfg) 1 - 1) > 0 then 1 else 0)"

section \<open>Sizes and indices\<close>

text \<open>
  \<open>ClassIndex\<close> rounds a size up to the grid of multiples of 8 up to 1024 and of 128 above:
  it is the lower half of a Galois connection whose upper half, \<open>grid_size\<close>, is the largest
  size with a given index.
\<close>

definition class_idx :: "int \<Rightarrow> int" where
  "class_idx s = (if s \<le> 1024 then (s + 7) div 8 else (s + 15487) div 128)"

definition grid_size :: "int \<Rightarrow> int" where
  "grid_size j = (if j \<le> 128 then 8 * j else 128 * (j - 120))"

definition on_grid :: "int \<Rightarrow> bool" where
  "on_grid x \<longleftrightarrow> (if x \<le> 1024 then 8 dvd x else 128 dvd x)"

lemma ClassIndex_ok: "s \<le> kMaxSize cfg \<Longrightarrow> ClassIndex cfg s = Inr (class_idx s)"
  by (simp add: ClassIndex_def ClassIndexMaybe_def class_idx_def kMaxSmallSize_def add.commute)

lemma ClassIndexMaybe_ok: "s \<le> kMaxSize cfg \<Longrightarrow> ClassIndexMaybe cfg s = Some (class_idx s)"
  by (simp add: ClassIndexMaybe_def class_idx_def kMaxSmallSize_def add.commute)

lemma class_idx_galois: "0 \<le> j \<Longrightarrow> class_idx s \<le> j \<longleftrightarrow> s \<le> grid_size j"
  unfolding class_idx_def grid_size_def by (auto split: if_splits)

lemma grid_size_mono: "grid_size i \<le> grid_size j \<longleftrightarrow> i \<le> j"
  unfolding grid_size_def by auto

lemma class_idx_grid: "class_idx (grid_size j) = j"
  unfolding class_idx_def grid_size_def by auto

lemma grid_class_idx: "on_grid x \<Longrightarrow> grid_size (class_idx x) = x"
  unfolding class_idx_def grid_size_def on_grid_def by (auto split: if_splits elim!: dvdE)

lemma grid_mult8: "8 dvd grid_size j"
  unfolding grid_size_def by (simp add: dvd_mult2)

lemma class_idx_nonneg: "0 \<le> s \<Longrightarrow> 0 \<le> class_idx s"
  unfolding class_idx_def by auto

lemma class_idx_mono: "s \<le> t \<Longrightarrow> class_idx s \<le> class_idx t"
  unfolding class_idx_def by (auto intro: zdiv_mono1)

text \<open>Against a bound on the grid a size and the top of its index are the same.\<close>

lemma grid_bound: "0 \<le> s \<Longrightarrow> on_grid x \<Longrightarrow> grid_size (class_idx s) \<le> x \<longleftrightarrow> s \<le> x"
proof -
  assume s: "0 \<le> s" and x: "on_grid x"
  show ?thesis
  proof (cases "0 \<le> class_idx x")
    case True
    have "grid_size (class_idx s) \<le> grid_size (class_idx x) \<longleftrightarrow> s \<le> grid_size (class_idx x)"
      by (simp only: grid_size_mono class_idx_galois [OF True])
    then show ?thesis by (simp only: grid_class_idx [OF x])
  next
    case False
    then have "x < 0" using class_idx_nonneg [of x] by linarith
    moreover have "0 \<le> grid_size (class_idx s)" using class_idx_nonneg [OF s] by (simp add: grid_size_def)
    ultimately show ?thesis using s by linarith
  qed
qed

section \<open>Filling the array\<close>

lemma fill_class_writes:
  assumes "0 \<le> s" and "mx \<le> kMaxSize cfg" and "class_idx mx < int (length arr)"
  shows "\<exists>arr'. fill_class cfg c s mx arr = Inr arr' \<and> length arr' = length arr
    \<and> (\<forall>j < length arr. arr' ! j = (if \<exists>t. s \<le> t \<and> t \<le> mx \<and> 8 dvd (t - s) \<and> class_idx t = int j
         then int c mod 256 else arr ! j))"
  using assms
proof (induction "nat (mx + 1 - s)" arbitrary: s arr rule: less_induct)
  case less
  show ?case
  proof (cases "s \<le> mx")
    case False
    then show ?thesis by (subst fill_class.simps) auto
  next
    case True
    let ?i = "class_idx s" and ?arr = "arr[nat (class_idx s) := int c mod 256]"
    have i: "0 \<le> ?i" "?i < int (length arr)"
      using class_idx_nonneg [OF less.prems(1)] class_idx_mono [OF True] less.prems(3) by linarith+
    have step: "fill_class cfg c s mx arr = fill_class cfg c (s + 8) mx ?arr"
      using True less.prems(2) i by (subst fill_class.simps) (simp add: ClassIndex_ok kAlignment_def)
    obtain arr' where IH: "fill_class cfg c (s + 8) mx ?arr = Inr arr'" "length arr' = length arr"
        "\<forall>j < length arr. arr' ! j = (if \<exists>t. s + 8 \<le> t \<and> t \<le> mx \<and> 8 dvd (t - (s + 8)) \<and> class_idx t = int j
           then int c mod 256 else ?arr ! j)"
      using less.hyps [of "s + 8" ?arr] True less.prems by auto
    have split: "(\<exists>t. s \<le> t \<and> t \<le> mx \<and> 8 dvd (t - s) \<and> class_idx t = int j)
        \<longleftrightarrow> ?i = int j \<or> (\<exists>t. s + 8 \<le> t \<and> t \<le> mx \<and> 8 dvd (t - (s + 8)) \<and> class_idx t = int j)" for j
    proof -
      have "s \<le> t \<and> t \<le> mx \<and> 8 dvd (t - s) \<longleftrightarrow> t = s \<or> (s + 8 \<le> t \<and> t \<le> mx \<and> 8 dvd (t - (s + 8)))" for t
        using True by presburger
      then show ?thesis by (metis (no_types, lifting))
    qed
    have upd: "?arr ! j = (if ?i = int j then int c mod 256 else arr ! j)" if "j < length arr" for j
      using i that by (auto simp: nth_list_update nat_eq_iff)
    show ?thesis
      unfolding split step using IH(1,2) by (intro exI [of _ arr']) (auto simp: IH(3) upd)
  qed
qed

lemma fill_class_ok:
  assumes s: "0 \<le> s" "8 dvd s" and mx: "mx \<le> kMaxSize cfg" "on_grid mx" "class_idx mx < int (length arr)"
  shows "\<exists>arr'. fill_class cfg c s mx arr = Inr arr' \<and> length arr' = length arr
    \<and> (\<forall>j < length arr. arr' ! j = (if s \<le> grid_size (int j) \<and> grid_size (int j) \<le> mx then int c mod 256 else arr ! j))"
proof -
  have "(\<exists>t. s \<le> t \<and> t \<le> mx \<and> 8 dvd (t - s) \<and> class_idx t = int j) \<longleftrightarrow> s \<le> grid_size (int j) \<and> grid_size (int j) \<le> mx" for j
  proof
    assume "\<exists>t. s \<le> t \<and> t \<le> mx \<and> 8 dvd (t - s) \<and> class_idx t = int j"
    then obtain t where t: "s \<le> t" "t \<le> mx" "class_idx t = int j" by blast
    then have "grid_size (int j) \<le> mx" using grid_bound [of t mx] s(1) mx(2) by auto
    moreover have "t \<le> grid_size (int j)" using class_idx_galois [of "int j" t] t(3) by simp
    ultimately show "s \<le> grid_size (int j) \<and> grid_size (int j) \<le> mx" using t(1) by linarith
  next
    assume "s \<le> grid_size (int j) \<and> grid_size (int j) \<le> mx"
    then show "\<exists>t. s \<le> t \<and> t \<le> mx \<and> 8 dvd (t - s) \<and> class_idx t = int j"
      using s(2) grid_mult8 class_idx_grid by (intro exI [of _ "grid_size (int j)"]) (simp add: dvd_diff)
  qed
  then show ?thesis using fill_class_writes [OF s(1) mx(1,3), of c] by simp
qed

definition valid_sizes :: "page_config \<Rightarrow> int list \<Rightarrow> bool" where
  "valid_sizes cfg sizes \<longleftrightarrow> length sizes = kNumClasses cfg \<and> sizes ! 0 = 0
     \<and> (\<forall>c. 1 \<le> c \<and> c < kNumClasses cfg \<longrightarrow> sizes ! (c - 1) < sizes ! c \<and> on_grid (sizes ! c) \<and> 8 dvd sizes ! c)
     \<and> sizes ! (kNumClasses cfg - 1) = kMaxSize cfg"

lemma valid_sizes_less:
  assumes "valid_sizes cfg sizes" and "d < kNumClasses cfg" and "c < d"
  shows "sizes ! c < sizes ! d"
  using assms(2,3)
proof (induction d)
  case (Suc d)
  have "sizes ! d < sizes ! Suc d" using assms(1) Suc.prems(1) by (auto simp: valid_sizes_def dest: spec [of _ "Suc d"])
  then show ?case using Suc by (cases "c = d") auto
qed simp

lemma valid_sizes_le:
  assumes "valid_sizes cfg sizes" and "d < kNumClasses cfg" and "c \<le> d"
  shows "sizes ! c \<le> sizes ! d"
  using valid_sizes_less [OF assms(1,2), of c] assms(3) by (cases "c = d") simp_all

lemma valid_sizes_nonneg:
  assumes "valid_sizes cfg sizes" and "d < kNumClasses cfg"
  shows "0 \<le> sizes ! d"
  using valid_sizes_le [OF assms, of 0] assms(1) by (simp add: valid_sizes_def)

lemma valid_sizes_mult8:
  assumes "valid_sizes cfg sizes" and "d < kNumClasses cfg"
  shows "8 dvd sizes ! d"
  using assms by (cases d) (auto simp: valid_sizes_def)

lemma kMaxSize_index: "class_idx (kMaxSize cfg) < int (kClassArraySize cfg)"
  by (cases cfg) (simp_all add: class_idx_def kClassArraySize_def)

lemma kNumClasses_bound: "2 \<le> kNumClasses cfg" "kNumClasses cfg \<le> 89"
  by (cases cfg; simp)+

lemma kNumClasses_pos [simp]: "0 < kNumClasses cfg"
  by (cases cfg) simp_all

text \<open>Class \<open>d\<close> is the smallest class that holds \<open>x\<close> bytes.\<close>

definition best_class :: "page_config \<Rightarrow> int list \<Rightarrow> int \<Rightarrow> int \<Rightarrow> bool" where
  "best_class cfg sizes x d \<longleftrightarrow> 1 \<le> d \<and> d < int (kNumClasses cfg) \<and> x \<le> sizes ! nat d
     \<and> (\<forall>e. 1 \<le> e \<and> e < nat d \<longrightarrow> sizes ! e < x)"

lemma init_classes_ok:
  assumes v: "valid_sizes cfg sizes" and c: "1 \<le> c" "c < kNumClasses cfg"
    and ns: "next_size = (if c = 1 then 0 else sizes ! (c - 1) + 8)" and len: "length arr = kClassArraySize cfg"
  shows "\<exists>arr'. init_classes cfg sizes [c..<kNumClasses cfg] next_size arr = Inr arr' \<and> length arr' = length arr
    \<and> (\<forall>j < length arr. grid_size (int j) \<le> kMaxSize cfg \<longrightarrow>
         (if next_size \<le> grid_size (int j) then best_class cfg sizes (grid_size (int j)) (arr' ! j) else arr' ! j = arr ! j))"
  using c ns len
proof (induction "kNumClasses cfg - c" arbitrary: c next_size arr rule: less_induct)
  case less
  let ?k = "kNumClasses cfg" and ?m = "sizes ! c"
  note k = kNumClasses_bound [of cfg]
  have sc: "on_grid ?m" "8 dvd ?m" "sizes ! (c - 1) < ?m" "?m \<le> kMaxSize cfg"
  proof -
    show "on_grid ?m" "8 dvd ?m" "sizes ! (c - 1) < ?m" using v less.prems(1,2) by (auto simp: valid_sizes_def)
    have "?m \<le> sizes ! (?k - 1)" using valid_sizes_le [OF v, of "?k - 1" c] less.prems(2) by simp
    then show "?m \<le> kMaxSize cfg" using v by (simp add: valid_sizes_def)
  qed
  have nonneg: "0 \<le> sizes ! (c - 1)" using valid_sizes_nonneg [OF v, of "c - 1"] less.prems(2) by simp
  have "8 dvd sizes ! (c - 1)" using valid_sizes_mult8 [OF v, of "c - 1"] less.prems(2) by simp
  then have n0: "0 \<le> next_size" "8 dvd next_size" using less.prems(3) nonneg by auto
  have idx: "class_idx ?m < int (length arr)" using class_idx_mono [OF sc(4)] kMaxSize_index [of cfg] less.prems(4) by linarith
  obtain a1 where a1: "fill_class cfg c next_size ?m arr = Inr a1" "length a1 = length arr"
      "\<forall>j < length arr. a1 ! j = (if next_size \<le> grid_size (int j) \<and> grid_size (int j) \<le> ?m then int c mod 256 else arr ! j)"
    using fill_class_ok [OF n0 sc(4,1) idx, of c] by blast
  have low: "sizes ! e < grid_size (int j)" if "1 \<le> e" "e < c" "next_size \<le> grid_size (int j)" for e j
  proof -
    have "sizes ! e \<le> sizes ! (c - 1)" using valid_sizes_le [OF v, of "c - 1" e] that(1,2) less.prems(2) by simp
    then show ?thesis using that less.prems(3) by (auto split: if_splits)
  qed
  have here: "best_class cfg sizes (grid_size (int j)) (a1 ! j)" if "j < length arr" "next_size \<le> grid_size (int j)" "grid_size (int j) \<le> ?m" for j
    using that a1(3) less.prems(1,2) low [OF _ _ that(2)] k by (simp add: best_class_def)
  have up: "[c..<?k] = c # [Suc c..<?k]" using less.prems(2) by (rule upt_conv_Cons)
  show ?case
  proof (cases "?m + 8 > kMaxSize cfg")
    case True
    have "8 dvd kMaxSize cfg" by (cases cfg) simp_all
    then have "?m = kMaxSize cfg" using sc(2,4) True by presburger
    then show ?thesis unfolding up using a1 True here by (auto simp: kAlignment_def)
  next
    case False
    have ne: "c \<noteq> ?k - 1" using False v by (auto simp: valid_sizes_def)
    obtain a2 where a2: "init_classes cfg sizes [Suc c..<?k] (?m + 8) a1 = Inr a2" "length a2 = length a1"
        "\<forall>j < length a1. grid_size (int j) \<le> kMaxSize cfg \<longrightarrow>
         (if ?m + 8 \<le> grid_size (int j) then best_class cfg sizes (grid_size (int j)) (a2 ! j) else a2 ! j = a1 ! j)"
      using less.hyps [of "Suc c" "?m + 8" a1] less.prems(1,2,4) ne a1(2) by fastforce
    have gap: "?m + 8 \<le> grid_size (int j) \<longleftrightarrow> \<not> grid_size (int j) \<le> ?m" for j
      using sc(2) grid_mult8 [of "int j"] by presburger
    have mono: "next_size \<le> ?m + 8" using sc(3) less.prems(3) nonneg by (auto split: if_splits)
    have "init_classes cfg sizes [c..<?k] next_size arr = Inr a2" unfolding up using a1(1) a2(1) False by (simp add: kAlignment_def)
    then show ?thesis using a1(2,3) a2(2,3) here gap mono by (intro exI [of _ a2]) (smt (verit, best))
  qed
qed

section \<open>Valid tables\<close>

lemma valid_size_classes_iff:
  assumes "length parsed = n" and "0 < n"
  shows "ValidSizeClasses cfg (int n) parsed \<longleftrightarrow> successively (valid_class cfg) parsed \<and> kMaxSize cfg \<le> sci_size (last parsed)"
proof -
  have "(\<forall>c \<in> {1..<n}. valid_class cfg (parsed ! (c - 1)) (parsed ! c))
    \<longleftrightarrow> (\<forall>i. Suc i < n \<longrightarrow> valid_class cfg (parsed ! i) (parsed ! Suc i))"
    (is "?A \<longleftrightarrow> ?B")
  proof
    assume a: ?A
    show ?B
    proof (intro allI impI)
      fix i assume "Suc i < n"
      then show "valid_class cfg (parsed ! i) (parsed ! Suc i)" using bspec [OF a, of "Suc i"] by simp
    qed
  next
    assume b: ?B
    show ?A
    proof
      fix c assume "c \<in> {1..<n}"
      then show "valid_class cfg (parsed ! (c - 1)) (parsed ! c)" using b by (cases c) simp_all
    qed
  qed
  moreover have "last parsed = parsed ! (n - 1)" using assms by (auto simp: last_conv_nth)
  ultimately show ?thesis
    using assms by (simp add: ValidSizeClasses_def successively_conv_nth list_all_iff not_less)
qed

definition good_table :: "page_config \<Rightarrow> size_class_info list \<Rightarrow> bool" where
  "good_table cfg xs \<longleftrightarrow> length xs = kNumClasses cfg \<and> sci_size (xs ! 0) = 0 \<and> ValidSizeClasses cfg (int (kNumClasses cfg)) xs"

lemma good_tableI:
  assumes "length xs = kNumClasses cfg" and "sci_size (xs ! 0) = 0" and "successively (valid_class cfg) xs"
    and "kMaxSize cfg \<le> sci_size (last xs)"
  shows "good_table cfg xs"
  using assms kNumClasses_bound [of cfg] by (simp add: good_table_def valid_size_classes_iff)

lemma kSizeClasses_good: "good_table cfg (kSizeClasses al cfg)"
  by (cases cfg; cases al; simp; intro good_tableI)
    (simp_all add: size_class_tables valid_class_def size_map_consts Let_def)

lemma kExperimentalSizeClasses_good: "good_table cfg (kExperimentalSizeClasses al cfg)"
  by (cases cfg; cases al; simp; intro good_tableI)
    (simp_all add: size_class_tables valid_class_def size_map_consts Let_def)

lemma kExperimental4kSizeClasses_good: "good_table cfg (kExperimental4kSizeClasses al cfg)"
  by (cases cfg; cases al; simp; intro good_tableI)
    (simp_all add: size_class_tables valid_class_def size_map_consts Let_def)

lemma and_pow2_mask: "(x :: int) AND (2 ^ n - 1) = 0 \<longleftrightarrow> 2 ^ n dvd x"
  by (simp add: take_bit_eq_mask [symmetric] mask_eq_exp_minus_1 [symmetric] take_bit_eq_0_iff)

lemma valid_class_grid:
  assumes "valid_class cfg p c"
  shows "sci_size p < sci_size c \<and> sci_size c \<le> kMaxSize cfg \<and> on_grid (sci_size c) \<and> 8 dvd sci_size c"
proof -
  have "(x AND 7 = 0 \<longleftrightarrow> 8 dvd x) \<and> (x AND 63 = 0 \<longleftrightarrow> 64 dvd x) \<and> (x AND 127 = 0 \<longleftrightarrow> 128 dvd x)" for x :: int
    using and_pow2_mask [of x 3] and_pow2_mask [of x 6] and_pow2_mask [of x 7] by simp
  then have "on_grid (sci_size c)" "sci_size p < sci_size c \<and> sci_size c \<le> kMaxSize cfg"
    using assms dvd_trans [of 8 64 "sci_size c"]
    by (auto simp: valid_class_def size_map_consts Let_def on_grid_def split: if_splits)
  moreover from this(1) have "8 dvd sci_size c" using dvd_trans [of 8 128 "sci_size c"] by (auto simp: on_grid_def split: if_splits)
  ultimately show ?thesis by blast
qed

lemma good_table_class:
  assumes "good_table cfg xs" and "Suc c < kNumClasses cfg"
  shows "valid_class cfg (xs ! c) (xs ! Suc c)"
  using assms valid_size_classes_iff [of xs "kNumClasses cfg" cfg] by (simp add: good_table_def successively_conv_nth)

lemma good_table_nonneg: "good_table cfg xs \<Longrightarrow> c < kNumClasses cfg \<Longrightarrow> 0 \<le> sci_size (xs ! c) \<and> sci_size (xs ! c) \<le> kMaxSize cfg"
proof (induction c)
  case 0
  then show ?case by (cases cfg) (simp_all add: good_table_def)
next
  case (Suc c)
  then show ?case using valid_class_grid [OF good_table_class [OF Suc.prems]] by simp
qed

lemma set_size_classes_nth:
  assumes "good_table cfg xs" and "c < kNumClasses cfg"
  shows "class_to_size_arr (SetSizeClasses cfg large statics (kNumClasses cfg) xs sm) ! c = sci_size (xs ! c)"
proof -
  have "sci_size (xs ! c) < 2 ^ 32" using good_table_nonneg [OF assms] by (cases cfg) simp_all
  then show ?thesis
    using good_table_nonneg [OF assms] assms by (auto simp: SetSizeClasses_def Let_def good_table_def)
qed

lemma set_size_classes_valid:
  assumes "good_table cfg xs"
  shows "valid_sizes cfg (class_to_size_arr (SetSizeClasses cfg large statics (kNumClasses cfg) xs sm))"
proof -
  let ?k = "kNumClasses cfg" and ?a = "class_to_size_arr (SetSizeClasses cfg large statics (kNumClasses cfg) xs sm)"
  note nth = set_size_classes_nth [OF assms, of _ large statics sm]
  have k: "2 \<le> ?k" by (rule kNumClasses_bound)
  have "length ?a = ?k" by (simp add: SetSizeClasses_def Let_def)
  moreover have "?a ! 0 = 0" using nth [of 0] assms k by (simp add: good_table_def)
  moreover have "?a ! (c - 1) < ?a ! c \<and> on_grid (?a ! c) \<and> 8 dvd ?a ! c" if "1 \<le> c \<and> c < ?k" for c
    using that valid_class_grid [OF good_table_class [OF assms, of "c - 1"]] nth [of c] nth [of "c - 1"] by auto
  moreover have "?a ! (?k - 1) = kMaxSize cfg"
  proof -
    have "length xs = ?k" using assms by (simp add: good_table_def)
    then have "last xs = xs ! (?k - 1)" using k last_conv_nth [of xs] by (cases xs) auto
    moreover have "kMaxSize cfg \<le> sci_size (last xs)" using assms valid_size_classes_iff [of xs ?k cfg] by (simp add: good_table_def)
    ultimately show ?thesis using good_table_nonneg [OF assms, of "?k - 1"] nth [of "?k - 1"] k by simp
  qed
  ultimately show ?thesis unfolding valid_sizes_def by blast
qed

section \<open>Initialisation\<close>

lemma kMaxSize_parse_bound: "parse_bound (kMaxSize cfg)"
  by (cases cfg) (simp_all add: parse_bound_def)

text \<open>A run-time table is either rejected or installed, and then it is a valid table.\<close>

lemma maybe_run_time_ok:
  "\<exists>b sm'. MaybeRunTimeSizeClasses cfg getenv statics junk sm = Inr (b, sm')
    \<and> (sm' = sm \<or> (\<exists>xs large. good_table cfg xs \<and> sm' = SetSizeClasses cfg large statics (kNumClasses cfg) xs sm))"
proof (cases "getenv ''TCMALLOC_SIZE_CLASSES''")
  case None
  then show ?thesis by (auto simp: MaybeRunTimeSizeClasses_def MaybeSizeClassesFromEnv_def ValidSizeClasses_def)
next
  case (Some e)
  obtain r out where out: "ParseSizeClasses e (kMaxSize cfg) (kNumClasses cfg) = Inr (r, out)" "length out = kNumClasses cfg"
      "out ! 0 = zero_class"
    using parse_safe [OF kNumClasses_bound(1) [of cfg] kMaxSize_parse_bound [of cfg], of e] by blast
  have "good_table cfg out" if "ValidSizeClasses cfg r out" "r = int (kNumClasses cfg)"
    using that out by (simp add: good_table_def zero_class_def)
  then show ?thesis
    using Some out(1) by (auto simp: MaybeRunTimeSizeClasses_def MaybeSizeClassesFromEnv_def)
qed

lemma init_tables_good: "good_table cfg (init_tables al cfg getenv)"
  by (simp add: init_tables_def kSizeClasses_good kExperimentalSizeClasses_good kExperimental4kSizeClasses_good)

lemma set_size_classes_frame: "class_array (SetSizeClasses cfg large statics n xs sm) = class_array sm"
  by (simp add: SetSizeClasses_def Let_def)

definition initialised :: "page_config \<Rightarrow> size_map \<Rightarrow> bool" where
  "initialised cfg sm \<longleftrightarrow> valid_sizes cfg (class_to_size_arr sm) \<and> length (class_array sm) = kClassArraySize cfg
     \<and> (\<forall>j < kClassArraySize cfg. grid_size (int j) \<le> kMaxSize cfg
          \<longrightarrow> best_class cfg (class_to_size_arr sm) (grid_size (int j)) (class_array sm ! j))"

lemma grid_size_nonneg: "0 \<le> grid_size (int j)"
  by (simp add: grid_size_def)

lemma init_ok:
  assumes "length (class_array sm) = kClassArraySize cfg"
  shows "\<exists>sm'. Init al cfg getenv junk sm = Inr sm' \<and> initialised cfg sm'"
proof -
  define sm0 where "sm0 = SetSizeClasses cfg (IsExperimentActive getenv TCMALLOC_LARGE_NUM_TO_MOVE) (kSizeClasses al cfg)
    (kNumClasses cfg) (init_tables al cfg getenv) sm"
  have v0: "valid_sizes cfg (class_to_size_arr sm0)" unfolding sm0_def by (rule set_size_classes_valid [OF init_tables_good])
  have l0: "length (class_array sm0) = kClassArraySize cfg" unfolding sm0_def by (simp add: set_size_classes_frame assms)
  obtain b sm1 where m: "MaybeRunTimeSizeClasses cfg getenv (kSizeClasses al cfg) junk sm0 = Inr (b, sm1)"
      "sm1 = sm0 \<or> (\<exists>xs large. good_table cfg xs \<and> sm1 = SetSizeClasses cfg large (kSizeClasses al cfg) (kNumClasses cfg) xs sm0)"
    using maybe_run_time_ok by blast
  have v1: "valid_sizes cfg (class_to_size_arr sm1)" and l1: "length (class_array sm1) = kClassArraySize cfg"
    using m(2) v0 l0 set_size_classes_valid by (auto simp: set_size_classes_frame)
  have "1 < kNumClasses cfg" using kNumClasses_bound(1) [of cfg] by linarith
  then obtain arr where arr: "init_classes cfg (class_to_size_arr sm1) [1..<kNumClasses cfg] 0 (class_array sm1) = Inr arr"
      "length arr = kClassArraySize cfg"
      "\<forall>j < kClassArraySize cfg. grid_size (int j) \<le> kMaxSize cfg
        \<longrightarrow> best_class cfg (class_to_size_arr sm1) (grid_size (int j)) (arr ! j)"
    using init_classes_ok [OF v1, of 1 0 "class_array sm1"] l1 by (auto simp: grid_size_nonneg)
  have "0 \<le> kMaxSize cfg" "class_idx 0 = 0" by (cases cfg) (simp_all add: class_idx_def)
  then have "Init al cfg getenv junk sm = Inr (sm1\<lparr>class_array := arr\<rparr>)"
    unfolding Init_def sm0_def [symmetric] using kMaxSize_index [of cfg] m(1) arr(1) by (simp add: ClassIndex_ok)
  then show ?thesis using v1 arr(2,3) by (intro exI [of _ "sm1\<lparr>class_array := arr\<rparr>"]) (simp add: initialised_def)
qed

section \<open>Lookups\<close>

lemma get_size_class_best:
  assumes "initialised cfg sm" and "0 \<le> s" and "s \<le> kMaxSize cfg"
  shows "\<exists>c. GetSizeClass cfg sm s = Some c \<and> best_class cfg (class_to_size_arr sm) s c"
proof -
  let ?j = "nat (class_idx s)" and ?a = "class_to_size_arr sm"
  have v: "valid_sizes cfg ?a" using assms(1) by (simp add: initialised_def)
  have j: "int ?j = class_idx s" using class_idx_nonneg [OF assms(2)] by simp
  have "?j < kClassArraySize cfg" using class_idx_mono [OF assms(3)] kMaxSize_index [of cfg] j by linarith
  moreover have "on_grid (kMaxSize cfg)" by (cases cfg) (simp_all add: on_grid_def)
  then have "grid_size (int ?j) \<le> kMaxSize cfg" unfolding j using grid_bound [OF assms(2)] assms(3) by blast
  ultimately have b: "best_class cfg ?a (grid_size (int ?j)) (class_array sm ! ?j)"
    using assms(1) unfolding initialised_def by blast
  have "s \<le> grid_size (int ?j)" unfolding j using class_idx_galois [OF class_idx_nonneg [OF assms(2)], of s] by simp
  moreover have "?a ! e < s" if "1 \<le> e" "e < kNumClasses cfg" "?a ! e < grid_size (int ?j)" for e
  proof -
    have "on_grid (?a ! e)" using v that by (simp add: valid_sizes_def)
    then show ?thesis using grid_bound [OF assms(2), of "?a ! e"] that(3) unfolding j by linarith
  qed
  ultimately have "best_class cfg ?a s (class_array sm ! ?j)" using b by (force simp: best_class_def)
  then show ?thesis by (simp add: GetSizeClass_def ClassIndexMaybe_ok assms(3))
qed

lemma find_aligned_class_ok:
  assumes "cl < kNumClasses cfg"
  shows "\<exists>r. find_aligned_class cfg sm (2 ^ a - 1) cl = Inr r
    \<and> (case r of Some c \<Rightarrow> cl \<le> c \<and> c < kNumClasses cfg \<and> 2 ^ a dvd class_to_size_arr sm ! c
           \<and> (\<forall>d. cl \<le> d \<and> d < c \<longrightarrow> \<not> 2 ^ a dvd class_to_size_arr sm ! d)
       | None \<Rightarrow> \<forall>d. cl \<le> d \<and> d < kNumClasses cfg \<longrightarrow> \<not> 2 ^ a dvd class_to_size_arr sm ! d)"
  using assms
proof (induction "kNumClasses cfg - cl" arbitrary: cl rule: less_induct)
  case less
  let ?P = "\<lambda>d. 2 ^ a dvd class_to_size_arr sm ! d"
  have split: "(\<forall>d. cl \<le> d \<and> d < n \<longrightarrow> \<not> ?P d) \<longleftrightarrow> (\<forall>d. Suc cl \<le> d \<and> d < n \<longrightarrow> \<not> ?P d)" if "\<not> ?P cl" for n
    using that by (metis Suc_leD Suc_leI le_neq_implies_less)
  show ?case
  proof (cases "?P cl")
    case True
    then show ?thesis using less.prems by (subst find_aligned_class.simps) (auto simp: class_to_size_def and_pow2_mask)
  next
    case False
    show ?thesis
    proof (cases "Suc cl < kNumClasses cfg")
      case True
      have "find_aligned_class cfg sm (2 ^ a - 1) cl = find_aligned_class cfg sm (2 ^ a - 1) (Suc cl)"
        using False True less.prems by (subst find_aligned_class.simps) (simp add: class_to_size_def and_pow2_mask)
      moreover obtain r where "find_aligned_class cfg sm (2 ^ a - 1) (Suc cl) = Inr r"
          "case r of Some c \<Rightarrow> Suc cl \<le> c \<and> c < kNumClasses cfg \<and> ?P c \<and> (\<forall>d. Suc cl \<le> d \<and> d < c \<longrightarrow> \<not> ?P d)
           | None \<Rightarrow> \<forall>d. Suc cl \<le> d \<and> d < kNumClasses cfg \<longrightarrow> \<not> ?P d"
        using less.hyps [OF _ True] True by (meson diff_less_mono2 lessI less_trans)
      ultimately show ?thesis unfolding split [OF False] by (intro exI [of _ r]) (simp split: option.splits)
    next
      case last: False
      then have "find_aligned_class cfg sm (2 ^ a - 1) cl = Inr None"
        using False less.prems by (subst find_aligned_class.simps) (simp add: class_to_size_def and_pow2_mask)
      moreover have "d = cl" if "cl \<le> d" "d < kNumClasses cfg" for d using that last by linarith
      ultimately show ?thesis using False by auto
    qed
  qed
qed

lemma get_size_class_too_big: "kMaxSize cfg < s \<Longrightarrow> GetSizeClass cfg sm s = None"
  by (cases cfg) (simp_all add: GetSizeClass_def ClassIndexMaybe_def kMaxSmallSize_def)

text \<open>Class \<open>c\<close> holds \<open>s\<close> bytes at an alignment of \<open>2 ^ a\<close>.\<close>

definition fits_aligned :: "page_config \<Rightarrow> size_map \<Rightarrow> int \<Rightarrow> nat \<Rightarrow> nat \<Rightarrow> bool" where
  "fits_aligned cfg sm s a c \<longleftrightarrow> 1 \<le> c \<and> c < kNumClasses cfg \<and> s \<le> class_to_size_arr sm ! c \<and> 2 ^ a dvd class_to_size_arr sm ! c"

lemma get_size_class_aligned_ok:
  assumes "initialised cfg sm" and "0 \<le> s" and "a < kPageShift cfg"
  shows "\<exists>r. GetSizeClassAligned cfg sm s (2 ^ a) = Inr r
    \<and> (case r of Some c \<Rightarrow> fits_aligned cfg sm s a c \<and> (\<forall>d < c. \<not> fits_aligned cfg sm s a d)
       | None \<Rightarrow> \<forall>d. \<not> fits_aligned cfg sm s a d)"
proof -
  let ?z = "class_to_size_arr sm" and ?k = "kNumClasses cfg"
  have v: "valid_sizes cfg ?z" using assms(1) by (simp add: initialised_def)
  have al: "(2 ^ a :: int) AND (2 ^ a - 1) = 0" by (simp add: and_pow2_mask)
  have pg: "(2 :: int) ^ a < kPageSize cfg" using assms(3) by (simp add: kPageSize_def)
  show ?thesis
  proof (cases "s \<le> kMaxSize cfg")
    case True
    obtain c where c: "GetSizeClass cfg sm s = Some c" "best_class cfg ?z s c"
      using get_size_class_best [OF assms(1,2) True] by blast
    then have b: "1 \<le> nat c" "nat c < ?k" "s \<le> ?z ! nat c" "\<forall>e. 1 \<le> e \<and> e < nat c \<longrightarrow> ?z ! e < s"
      by (auto simp: best_class_def)
    have fit: "fits_aligned cfg sm s a d \<longleftrightarrow> nat c \<le> d \<and> d < ?k \<and> 2 ^ a dvd ?z ! d" for d
      using b valid_sizes_le [OF v, of d "nat c"] by (force simp: fits_aligned_def not_le)
    obtain r where r: "find_aligned_class cfg sm (2 ^ a - 1) (nat c) = Inr r"
        "case r of Some d \<Rightarrow> nat c \<le> d \<and> d < ?k \<and> 2 ^ a dvd ?z ! d \<and> (\<forall>e. nat c \<le> e \<and> e < d \<longrightarrow> \<not> 2 ^ a dvd ?z ! e)
         | None \<Rightarrow> \<forall>e. nat c \<le> e \<and> e < ?k \<longrightarrow> \<not> 2 ^ a dvd ?z ! e"
      using find_aligned_class_ok [OF b(2), of sm a] by blast
    have "GetSizeClassAligned cfg sm s (2 ^ a) = Inr r"
      using al pg c(1) r(1) by (simp add: GetSizeClassAligned_def)
    then show ?thesis unfolding fit using r(2) by (intro exI [of _ r]) (auto split: option.splits)
  next
    case False
    have "?z ! d \<le> kMaxSize cfg" if "d < ?k" for d
      using valid_sizes_le [OF v, of "?k - 1" d] that v by (simp add: valid_sizes_def)
    then have "\<not> fits_aligned cfg sm s a d" for d using False by (force simp: fits_aligned_def)
    then show ?thesis using al pg False by (simp add: GetSizeClassAligned_def get_size_class_too_big)
  qed
qed

section \<open>Properties\<close>

lemma div_round_up: "0 < P \<Longrightarrow> (x + P - 1) div P = x div P + (if 0 < x mod P then 1 else 0)" for x P :: nat
proof -
  assume P: "0 < P"
  have "x + P - 1 = (x div P) * P + (x mod P + P - 1)" using P div_mult_mod_eq [of x P] by linarith
  then have "(x + P - 1) div P = x div P + (x mod P + P - 1) div P" using P by (simp only: div_mult_self3)
  moreover have "(x mod P + P - 1) div P = (if 0 < x mod P then 1 else 0)"
    using P mod_less_divisor [OF P, of x] by (auto intro!: div_nat_eqI)
  ultimately show ?thesis by simp
qed

text \<open>
  C25: whatever table the environment supplies, \<open>Init\<close> does not fail a check or write outside
  the class array, and afterwards \<open>GetSizeClass\<close> returns, for every request up to the largest
  size, the smallest class whose size is at least the request, and nothing above it.
\<close>

theorem size_map_init_best_fit:
  "\<exists>sm. Init al cfg getenv junk (zero_size_map cfg) = Inr sm \<and> valid_sizes cfg (class_to_size_arr sm)
    \<and> (\<forall>s. 0 \<le> s \<longrightarrow> (if s \<le> kMaxSize cfg
           then \<exists>c. GetSizeClass cfg sm s = Some c \<and> best_class cfg (class_to_size_arr sm) s c
           else GetSizeClass cfg sm s = None))"
proof -
  obtain sm where sm: "Init al cfg getenv junk (zero_size_map cfg) = Inr sm" "initialised cfg sm"
    using init_ok [of "zero_size_map cfg" cfg al getenv junk] by (auto simp: zero_size_map_def)
  show ?thesis
    using sm(1) get_size_class_best [OF sm(2)] get_size_class_too_big [of cfg] sm(2)
    by (intro exI [of _ sm]) (simp add: initialised_def)
qed

theorem size_map_init_best_fit_witness:
  "\<exists>sm c. Init True Small_But_Slow (\<lambda>_. None) [] (zero_size_map Small_But_Slow) = Inr sm
    \<and> GetSizeClass Small_But_Slow sm 100 = Some c \<and> 100 \<le> class_to_size_arr sm ! nat c"
proof -
  obtain sm where "Init True Small_But_Slow (\<lambda>_. None) [] (zero_size_map Small_But_Slow) = Inr sm"
      "\<forall>s. 0 \<le> s \<longrightarrow> (if s \<le> kMaxSize Small_But_Slow
         then \<exists>c. GetSizeClass Small_But_Slow sm s = Some c \<and> best_class Small_But_Slow (class_to_size_arr sm) s c
         else GetSizeClass Small_But_Slow sm s = None)"
    using size_map_init_best_fit by blast
  from this(1) spec [OF this(2), of 100] show ?thesis by (auto simp: best_class_def)
qed





text \<open>\<open>pages\<close> is the number of pages that hold the bytes, and never wraps.\<close>

theorem pages_rounds_up:
  "unat (pages cfg bytes) = (unat bytes + 2 ^ kPageShift cfg - 1) div 2 ^ kPageShift cfg"
proof -
  let ?p = "kPageShift cfg"
  have p: "1 \<le> ?p" "?p < 64" by (cases cfg; simp)+
  have m: "bytes AND (push_bit ?p 1 - 1) = take_bit ?p bytes" by (simp add: take_bit_eq_mask mask_eq_exp_minus_1 push_bit_eq_mult)
  have d: "unat (drop_bit ?p bytes) = unat bytes div 2 ^ ?p" by (simp add: unat_drop_bit_eq drop_bit_eq_div [of _ "unat _"])
  have t: "unat (take_bit ?p bytes) = unat bytes mod 2 ^ ?p" by (simp add: unsigned_take_bit_eq take_bit_eq_mod [of _ "unat _"])
  have "unat bytes div 2 ^ ?p \<le> unat bytes div 2 ^ 1" using power_increasing [OF p(1), of "2 :: nat"] by (intro div_le_mono2) simp_all
  then have "unat (drop_bit ?p bytes) + 1 < 2 ^ 64" using d unat_u64_bound [of bytes] by simp
  then have "unat (pages cfg bytes) = unat bytes div 2 ^ ?p + (if 0 < unat bytes mod 2 ^ ?p then 1 else 0)"
    unfolding pages_def m using t by (simp add: d [symmetric] unat_word_ariths word_less_nat_alt)
  then show ?thesis using div_round_up [of "2 ^ ?p" "unat bytes"] by (simp only: zero_less_power zero_less_numeral simp_thms)
qed

end
