(* ===== verification/Rseq_Machine.thy ===== *)
theory Rseq_Machine
  imports Object_Allocator
begin

text \<open>
  Restartable sequences at the level of instructions. The critical sections of
  \<open>src/allocator\<close> are inline assembly framed by the macros of
  \<open>src/lib/concurrency/rseq/rseq_asm_defs.h\<close>: \<open>RSEQ_PREP_CS_DEF\<close> publishes the descriptor of
  the section, and when the kernel preempts, signals or migrates a thread between the start
  and the post-commit address of a published section it clears the publication and resumes the
  thread at the abort handler, which in every section is a jump back to the start.

  This theory has the instructions the sections use, the step relation of a thread among
  other threads, and the proof rule for a section: an annotation per instruction that makes
  every run one atomic operation.
\<close>

section \<open>Instructions\<close>

text \<open>The operands of the inline assembly, each in a register of its own.\<close>

datatype reg = Ret | Fc_cache | Sm_base | Idx | Ptr | This | Temp_ptr | Expected_slab | Start_cpu
  | Temp_av | Temp_as | Idx_av | Sm | Slab | Offset | Next_reg

text \<open>
  A memory operand: displacement, base, and an index that counts 8-byte words; or a base and
  an index that counts bytes.
\<close>

datatype addr = Addr u64 reg "reg option" | Addr_off reg reg

text \<open>
  \<open>Lea_cs r\<close> is \<open>leaq 3b(%rip), r\<close>, \<open>Set_cs r\<close> is \<open>movq r, %fs:__rseq_abi@tpoff+8\<close>,
  \<open>Mov_cpu r\<close> is \<open>movl %fs:__rseq_abi@tpoff+4, r\<close> and \<open>Cmp_cpu r\<close> is
  \<open>cmpl r, %fs:__rseq_abi@tpoff+4\<close>; operands are in the order of the sources, the
  destination last. A jump holds the position of its label.
\<close>

datatype instr = Lea_cs reg | Set_cs reg | Mov_cpu reg | Cmp_cpu reg
  | Mov_imm u64 reg | Mov reg reg | Load addr reg | Store reg addr | Lea addr reg
  | Sal nat reg | Add reg reg | Add_imm u64 reg | Add_mem u64 addr | Sub_mem u64 addr | Xor reg reg
  | Tzcnt reg reg | Blsr reg reg
  | Test reg reg | Cmp_imm u64 reg | Cmp_mem_imm u64 addr | Cmp reg reg
  | Cmovne reg reg | Cmovne_load addr reg
  | Jmp nat | Jz nat | Jnz nat

type_synonym memory = "u64 \<Rightarrow> u64"

record thread =
  pc :: nat
  regs :: "reg \<Rightarrow> u64"
  zf :: bool
  rseq_cs :: u64

fun ea :: "(reg \<Rightarrow> u64) \<Rightarrow> addr \<Rightarrow> u64" where
  "ea R (Addr d b None) = d + R b"
| "ea R (Addr d b (Some i)) = d + R b + 8 * R i"
| "ea R (Addr_off b i) = R b + R i"

text \<open>The result \<open>v\<close> of an arithmetic instruction goes to \<open>r\<close> and sets the zero flag.\<close>

definition set_alu :: "reg \<Rightarrow> u64 \<Rightarrow> thread \<Rightarrow> thread" where
  "set_alu r v t = t\<lparr>pc := Suc (pc t), regs := (regs t)(r := v), zf := (v = 0)\<rparr>"

definition set_reg :: "reg \<Rightarrow> u64 \<Rightarrow> thread \<Rightarrow> thread" where
  "set_reg r v t = t\<lparr>pc := Suc (pc t), regs := (regs t)(r := v)\<rparr>"

definition set_zf :: "bool \<Rightarrow> thread \<Rightarrow> thread" where
  "set_zf b t = t\<lparr>pc := Suc (pc t), zf := b\<rparr>"

definition jump :: "bool \<Rightarrow> nat \<Rightarrow> thread \<Rightarrow> thread" where
  "jump b l t = t\<lparr>pc := if b then l else Suc (pc t)\<rparr>"

text \<open>One instruction of a thread on core \<open>c\<close>; \<open>desc\<close> is the address of the section's descriptor.\<close>

fun exec_instr :: "u64 \<Rightarrow> u32 \<Rightarrow> instr \<Rightarrow> thread \<times> memory \<Rightarrow> thread \<times> memory" where
  "exec_instr desc c (Lea_cs r) (t, m) = (set_reg r desc t, m)"
| "exec_instr desc c (Set_cs r) (t, m) = (t\<lparr>pc := Suc (pc t), rseq_cs := regs t r\<rparr>, m)"
| "exec_instr desc c (Mov_cpu r) (t, m) = (set_reg r (ucast c) t, m)"
| "exec_instr desc c (Cmp_cpu r) (t, m) = (set_zf (ucast (regs t r) = c) t, m)"
| "exec_instr desc c (Mov_imm v r) (t, m) = (set_reg r v t, m)"
| "exec_instr desc c (Mov s r) (t, m) = (set_reg r (regs t s) t, m)"
| "exec_instr desc c (Load a r) (t, m) = (set_reg r (m (ea (regs t) a)) t, m)"
| "exec_instr desc c (Store r a) (t, m) = (t\<lparr>pc := Suc (pc t)\<rparr>, m(ea (regs t) a := regs t r))"
| "exec_instr desc c (Lea a r) (t, m) = (set_reg r (ea (regs t) a) t, m)"
| "exec_instr desc c (Sal k r) (t, m) = (set_alu r (push_bit k (regs t r)) t, m)"
| "exec_instr desc c (Add s r) (t, m) = (set_alu r (regs t r + regs t s) t, m)"
| "exec_instr desc c (Add_imm v r) (t, m) = (set_alu r (regs t r + v) t, m)"
| "exec_instr desc c (Add_mem v a) (t, m) =
     (let x = m (ea (regs t) a) + v in (set_zf (x = 0) t, m(ea (regs t) a := x)))"
| "exec_instr desc c (Sub_mem v a) (t, m) =
     (let x = m (ea (regs t) a) - v in (set_zf (x = 0) t, m(ea (regs t) a := x)))"
| "exec_instr desc c (Xor s r) (t, m) = (set_alu r (regs t r XOR regs t s) t, m)"
| "exec_instr desc c (Tzcnt s r) (t, m) = (set_alu r (tzcnt (regs t s)) t, m)"
| "exec_instr desc c (Blsr s r) (t, m) = (set_alu r (regs t s AND (regs t s - 1)) t, m)"
| "exec_instr desc c (Test s r) (t, m) = (set_zf (regs t s AND regs t r = 0) t, m)"
| "exec_instr desc c (Cmp_imm v r) (t, m) = (set_zf (regs t r = v) t, m)"
| "exec_instr desc c (Cmp_mem_imm v a) (t, m) = (set_zf (m (ea (regs t) a) = v) t, m)"
| "exec_instr desc c (Cmp s r) (t, m) = (set_zf (regs t r = regs t s) t, m)"
| "exec_instr desc c (Cmovne s r) (t, m) = (set_reg r (if zf t then regs t r else regs t s) t, m)"
| "exec_instr desc c (Cmovne_load a r) (t, m) = (set_reg r (if zf t then regs t r else m (ea (regs t) a)) t, m)"
| "exec_instr desc c (Jmp l) (t, m) = (jump True l t, m)"
| "exec_instr desc c (Jz l) (t, m) = (jump (zf t) l t, m)"
| "exec_instr desc c (Jnz l) (t, m) = (jump (\<not> zf t) l t, m)"

lemmas instr_defs = set_alu_def set_reg_def set_zf_def jump_def

text \<open>
  \<open>RSEQ_PREP_CS_DEF\<close> with a temporary register, the first two instructions of every section.
\<close>

definition RSEQ_PREP_CS :: "reg \<Rightarrow> instr list" where
  "RSEQ_PREP_CS r = [Lea_cs r, Set_cs r]"

text \<open>An uninterrupted run of at most \<open>n\<close> instructions; it stops behind the code.\<close>

fun exec_n :: "u64 \<Rightarrow> instr list \<Rightarrow> u32 \<Rightarrow> nat \<Rightarrow> thread \<times> memory \<Rightarrow> thread \<times> memory" where
  "exec_n desc code c 0 s = s"
| "exec_n desc code c (Suc n) s =
     (if pc (fst s) < length code then exec_n desc code c n (exec_instr desc c (code ! pc (fst s)) s) else s)"

section \<open>A thread among others\<close>

text \<open>
  What the kernel does to a thread it resumes: inside a published section (the labels 1 and
  2 of \<open>RSEQ_INFO_DEF\<close> are position 0 and \<open>post\<close>) it clears the publication and continues at
  the abort handler, \<open>jmp 1b\<close>.
\<close>

definition resume :: "nat \<Rightarrow> u64 \<Rightarrow> thread \<Rightarrow> thread" where
  "resume post desc t = (if rseq_cs t = desc \<and> pc t < post then t\<lparr>pc := 0, rseq_cs := 0\<rparr> else t)"

text \<open>
  The steps: an instruction of the thread; threads of other cores, which leave the words
  \<open>loc c\<close> of this core alone; and a preemption, while which any other threads run, after
  which the thread continues on some core. What other threads do to the memory is a step of
  the environment \<open>E\<close> on the abstract state that \<open>rep\<close> reads off the memory.
\<close>

inductive mstep :: "instr list \<Rightarrow> nat \<Rightarrow> u64 \<Rightarrow> (memory \<Rightarrow> 'a \<Rightarrow> bool) \<Rightarrow> (u32 \<Rightarrow> u64 set) \<Rightarrow> ('a \<Rightarrow> 'a \<Rightarrow> bool)
    \<Rightarrow> thread \<times> u32 \<times> memory \<Rightarrow> thread \<times> u32 \<times> memory \<Rightarrow> bool"
  for code post desc rep loc E where
  exec: "pc t < length code \<Longrightarrow> exec_instr desc c (code ! pc t) (t, m) = (t', m') \<Longrightarrow>
    mstep code post desc rep loc E (t, c, m) (t', c, m')"
| remote: "rep m a \<Longrightarrow> rep m' a' \<Longrightarrow> E a a' \<Longrightarrow> \<forall>x \<in> loc c. m' x = m x \<Longrightarrow>
    mstep code post desc rep loc E (t, c, m) (t, c, m')"
| preempt: "rep m a \<Longrightarrow> rep m' a' \<Longrightarrow> E a a' \<Longrightarrow> c' < NPROCS \<Longrightarrow>
    mstep code post desc rep loc E (t, c, m) (resume post desc t, c', m')"

text \<open>
  The specification: the environment moves, and once the thread performs its operation, on
  the core it is on at that moment.
\<close>

inductive astep :: "(u32 \<Rightarrow> 'a \<Rightarrow> 'r \<times> 'a) \<Rightarrow> ('a \<Rightarrow> 'a \<Rightarrow> bool) \<Rightarrow> 'a \<times> 'r option \<Rightarrow> 'a \<times> 'r option \<Rightarrow> bool"
  for opn E where
  commit: "c < NPROCS \<Longrightarrow> astep opn E (a, None) (snd (opn c a), Some (fst (opn c a)))"
| environ: "E a a' \<Longrightarrow> astep opn E (a, r) (a', r)"

inductive_cases astep_doneE: "astep opn E (a, Some r) X"

lemma astep_done: "(astep opn E)\<^sup>*\<^sup>* X Y \<Longrightarrow> X = (a, Some r) \<Longrightarrow> \<exists>b. Y = (b, Some r) \<and> E\<^sup>*\<^sup>* a b"
proof (induction arbitrary: a rule: converse_rtranclp_induct)
  case (step X X')
  from step.hyps(1) [unfolded step.prems] obtain b where "X' = (b, Some r)" "E a b" by (auto elim: astep_doneE)
  then show ?case using step.IH [of b] by (meson converse_rtranclp_into_rtranclp)
qed simp

text \<open>A finished run performed the operation exactly once.\<close>

lemma astep_once:
  assumes "(astep opn E)\<^sup>*\<^sup>* X Y" and "X = (a, None)" and "Y = (b, Some r)"
  shows "\<exists>c a1. c < NPROCS \<and> E\<^sup>*\<^sup>* a a1 \<and> fst (opn c a1) = r \<and> E\<^sup>*\<^sup>* (snd (opn c a1)) b"
  using assms
proof (induction arbitrary: a rule: converse_rtranclp_induct)
  case (step X X')
  from step.hyps(1) show ?case
  proof cases
    case (commit c a')
    then show ?thesis using astep_done [OF step.hyps(2) commit(2)] step.prems by blast
  next
    case (environ a0 a' r')
    then show ?thesis using step.IH [of a'] step.prems by (metis (no_types, lifting) converse_rtranclp_into_rtranclp old.prod.inject)
  qed
qed simp

lemma exec_n_run:
  "exec_n desc code c n (t, m) = (t', m') \<Longrightarrow> (mstep code post desc rep loc E)\<^sup>*\<^sup>* (t, c, m) (t', c, m')"
proof (induction n arbitrary: t m)
  case (Suc n)
  show ?case
  proof (cases "pc t < length code")
    case True
    obtain t1 m1 where x: "exec_instr desc c (code ! pc t) (t, m) = (t1, m1)" by fastforce
    then have "(mstep code post desc rep loc E)\<^sup>*\<^sup>* (t1, c, m1) (t', c, m')" using Suc True by simp
    then show ?thesis using mstep.exec [of t code desc c m t1 m1 post rep loc E, OF True x] by (meson converse_rtranclp_into_rtranclp)
  next
    case False
    then show ?thesis using Suc.prems by simp
  qed
qed simp

section \<open>The proof rule for a section\<close>

definition section_sim :: "(memory \<Rightarrow> 'a \<Rightarrow> bool) \<Rightarrow> (u32 \<Rightarrow> thread \<Rightarrow> memory \<Rightarrow> 'a \<Rightarrow> bool) \<Rightarrow> (thread \<Rightarrow> 'r \<Rightarrow> bool)
    \<Rightarrow> thread \<times> u32 \<times> memory \<Rightarrow> 'a \<times> 'r option \<Rightarrow> bool" where
  "section_sim rep ann res C X = (case C of (t, c, m) \<Rightarrow> c < NPROCS \<and> rep m (fst X)
     \<and> (case snd X of None \<Rightarrow> ann c t m (fst X) | Some r \<Rightarrow> res t r))"

text \<open>
  A section implements the operation \<open>opn\<close>. \<open>ann\<close> is the annotation of the instructions
  before the operation takes effect, \<open>res\<close> that of the ones behind, with the result, and
  \<open>var\<close> bounds the instructions that are left.
\<close>

locale rseq_section =
  fixes code :: "instr list" and post :: nat and desc :: u64
    and rep :: "memory \<Rightarrow> 'a \<Rightarrow> bool" and opn :: "u32 \<Rightarrow> 'a \<Rightarrow> 'r \<times> 'a" and loc :: "u32 \<Rightarrow> u64 set"
    and ann :: "u32 \<Rightarrow> thread \<Rightarrow> memory \<Rightarrow> 'a \<Rightarrow> bool" and res :: "thread \<Rightarrow> 'r \<Rightarrow> bool" and var :: "thread \<Rightarrow> nat"
  assumes rep_unique: "rep m a \<Longrightarrow> rep m b \<Longrightarrow> a = b"
    and ann_pc: "ann c t m a \<Longrightarrow> pc t < length code"
    and ann_step: "ann c t m a \<Longrightarrow> rep m a \<Longrightarrow> c < NPROCS \<Longrightarrow> exec_instr desc c (code ! pc t) (t, m) = (t', m') \<Longrightarrow>
      var t' < var t \<and> (rep m' a \<and> ann c t' m' a \<or> rep m' (snd (opn c a)) \<and> res t' (fst (opn c a)))"
    and res_step: "res t r \<Longrightarrow> pc t < length code \<Longrightarrow> exec_instr desc c (code ! pc t) (t, m) = (t', m') \<Longrightarrow>
      var t' < var t \<and> m' = m \<and> res t' r"
    and ann_remote: "ann c t m a \<Longrightarrow> rep m a \<Longrightarrow> rep m' a' \<Longrightarrow> c < NPROCS \<Longrightarrow> \<forall>x \<in> loc c. m' x = m x \<Longrightarrow> ann c t m' a'"
    and ann_resume: "ann c t m a \<Longrightarrow> rep m' a' \<Longrightarrow> c' < NPROCS \<Longrightarrow> ann c' (resume post desc t) m' a'"
    and res_resume: "res t r \<Longrightarrow> resume post desc t = t"
begin

lemma sim_step:
  assumes "mstep code post desc rep loc E C C'" and "section_sim rep ann res C X"
  shows "\<exists>X'. (astep opn E)\<^sup>*\<^sup>* X X' \<and> section_sim rep ann res C' X'"
  using assms
proof (cases rule: mstep.cases)
  case (exec t c m t' m')
  show ?thesis
  proof (cases "snd X")
    case None
    then have s: "c < NPROCS" "rep m (fst X)" "ann c t m (fst X)" "X = (fst X, None)"
      using assms(2) exec(1) by (auto simp: section_sim_def prod_eq_iff)
    from ann_step [OF s(3,2,1) exec(4)] consider "rep m' (fst X)" "ann c t' m' (fst X)"
      | "rep m' (snd (opn c (fst X)))" "res t' (fst (opn c (fst X)))" by blast
    then show ?thesis
    proof cases
      case 1
      then show ?thesis using s exec(2) None by (intro exI [of _ X]) (simp add: section_sim_def)
    next
      case 2
      then have "section_sim rep ann res C' (snd (opn c (fst X)), Some (fst (opn c (fst X))))" using s exec(2) by (simp add: section_sim_def)
      then show ?thesis using astep.commit [OF s(1), of opn E "fst X"] s(4) by (metis r_into_rtranclp)
    qed
  next
    case (Some r)
    then have s: "c < NPROCS" "rep m (fst X)" "res t r" using assms(2) exec(1) by (auto simp: section_sim_def)
    then show ?thesis using res_step [OF s(3) exec(3,4)] exec(2) Some by (intro exI [of _ X]) (simp add: section_sim_def)
  qed
next
  case (remote m a m' a' c t)
  have a: "fst X = a" using assms(2) remote(1,3) rep_unique by (auto simp: section_sim_def)
  have "astep opn E X (a', snd X)" using astep.environ [of E a a' opn "snd X", OF remote(5)] a by (cases X) simp
  moreover have "section_sim rep ann res C' (a', snd X)"
    using assms(2) remote a ann_remote [OF _ remote(3,4) _ remote(6)] by (auto simp: section_sim_def split: option.splits)
  ultimately show ?thesis by blast
next
  case (preempt m a m' a' c' t c)
  have a: "fst X = a" using assms(2) preempt(1,3) rep_unique by (auto simp: section_sim_def)
  have "astep opn E X (a', snd X)" using astep.environ [of E a a' opn "snd X", OF preempt(5)] a by (cases X) simp
  moreover have "section_sim rep ann res C' (a', snd X)"
    using assms(2) preempt ann_resume [OF _ preempt(4,6)] res_resume by (auto simp: section_sim_def split: option.splits)
  ultimately show ?thesis by blast
qed

lemma sim_run:
  assumes "(mstep code post desc rep loc E)\<^sup>*\<^sup>* C C'" and "section_sim rep ann res C X"
  shows "\<exists>X'. (astep opn E)\<^sup>*\<^sup>* X X' \<and> section_sim rep ann res C' X'"
  using assms
proof (induction rule: rtranclp_induct)
  case (step C1 C2)
  then show ?case using sim_step by (meson rtranclp_trans)
qed blast

text \<open>Every finished run performed the operation exactly once, atomically.\<close>

lemma atomic:
  assumes "(mstep code post desc rep loc E)\<^sup>*\<^sup>* (t, c, m) (t', c', m')" and "pc t' \<ge> length code"
    and "c < NPROCS" and "rep m a" and "ann c t m a"
  shows "\<exists>d a1 b. d < NPROCS \<and> E\<^sup>*\<^sup>* a a1 \<and> res t' (fst (opn d a1)) \<and> E\<^sup>*\<^sup>* (snd (opn d a1)) b \<and> rep m' b"
proof -
  have "section_sim rep ann res (t, c, m) (a, None)" using assms(3-5) by (simp add: section_sim_def)
  then obtain X where X: "(astep opn E)\<^sup>*\<^sup>* (a, None) X" "section_sim rep ann res (t', c', m') X" using sim_run [OF assms(1)] by blast
  obtain r where r: "X = (fst X, Some r)" "res t' r" "rep m' (fst X)"
    using X(2) assms(2) ann_pc by (cases X; cases "snd X") (fastforce simp: section_sim_def)+
  show ?thesis using astep_once [OF X(1) refl r(1)] r(2,3) by blast
qed

text \<open>Left alone, a thread inside the section finishes.\<close>

lemma halts:
  assumes "c < NPROCS" and "rep m a" and "ann c t m a \<or> res t r"
  shows "\<exists>n t' m'. exec_n desc code c n (t, m) = (t', m') \<and> pc t' \<ge> length code"
  using assms
proof (induction "var t" arbitrary: t m a r rule: less_induct)
  case less
  show ?case
  proof (cases "pc t < length code")
    case True
    obtain t1 m1 where x: "exec_instr desc c (code ! pc t) (t, m) = (t1, m1)" by fastforce
    have "\<exists>a1 r1. var t1 < var t \<and> rep m1 a1 \<and> (ann c t1 m1 a1 \<or> res t1 r1)"
      using less.prems(3)
    proof
      assume "ann c t m a"
      then show ?thesis using ann_step [OF _ less.prems(2,1) x] by blast
    next
      assume "res t r"
      then show ?thesis using res_step [OF _ True x] less.prems(2) by blast
    qed
    then obtain n t' m' where "exec_n desc code c n (t1, m1) = (t', m')" "pc t' \<ge> length code"
      using less.hyps less.prems(1) by blast
    then show ?thesis using x True by (intro exI [of _ "Suc n"]) simp
  next
    case False
    then show ?thesis by (intro exI [of _ 0]) simp
  qed
qed

text \<open>The contract of a section: it ends when left alone, and a finished run is one operation.\<close>

lemma section_correct:
  assumes "c < NPROCS" and "rep m a" and "ann c t m a"
  shows "(\<exists>n t' m'. exec_n desc code c n (t, m) = (t', m') \<and> length code \<le> pc t')
    \<and> (\<forall>E t' c' m'. (mstep code post desc rep loc E)\<^sup>*\<^sup>* (t, c, m) (t', c', m') \<and> length code \<le> pc t' \<longrightarrow>
        (\<exists>d a1 b. d < NPROCS \<and> E\<^sup>*\<^sup>* a a1 \<and> res t' (fst (opn d a1)) \<and> E\<^sup>*\<^sup>* (snd (opn d a1)) b \<and> rep m' b))"
  using halts [of c m a t] atomic [of _ t c m] assms by blast

end

end
