(* ===== verification/Rseq_Alloc.thy ===== *)
theory Rseq_Alloc
  imports Rseq_Machine
begin

text \<open>
  The critical section of \<open>obj_slab::_allocate\<close> (\<open>src/allocator/obj_slab.h\<close>) as a program of
  the machine. It has a loop and writes memory before its commit: it drops exhausted vectors
  from the vector word, which does not change the set of available blocks.
\<close>

section \<open>Allocating a block of a slab\<close>

text \<open>The labels 7, 5, 2 and 9 of the sources are the positions 7, 9, 19 and 22.\<close>

definition slab_allocate_code :: "instr list" where
  "slab_allocate_code = RSEQ_PREP_CS Temp_av @
    [Mov_imm MIGRATED Idx,
     Cmp_cpu Start_cpu,
     Jnz 22,
     Load (Addr 0 This None) Temp_av,
     Jmp 9,
     Blsr Temp_av Temp_av,
     Store Temp_av (Addr 0 This None),
     Mov_imm FULL Idx,
     Test Temp_av Temp_av,
     Jz 22,
     Tzcnt Temp_av Idx_av,
     Load (Addr 8 This (Some Idx_av)) Temp_as,
     Test Temp_as Temp_as,
     Jz 7,
     Mov Temp_as Idx,
     Blsr Temp_as Temp_as,
     Store Temp_as (Addr 8 This (Some Idx_av)),
     Tzcnt Idx Idx,
     Sal 6 Idx_av,
     Add Idx_av Idx]"

text \<open>The slab at \<open>this\<close>: the vector word and behind it the 64 slot words.\<close>

definition slot_word :: "u64 \<Rightarrow> nat \<Rightarrow> u64" where
  "slot_word this v = 8 + this + 8 * of_nat v"

definition read_slab :: "u64 \<Rightarrow> memory \<Rightarrow> obj_slab" where
  "read_slab this m = zero_slab\<lparr>available_vecs := m this, available_slots := map (\<lambda>v. m (slot_word this v)) [0..<64]\<rparr>"

definition blocks_rep :: "u64 \<Rightarrow> memory \<Rightarrow> nat set \<Rightarrow> bool" where
  "blocks_rep this m A \<longleftrightarrow> slab_wf (read_slab this m) \<and> avail (read_slab this m) = A"

definition alloc_op :: "u32 \<Rightarrow> u32 \<Rightarrow> nat set \<Rightarrow> u64 \<times> nat set" where
  "alloc_op start c A = (if c \<noteq> start then (MIGRATED, A) else if A = {} then (FULL, A)
     else (of_nat (Min A), A - {Min A}))"

definition slab_words :: "u64 \<Rightarrow> u32 \<Rightarrow> u32 \<Rightarrow> u64 set" where
  "slab_words this start c = (if c = start then insert this (slot_word this ` {..<64}) else {})"

text \<open>The slot word of the first vector with its bit set.\<close>

definition first_slots :: "u64 \<Rightarrow> memory \<Rightarrow> u64" where
  "first_slots this m = m (slot_word this (ctz (m this)))"

definition alloc_at :: "u64 \<Rightarrow> u64 \<Rightarrow> u32 \<Rightarrow> u32 \<Rightarrow> nat \<Rightarrow> thread \<Rightarrow> memory \<Rightarrow> bool" where
  "alloc_at desc this start c n t m =
    (let av = m this; sl = first_slots this m; R = regs t; armed = (rseq_cs t = desc); on = (c = start \<and> rseq_cs t = desc)
     in if n = 0 then True
        else if n = 1 then R Temp_av = desc
        else if n = 2 then armed
        else if n = 3 then armed \<and> R Idx = MIGRATED
        else if n = 4 then armed \<and> R Idx = MIGRATED \<and> zf t = (c = start)
        else if n = 5 then on
        else if n = 6 then on \<and> R Temp_av = av
        else if n = 7 then on \<and> R Temp_av = av \<and> av \<noteq> 0 \<and> sl = 0
        else if n = 8 then on \<and> R Temp_av = av AND (av - 1) \<and> av \<noteq> 0 \<and> sl = 0
        else if n = 9 then on \<and> R Temp_av = av
        else if n = 10 then on \<and> R Temp_av = av \<and> R Idx = FULL
        else if n = 11 then on \<and> R Temp_av = av \<and> R Idx = FULL \<and> zf t = (av = 0)
        else if n = 12 then on \<and> R Temp_av = av \<and> av \<noteq> 0
        else if n = 13 then on \<and> R Temp_av = av \<and> av \<noteq> 0 \<and> R Idx_av = tzcnt av
        else if n = 14 then on \<and> R Temp_av = av \<and> av \<noteq> 0 \<and> R Idx_av = tzcnt av \<and> R Temp_as = sl
        else if n = 15 then on \<and> R Temp_av = av \<and> av \<noteq> 0 \<and> R Idx_av = tzcnt av \<and> R Temp_as = sl \<and> zf t = (sl = 0)
        else if n = 16 then on \<and> av \<noteq> 0 \<and> R Idx_av = tzcnt av \<and> R Temp_as = sl \<and> sl \<noteq> 0
        else if n = 17 then on \<and> av \<noteq> 0 \<and> R Idx_av = tzcnt av \<and> R Temp_as = sl \<and> sl \<noteq> 0 \<and> R Idx = sl
        else if n = 18 then on \<and> av \<noteq> 0 \<and> R Idx_av = tzcnt av \<and> R Temp_as = sl AND (sl - 1) \<and> sl \<noteq> 0 \<and> R Idx = sl
        else False)"

definition alloc_ann :: "u64 \<Rightarrow> u64 \<Rightarrow> u32 \<Rightarrow> u32 \<Rightarrow> thread \<Rightarrow> memory \<Rightarrow> nat set \<Rightarrow> bool" where
  "alloc_ann desc this start c t m A \<longleftrightarrow> regs t This = this \<and> ucast (regs t Start_cpu) = start
     \<and> alloc_at desc this start c (pc t) t m"

definition alloc_res :: "thread \<Rightarrow> u64 \<Rightarrow> bool" where
  "alloc_res t r \<longleftrightarrow> pc t = 19 \<and> r = tzcnt (regs t Idx) + push_bit 6 (regs t Idx_av)
     \<or> pc t = 20 \<and> r = regs t Idx + push_bit 6 (regs t Idx_av)
     \<or> pc t = 21 \<and> r = regs t Idx + regs t Idx_av
     \<or> pc t = 22 \<and> r = regs t Idx"

text \<open>Bounds the remaining instructions: the loop ends because \<open>temp_av\<close> decreases.\<close>

definition alloc_var :: "thread \<Rightarrow> nat" where
  "alloc_var t = (if pc t < 6 then 64 * 2 ^ 64 + 64 - pc t
     else 64 * unat (regs t Temp_av)
       + [0, 0, 0, 0, 0, 0, 40, 31, 39, 38, 37, 36, 35, 34, 33, 32, 20, 19, 18, 17, 16, 15, 0] ! pc t)"

lemmas alloc_at_simps = alloc_at_def Let_def
lemmas alloc_code_simps = slab_allocate_code_def RSEQ_PREP_CS_def instr_defs

lemma nat_cases_19:
  assumes "(n :: nat) < 19"
  obtains "n < 5" | "n = 5" | "n = 6" | "n = 7" | "n = 8" | "n = 9" | "n = 10" | "n = 11" | "n = 12" | "n = 13"
    | "n = 14" | "n = 15" | "n = 16" | "n = 17" | "n = 18"
  using assms that by (auto simp: numeral_eq_Suc less_Suc_eq)

lemma of_nat_u64_eq_iff: "a < 1000 \<Longrightarrow> b < 1000 \<Longrightarrow> (of_nat a :: u64) = of_nat b \<longleftrightarrow> a = b"
proof
  assume b: "a < 1000" "b < 1000" and e: "(of_nat a :: u64) = of_nat b"
  have "unat (of_nat n :: u64) = n" if "n < 1000" for n using that by (simp only: unat_of_nat) (simp add: take_bit_nat_eq_self)
  then show "a = b" using b e by metis
qed simp

lemma slot_word_eq: "slot_word this v = this + of_nat (8 + 8 * v)"
  by (simp add: slot_word_def algebra_simps)

lemma slot_word_inj: "v < 64 \<Longrightarrow> w < 64 \<Longrightarrow> slot_word this v = slot_word this w \<longleftrightarrow> v = w"
  using of_nat_u64_eq_iff [of "8 + 8 * v" "8 + 8 * w"] unfolding slot_word_eq add_left_cancel by linarith

lemma slot_word_this: "v < 64 \<Longrightarrow> slot_word this v \<noteq> this"
  using of_nat_u64_eq_iff [of "8 + 8 * v" 0] unfolding slot_word_eq by (simp del: of_nat_add of_nat_mult)

lemma ea_slots: "8 + this + 8 * tzcnt (m this) = slot_word this (ctz (m this))"
  by (simp add: slot_word_def tzcnt_def)

lemma read_slab_simps [simp]:
  "available_vecs (read_slab this m) = m this" "available_slots (read_slab this m) = map (\<lambda>v. m (slot_word this v)) [0..<64]"
  by (simp_all add: read_slab_def)

lemma read_slab_vecs: "read_slab this (m(this := w)) = (read_slab this m)\<lparr>available_vecs := w\<rparr>"
  using slot_word_this [of _ this] by (simp add: read_slab_def)

lemma read_slab_slots:
  assumes "v < 64"
  shows "read_slab this (m(slot_word this v := w)) = (read_slab this m)\<lparr>available_slots := (available_slots (read_slab this m))[v := w]\<rparr>"
proof -
  have "map (\<lambda>u. (m(slot_word this v := w)) (slot_word this u)) [0..<64] = (map (\<lambda>u. m (slot_word this u)) [0..<64])[v := w]"
    using assms by (intro nth_equalityI) (auto simp: nth_list_update slot_word_inj)
  then show ?thesis using slot_word_this [OF assms, of this] by (simp add: read_slab_def)
qed

lemma ctz_u64: "(w :: u64) \<noteq> 0 \<Longrightarrow> ctz w < 64"
  using ctz_props(2) [of w] by simp

lemma first_slots_nth: "m this \<noteq> 0 \<Longrightarrow> available_slots (read_slab this m) ! ctz (available_vecs (read_slab this m)) = first_slots this m"
  by (simp add: first_slots_def ctz_u64)

lemma blocks_rep_full: "blocks_rep this m A \<Longrightarrow> m this = 0 \<Longrightarrow> A = {}"
  using avail_empty_iff [of "read_slab this m"] by (auto simp: blocks_rep_def slab_wf_def)

lemma blocks_rep_skip:
  assumes "blocks_rep this m A" and "m this \<noteq> 0" and "first_slots this m = 0"
  shows "blocks_rep this (m(this := m this AND (m this - 1))) A"
proof -
  have wf: "slab_wf (read_slab this m)" and A: "avail (read_slab this m) = A" using assms(1) by (simp_all add: blocks_rep_def)
  have "slab_wf ((read_slab this m)\<lparr>available_vecs := m this AND (m this - 1)\<rparr>)"
    using wf_clear_vec [OF wf] first_slots_nth [of m this, OF assms(2)] assms(3) by simp
  then show ?thesis using A by (simp add: blocks_rep_def read_slab_vecs)
qed

lemma blocks_rep_take:
  assumes "blocks_rep this m A" and "m this \<noteq> 0" and "first_slots this m \<noteq> 0"
  shows "blocks_rep this (m(slot_word this (ctz (m this)) := first_slots this m AND (first_slots this m - 1))) (A - {Min A})"
    and "A \<noteq> {}" and "tzcnt (first_slots this m) + push_bit 6 (tzcnt (m this)) = of_nat (Min A)"
proof -
  let ?s = "read_slab this m" and ?sl = "first_slots this m"
  let ?idx = "tzcnt ?sl + push_bit 6 (tzcnt (m this))"
  have wf: "slab_wf ?s" and A: "avail ?s = A" using assms(1) by (simp_all add: blocks_rep_def)
  have fs: "available_slots ?s ! ctz (available_vecs ?s) = ?sl" by (rule first_slots_nth [of m this, OF assms(2)])
  have post: "alloc_post ?s ?idx (?s\<lparr>available_slots := (available_slots ?s)[ctz (m this) := ?sl AND (?sl - 1)]\<rparr>)"
    using alloc_take [OF wf] assms(2,3) unfolding fs by simp
  show ne: "A \<noteq> {}" using avail_empty_iff [OF wf] fs assms(2,3) ctz_u64 [OF assms(2)] A by auto
  have fin: "finite A" using A by (auto simp: avail_def)
  have "unat ?idx \<in> A" "\<forall>i \<in> A. unat ?idx \<le> i" using post ne A by (simp_all add: alloc_post_def)
  then have mn: "Min A = unat ?idx" using fin by (intro Min_eqI) auto
  then show "?idx = of_nat (Min A)" by simp
  show "blocks_rep this (m(slot_word this (ctz (m this)) := ?sl AND (?sl - 1))) (A - {Min A})"
    unfolding blocks_rep_def read_slab_slots [OF ctz_u64 [OF assms(2)]]
    using post ne A mn by (simp add: alloc_post_def)
qed

lemma alloc_at_bound: "alloc_at desc this start c n t m \<Longrightarrow> n < 19"
  by (rule ccontr) (simp add: alloc_at_simps)

lemma alloc_step_head:
  assumes ann: "alloc_ann desc this start c t m A" and rep: "blocks_rep this m A"
    and x: "exec_instr desc c (slab_allocate_code ! pc t) (t, m) = (t', m')" and p: "pc t < 5"
  shows "alloc_var t' < alloc_var t \<and> (blocks_rep this m' A \<and> alloc_ann desc this start c t' m' A
    \<or> blocks_rep this m' (snd (alloc_op start c A)) \<and> alloc_res t' (fst (alloc_op start c A)))"
proof -
  have r: "regs t This = this" "ucast (regs t Start_cpu) = start" and at: "alloc_at desc this start c (pc t) t m"
    using ann by (simp_all add: alloc_ann_def)
  consider "pc t = 0" | "pc t = 1" | "pc t = 2" | "pc t = 3" | "pc t = 4" using p by linarith
  then show ?thesis
  proof cases
    case 1
    have "t' = t\<lparr>pc := 1, regs := (regs t)(Temp_av := desc)\<rparr>" "m' = m" using x 1 by (auto simp: alloc_code_simps)
    then show ?thesis using 1 at rep r by (simp add: alloc_ann_def alloc_at_simps alloc_var_def)
  next
    case 2
    have "t' = t\<lparr>pc := 2, rseq_cs := desc\<rparr>" "m' = m" using x 2 at by (auto simp: alloc_code_simps alloc_at_simps)
    then show ?thesis using 2 at rep r by (simp add: alloc_ann_def alloc_at_simps alloc_var_def)
  next
    case 3
    have "t' = t\<lparr>pc := 3, regs := (regs t)(Idx := MIGRATED)\<rparr>" "m' = m" using x 3 by (auto simp: alloc_code_simps)
    then show ?thesis using 3 at rep r by (simp add: alloc_ann_def alloc_at_simps alloc_var_def)
  next
    case 4
    have "t' = t\<lparr>pc := 4, zf := (start = c)\<rparr>" "m' = m" using x 4 r by (auto simp: alloc_code_simps)
    then show ?thesis using 4 at rep r by (auto simp: alloc_ann_def alloc_at_simps alloc_var_def)
  next
    case 5
    have "t' = t\<lparr>pc := if c = start then 5 else 22\<rparr>" "m' = m" using x 5 at by (auto simp: alloc_code_simps alloc_at_simps)
    then show ?thesis using 5 at rep r unat_u64_bound [of "regs t Temp_av"]
      by (cases "c = start") (simp_all add: alloc_ann_def alloc_at_simps alloc_var_def alloc_op_def alloc_res_def)
  qed
qed

lemma alloc_step:
  assumes ann: "alloc_ann desc this start c t m A" and rep: "blocks_rep this m A"
    and x: "exec_instr desc c (slab_allocate_code ! pc t) (t, m) = (t', m')"
  shows "alloc_var t' < alloc_var t \<and> (blocks_rep this m' A \<and> alloc_ann desc this start c t' m' A
    \<or> blocks_rep this m' (snd (alloc_op start c A)) \<and> alloc_res t' (fst (alloc_op start c A)))"
proof -
  have r: "regs t This = this" "ucast (regs t Start_cpu) = start" and at: "alloc_at desc this start c (pc t) t m"
    using ann by (simp_all add: alloc_ann_def)
  have "pc t < 19" using at by (rule alloc_at_bound)
  then show ?thesis
  proof (cases rule: nat_cases_19)
    case 1
    show ?thesis by (rule alloc_step_head [OF ann rep x 1])
  next
    case 2
    have "t' = t\<lparr>pc := 6, regs := (regs t)(Temp_av := m this)\<rparr>" "m' = m"
      using x 2 r by (auto simp: alloc_code_simps)
    then show ?thesis using 2 at rep r unat_u64_bound [of "m this"] by (simp add: alloc_ann_def alloc_at_simps alloc_var_def)
  next
    case 3
    have "t' = t\<lparr>pc := 9\<rparr>" "m' = m" using x 3 by (auto simp: alloc_code_simps)
    then show ?thesis using 3 at rep r by (simp add: alloc_ann_def alloc_at_simps alloc_var_def)
  next
    case 4
    have "t' = t\<lparr>pc := 8, regs := (regs t)(Temp_av := m this AND (m this - 1)), zf := (m this AND (m this - 1) = 0)\<rparr>" "m' = m"
      using x 4 at by (auto simp: alloc_code_simps alloc_at_simps)
    then show ?thesis using 4 at rep r blsr_less [of "m this"] by (simp add: alloc_ann_def alloc_at_simps alloc_var_def word_less_nat_alt)
  next
    case 5
    have "t' = t\<lparr>pc := 9\<rparr>" "m' = m(this := m this AND (m this - 1))"
      using x 5 at r by (auto simp: alloc_code_simps alloc_at_simps)
    then show ?thesis using 5 at r blocks_rep_skip [OF rep] by (simp add: alloc_ann_def alloc_at_simps alloc_var_def)
  next
    case 6
    have "t' = t\<lparr>pc := 10, regs := (regs t)(Idx := FULL)\<rparr>" "m' = m" using x 6 by (auto simp: alloc_code_simps)
    then show ?thesis using 6 at rep r by (simp add: alloc_ann_def alloc_at_simps alloc_var_def)
  next
    case 7
    have "t' = t\<lparr>pc := 11, zf := (regs t Temp_av = 0)\<rparr>" "m' = m" using x 7 by (auto simp: alloc_code_simps)
    then show ?thesis using 7 at rep r by (simp add: alloc_ann_def alloc_at_simps alloc_var_def)
  next
    case 8
    have "t' = t\<lparr>pc := if m this = 0 then 22 else 12\<rparr>" "m' = m" using x 8 at by (auto simp: alloc_code_simps alloc_at_simps)
    then show ?thesis using 8 at rep r blocks_rep_full [OF rep]
      by (cases "m this = 0") (simp_all add: alloc_ann_def alloc_at_simps alloc_var_def alloc_op_def alloc_res_def)
  next
    case 9
    have "t' = t\<lparr>pc := 13, regs := (regs t)(Idx_av := tzcnt (m this)), zf := (tzcnt (m this) = 0)\<rparr>" "m' = m"
      using x 9 at by (auto simp: alloc_code_simps alloc_at_simps)
    then show ?thesis using 9 at rep r by (simp add: alloc_ann_def alloc_at_simps alloc_var_def)
  next
    case 10
    have "t' = t\<lparr>pc := 14, regs := (regs t)(Temp_as := first_slots this m)\<rparr>" "m' = m"
      using x 10 at r ea_slots [of this m] by (auto simp: alloc_code_simps alloc_at_simps first_slots_def)
    then show ?thesis using 10 at rep r by (simp add: alloc_ann_def alloc_at_simps alloc_var_def)
  next
    case 11
    have "t' = t\<lparr>pc := 15, zf := (regs t Temp_as = 0)\<rparr>" "m' = m" using x 11 by (auto simp: alloc_code_simps)
    then show ?thesis using 11 at rep r by (simp add: alloc_ann_def alloc_at_simps alloc_var_def)
  next
    case 12
    have "t' = t\<lparr>pc := if first_slots this m = 0 then 7 else 16\<rparr>" "m' = m" using x 12 at by (auto simp: alloc_code_simps alloc_at_simps)
    then show ?thesis using 12 at rep r
      by (cases "first_slots this m = 0") (simp_all add: alloc_ann_def alloc_at_simps alloc_var_def)
  next
    case 13
    have "t' = t\<lparr>pc := 17, regs := (regs t)(Idx := regs t Temp_as)\<rparr>" "m' = m" using x 13 by (auto simp: alloc_code_simps)
    then show ?thesis using 13 at rep r by (simp add: alloc_ann_def alloc_at_simps alloc_var_def)
  next
    case 14
    let ?b = "first_slots this m AND (first_slots this m - 1)"
    have "t' = t\<lparr>pc := 18, regs := (regs t)(Temp_as := ?b), zf := (?b = 0)\<rparr>" "m' = m"
      using x 14 at by (auto simp: alloc_code_simps alloc_at_simps)
    then show ?thesis using 14 at rep r by (simp add: alloc_ann_def alloc_at_simps alloc_var_def)
  next
    case 15
    have "t' = t\<lparr>pc := 19\<rparr>" "m' = m(slot_word this (ctz (m this)) := first_slots this m AND (first_slots this m - 1))"
      using x 15 at r ea_slots [of this m] by (auto simp: alloc_code_simps alloc_at_simps)
    then show ?thesis using 15 at blocks_rep_take [OF rep] by (simp add: alloc_at_simps alloc_var_def alloc_op_def alloc_res_def)
  qed
qed

lemma alloc_at_armed:
  assumes "alloc_at desc this start c n t m" and "2 \<le> n"
  shows "rseq_cs t = desc"
  using alloc_at_bound [OF assms(1)]
proof (cases rule: nat_cases_19)
  case 1
  then consider "n = 2" | "n = 3" | "n = 4" using assms(2) by linarith
  then show ?thesis by cases (use assms in \<open>simp_all add: alloc_at_simps\<close>)
qed (use assms in \<open>simp_all add: alloc_at_simps\<close>)

lemma alloc_at_cong:
  assumes m: "c = start \<Longrightarrow> m' this = m this" and f: "c = start \<Longrightarrow> m this \<noteq> 0 \<Longrightarrow> first_slots this m' = first_slots this m"
    and at: "alloc_at desc this start c n t m"
  shows "alloc_at desc this start c n t m'"
  using alloc_at_bound [OF at]
proof (cases rule: nat_cases_19)
  case 1
  then consider "n = 0" | "n = 1" | "n = 2" | "n = 3" | "n = 4" by linarith
  then show ?thesis by cases (use at in \<open>simp_all add: alloc_at_simps\<close>)
qed (use at m f in \<open>auto simp: alloc_at_simps\<close>)

lemma alloc_resume:
  assumes "alloc_ann desc this start c t m A"
  shows "alloc_ann desc this start c' (resume 19 desc t) m' A'"
proof (cases "pc t < 2")
  case True
  then consider "pc t = 0" | "pc t = 1" by linarith
  then show ?thesis
    by cases (cases "rseq_cs t = desc"; use assms in \<open>simp add: alloc_ann_def alloc_at_simps resume_def\<close>)+
next
  case False
  then have "rseq_cs t = desc" "pc t < 19" using assms alloc_at_armed alloc_at_bound unfolding alloc_ann_def by auto
  then have "resume 19 desc t = t\<lparr>pc := 0, rseq_cs := 0\<rparr>" by (simp add: resume_def)
  then show ?thesis using assms by (simp add: alloc_ann_def alloc_at_simps)
qed

lemma alloc_remote:
  assumes "alloc_ann desc this start c t m A" and "\<forall>x \<in> slab_words this start c. m' x = m x"
  shows "alloc_ann desc this start c t m' A'"
proof -
  have "m' this = m this" if "c = start" using assms(2) that by (simp add: slab_words_def)
  moreover from this have "first_slots this m' = first_slots this m" if "c = start" "m this \<noteq> 0"
    using assms(2) that ctz_u64 [of "m this"] by (simp add: slab_words_def first_slots_def)
  ultimately show ?thesis using assms(1) alloc_at_cong [of c start m' this m] unfolding alloc_ann_def by blast
qed

lemma slab_allocate_code_length: "length slab_allocate_code = 22"
  by (simp add: slab_allocate_code_def RSEQ_PREP_CS_def)

lemma alloc_res_step:
  assumes "alloc_res t r" and "pc t < 22" and "exec_instr desc c (slab_allocate_code ! pc t) (t, m) = (t', m')"
  shows "alloc_var t' < alloc_var t \<and> m' = m \<and> alloc_res t' r"
proof -
  let ?I = "regs t Idx" and ?V = "regs t Idx_av"
  consider "pc t = 19" "r = tzcnt ?I + push_bit 6 ?V" | "pc t = 20" "r = ?I + push_bit 6 ?V" | "pc t = 21" "r = ?I + ?V"
    using assms(1,2) unfolding alloc_res_def by linarith
  then show ?thesis
  proof cases
    case 1
    then have "t' = set_alu Idx (tzcnt ?I) t" "m' = m" using assms(3) by (simp_all add: slab_allocate_code_def RSEQ_PREP_CS_def)
    then show ?thesis using 1 by (simp add: alloc_res_def alloc_var_def set_alu_def)
  next
    case 2
    then have "t' = set_alu Idx_av (push_bit 6 ?V) t" "m' = m" using assms(3) by (simp_all add: slab_allocate_code_def RSEQ_PREP_CS_def)
    then show ?thesis using 2 by (simp add: alloc_res_def alloc_var_def set_alu_def)
  next
    case 3
    then have "t' = set_alu Idx (?I + ?V) t" "m' = m" using assms(3) by (simp_all add: slab_allocate_code_def RSEQ_PREP_CS_def)
    then show ?thesis using 3 by (simp add: alloc_res_def alloc_var_def set_alu_def)
  qed
qed

interpretation allocs: rseq_section slab_allocate_code 19 desc "blocks_rep this" "alloc_op start" "slab_words this start"
  "alloc_ann desc this start" alloc_res alloc_var for desc this start
proof (unfold_locales, goal_cases)
  case (1 m A B) then show ?case by (simp add: blocks_rep_def)
next
  case (2 c t m A) then show ?case
    using alloc_at_bound [of desc this start c "pc t" t m] by (simp add: alloc_ann_def slab_allocate_code_length)
next
  case (3 c t m A t' m') show ?case by (rule alloc_step [OF 3(1,2,4)])
next
  case (4 t r c m t' m') then show ?case by (intro alloc_res_step) (simp_all add: slab_allocate_code_length)
next
  case (5 c t m A m' A') show ?case by (rule alloc_remote [OF 5(1,5)])
next
  case (6 c t m A m' A' c') show ?case by (rule alloc_resume [OF 6(1)])
next
  case (7 t r) then show ?case by (auto simp: alloc_res_def resume_def)
qed

section \<open>Properties\<close>

text \<open>
  C9: the critical section of \<open>obj_slab::_allocate\<close>, instruction by instruction, under
  preemption, migration and threads of other cores: left alone it ends, and every finished
  run has taken exactly one step on the set of available blocks, on the core the thread was
  on at that moment: nothing and \<open>MIGRATED\<close> on another core than \<open>start_cpu\<close>, nothing and
  \<open>FULL\<close> on an empty set, and otherwise the lowest block, which is what it returns.
\<close>

theorem slab_allocate_section_atomic:
  assumes "pc t = 0" and "regs t This = this" and "ucast (regs t Start_cpu) = start" and "c < NPROCS" and "blocks_rep this m A"
  shows "(\<exists>n t' m'. exec_n desc slab_allocate_code c n (t, m) = (t', m') \<and> length slab_allocate_code \<le> pc t')
    \<and> (\<forall>E t' c' m'. (mstep slab_allocate_code 19 desc (blocks_rep this) (slab_words this start) E)\<^sup>*\<^sup>* (t, c, m) (t', c', m')
          \<and> length slab_allocate_code \<le> pc t' \<longrightarrow>
        (\<exists>d A1 B. d < NPROCS \<and> E\<^sup>*\<^sup>* A A1 \<and> regs t' Idx = fst (alloc_op start d A1)
          \<and> E\<^sup>*\<^sup>* (snd (alloc_op start d A1)) B \<and> blocks_rep this m' B))"
proof -
  have a: "alloc_ann desc this start c t m A" using assms(1-3) by (simp add: alloc_ann_def alloc_at_simps)
  have r: "alloc_res t' r \<Longrightarrow> length slab_allocate_code \<le> pc t' \<Longrightarrow> regs t' Idx = r" for t' r
    by (auto simp: alloc_res_def slab_allocate_code_length)
  show ?thesis using allocs.section_correct [OF assms(4,5) a] r by blast
qed

theorem slab_allocate_section_atomic_witness:
  "\<exists>n t' m'. exec_n 64 slab_allocate_code 3 n (\<lparr>pc = 0, regs = (\<lambda>_. 0)(Start_cpu := 3), zf = False, rseq_cs = 0\<rparr>, \<lambda>_. 0) = (t', m')
    \<and> (regs t' Idx = FULL \<or> regs t' Idx = MIGRATED)"
proof -
  let ?t = "\<lparr>pc = 0, regs = (\<lambda>_. 0)(Start_cpu := 3), zf = False, rseq_cs = 0\<rparr>"
  have e: "blocks_rep 0 (\<lambda>_. 0) {}"
    by (auto simp: blocks_rep_def slab_wf_def read_slab_def zero_slab_def avail_def slot_bit_def OWNED_def block_div_bound)
  have p: "pc ?t = 0" "regs ?t This = 0" "ucast (regs ?t Start_cpu) = (3 :: u32)" "(3 :: u32) < NPROCS" by (simp_all add: layout_consts)
  note th = slab_allocate_section_atomic [OF p e, of 64]
  obtain n t' m' where x: "exec_n 64 slab_allocate_code 3 n (?t, \<lambda>_. 0) = (t', m')" "length slab_allocate_code \<le> pc t'"
    using conjunct1 [OF th] by blast
  note run = exec_n_run [OF x(1), of 19 "blocks_rep 0" "slab_words 0 3" "\<lambda>A B. False"]
  obtain d A1 where d: "(\<lambda>A B. False)\<^sup>*\<^sup>* {} A1" "regs t' Idx = fst (alloc_op 3 d A1)"
    using conjunct2 [OF th] run x(2) by blast
  then have "A1 = {}" by (auto elim: rtranclp.cases)
  then have "regs t' Idx = FULL \<or> regs t' Idx = MIGRATED" using d(2) by (simp add: alloc_op_def split: if_splits)
  then show ?thesis using x(1) by blast
qed

end
