(* ===== verification/Rseq_Cas.thy ===== *)
theory Rseq_Cas
  imports Rseq_Machine
begin

text \<open>
  The critical section that takes the head off the list of a manager,
  \<open>_cas_set_next_available_slab\<close> of \<open>src/allocator/slab_manager.h\<close>, as a program of the
  machine.
\<close>

section \<open>Removing the head of the list\<close>

text \<open>Position 9 is the return of 0, position 10 the label \<open>failure\<close>.\<close>

definition cas_next_code :: "instr list" where
  "cas_next_code = RSEQ_PREP_CS Temp_ptr @
    [Cmp_cpu Start_cpu,
     Jnz 10,
     Load (Addr 0 This None) Temp_ptr,
     Cmp Temp_ptr Expected_slab,
     Jnz 10,
     Load (Addr next_offset Temp_ptr None) Temp_ptr,
     Store Temp_ptr (Addr 0 This None)]"

text \<open>The state: the head of the list and the successor of the expected slab.\<close>

definition cas_rep :: "u64 \<Rightarrow> u64 \<Rightarrow> memory \<Rightarrow> u64 \<times> u64 \<Rightarrow> bool" where
  "cas_rep this ex m a \<longleftrightarrow> a = (m this, m (next_offset + ex))"

definition cas_op :: "u32 \<Rightarrow> u64 \<Rightarrow> u32 \<Rightarrow> u64 \<times> u64 \<Rightarrow> u32 \<times> (u64 \<times> u64)" where
  "cas_op start ex c a = (if c \<noteq> start \<or> fst a \<noteq> ex then (ANY, a) else (0, (snd a, snd a)))"

definition cas_words :: "u64 \<Rightarrow> u64 \<Rightarrow> u32 \<Rightarrow> u32 \<Rightarrow> u64 set" where
  "cas_words this ex start c = (if c = start then {this, next_offset + ex} else {})"

definition cas_ann :: "u64 \<Rightarrow> u64 \<Rightarrow> u64 \<Rightarrow> u32 \<Rightarrow> u32 \<Rightarrow> thread \<Rightarrow> memory \<Rightarrow> u64 \<times> u64 \<Rightarrow> bool" where
  "cas_ann desc this ex start c t m a \<longleftrightarrow> regs t This = this \<and> regs t Expected_slab = ex
     \<and> ucast (regs t Start_cpu) = start \<and> pc t < 9
     \<and> (pc t = 1 \<longrightarrow> regs t Temp_ptr = desc) \<and> (2 \<le> pc t \<longrightarrow> rseq_cs t = desc)
     \<and> (pc t = 3 \<longrightarrow> zf t = (c = start)) \<and> (4 \<le> pc t \<longrightarrow> c = start)
     \<and> (pc t = 5 \<or> pc t = 6 \<longrightarrow> regs t Temp_ptr = m this) \<and> (pc t = 6 \<longrightarrow> zf t = (m this = ex))
     \<and> (7 \<le> pc t \<longrightarrow> m this = ex) \<and> (pc t = 7 \<longrightarrow> regs t Temp_ptr = ex)
     \<and> (pc t = 8 \<longrightarrow> regs t Temp_ptr = m (next_offset + ex))"

definition cas_res :: "thread \<Rightarrow> u32 \<Rightarrow> bool" where
  "cas_res t r \<longleftrightarrow> pc t = 9 \<and> r = 0 \<or> pc t = 10 \<and> r = ANY"

lemmas cas_code_simps = cas_next_code_def RSEQ_PREP_CS_def instr_defs

lemma nat_cases_9:
  assumes "(n :: nat) < 9"
  obtains "n = 0" | "n = 1" | "n = 2" | "n = 3" | "n = 4" | "n = 5" | "n = 6" | "n = 7" | "n = 8"
  using assms that by (auto simp: numeral_eq_Suc less_Suc_eq)

lemma cas_step:
  assumes "cas_ann desc this ex start c t m a" and "cas_rep this ex m a"
    and x: "exec_instr desc c (cas_next_code ! pc t) (t, m) = (t', m')"
  shows "11 - pc t' < 11 - pc t \<and> (cas_rep this ex m' a \<and> cas_ann desc this ex start c t' m' a
    \<or> cas_rep this ex m' (snd (cas_op start ex c a)) \<and> cas_res t' (fst (cas_op start ex c a)))"
proof -
  have "pc t < 9" using assms(1) by (simp add: cas_ann_def)
  then show ?thesis
  proof (cases rule: nat_cases_9)
    case 1
    then show ?thesis using assms by (auto simp: cas_ann_def cas_rep_def cas_code_simps)
  next
    case 2
    then show ?thesis using assms by (auto simp: cas_ann_def cas_rep_def cas_code_simps)
  next
    case 3
    then show ?thesis using assms by (auto simp: cas_ann_def cas_rep_def cas_code_simps)
  next
    case 4
    then show ?thesis using assms by (auto simp: cas_ann_def cas_rep_def cas_res_def cas_op_def cas_code_simps)
  next
    case 5
    then show ?thesis using assms by (auto simp: cas_ann_def cas_rep_def cas_code_simps)
  next
    case 6
    then show ?thesis using assms by (auto simp: cas_ann_def cas_rep_def cas_code_simps)
  next
    case 7
    then show ?thesis using assms by (auto simp: cas_ann_def cas_rep_def cas_res_def cas_op_def cas_code_simps)
  next
    case 8
    then show ?thesis using assms by (auto simp: cas_ann_def cas_rep_def cas_code_simps)
  next
    case 9
    then show ?thesis using assms by (auto simp: cas_ann_def cas_rep_def cas_res_def cas_op_def cas_code_simps)
  qed
qed

lemma cas_resume:
  assumes "cas_ann desc this ex start c t m a"
  shows "cas_ann desc this ex start c' (resume 9 desc t) m' a'"
proof (cases "pc t < 2")
  case True
  then show ?thesis using assms unfolding cas_ann_def resume_def by simp
next
  case False
  then have "resume 9 desc t = t\<lparr>pc := 0, rseq_cs := 0\<rparr>" using assms unfolding cas_ann_def resume_def by simp
  then show ?thesis using assms unfolding cas_ann_def by simp
qed

lemma cas_remote:
  assumes "cas_ann desc this ex start c t m a" and "\<forall>x \<in> cas_words this ex start c. m' x = m x"
  shows "cas_ann desc this ex start c t m' a'"
proof (cases "c = start")
  case True
  then have e: "m' this = m this" "m' (next_offset + ex) = m (next_offset + ex)" using assms(2) by (simp_all add: cas_words_def)
  show ?thesis using assms(1) unfolding cas_ann_def e .
next
  case False
  then have "pc t < 4" using assms(1) unfolding cas_ann_def by (metis not_le)
  then show ?thesis using assms(1) unfolding cas_ann_def by simp
qed

interpretation cas: rseq_section cas_next_code 9 desc "cas_rep this ex" "cas_op start ex" "cas_words this ex start"
  "cas_ann desc this ex start" cas_res "\<lambda>t. 11 - pc t" for desc this ex start
proof (unfold_locales, goal_cases)
  case (1 m a b) then show ?case by (simp add: cas_rep_def)
next
  case (2 c t m a) then show ?case by (simp add: cas_ann_def cas_next_code_def RSEQ_PREP_CS_def)
next
  case (3 c t m a t' m') then show ?case by (intro cas_step)
next
  case (4 t r c m t' m') then show ?case by (auto simp: cas_res_def cas_next_code_def RSEQ_PREP_CS_def)
next
  case (5 c t m a m' a') show ?case by (rule cas_remote [OF 5(1,5)])
next
  case (6 c t m a m' a' c') show ?case by (rule cas_resume [OF 6(1)])
next
  case (7 t r) then show ?case by (auto simp: cas_res_def resume_def)
qed

section \<open>Properties\<close>

lemma cas_next_code_length: "length cas_next_code = 9"
  by (simp add: cas_next_code_def RSEQ_PREP_CS_def)

text \<open>
  C12: the critical section of \<open>_cas_set_next_available_slab\<close>, instruction by instruction,
  under preemption, migration and threads of other cores: left alone it ends, and every
  finished run has once compared the core and the head of the list at the same moment, and
  either replaced the expected head by its successor and returned 0 (position 9), or changed
  nothing and gone to \<open>failure\<close> (position 10).
\<close>

theorem cas_next_section_atomic:
  assumes "pc t = 0" and "regs t This = this" and "regs t Expected_slab = ex" and "ucast (regs t Start_cpu) = start"
    and "c < NPROCS"
  shows "(\<exists>n t' m'. exec_n desc cas_next_code c n (t, m) = (t', m') \<and> length cas_next_code \<le> pc t')
    \<and> (\<forall>E t' c' m'. (mstep cas_next_code 9 desc (cas_rep this ex) (cas_words this ex start) E)\<^sup>*\<^sup>* (t, c, m) (t', c', m')
          \<and> length cas_next_code \<le> pc t' \<longrightarrow>
        (\<exists>d a b. d < NPROCS \<and> E\<^sup>*\<^sup>* (m this, m (next_offset + ex)) a
          \<and> pc t' = (if fst (cas_op start ex d a) = 0 then 9 else 10)
          \<and> E\<^sup>*\<^sup>* (snd (cas_op start ex d a)) b \<and> cas_rep this ex m' b))"
proof -
  have a: "cas_ann desc this ex start c t m (m this, m (next_offset + ex))" "cas_rep this ex m (m this, m (next_offset + ex))"
    using assms(1-4) by (simp_all add: cas_ann_def cas_rep_def)
  have r: "cas_res t' r \<Longrightarrow> pc t' = (if r = 0 then 9 else 10)" for t' r by (auto simp: cas_res_def ANY_def)
  show ?thesis using cas.section_correct [OF assms(5) a(2,1)] r by blast
qed

theorem cas_next_section_atomic_witness:
  "\<exists>n t' m'. exec_n 64 cas_next_code 2 n
      (\<lparr>pc = 0, regs = (\<lambda>_. 0)(This := 4096, Expected_slab := 34048, Start_cpu := 2), zf = False, rseq_cs = 0\<rparr>, (\<lambda>_. 0)(4096 := 34048)) = (t', m')
    \<and> (pc t' = 9 \<or> pc t' = 10)"
proof -
  let ?t = "\<lparr>pc = 0, regs = (\<lambda>_. 0)(This := 4096, Expected_slab := 34048, Start_cpu := 2), zf = False, rseq_cs = 0\<rparr>"
  have p: "pc ?t = 0" "regs ?t This = 4096" "regs ?t Expected_slab = 34048" "ucast (regs ?t Start_cpu) = (2 :: u32)" "(2 :: u32) < NPROCS"
    by (simp_all add: layout_consts)
  note th = cas_next_section_atomic [OF p, of 64 "(\<lambda>_. 0)(4096 := 34048)"]
  obtain n t' m' where x: "exec_n 64 cas_next_code 2 n (?t, (\<lambda>_. 0)(4096 := 34048)) = (t', m')" "length cas_next_code \<le> pc t'"
    using conjunct1 [OF th] by blast
  note run = exec_n_run [OF x(1), of 9 "cas_rep 4096 34048" "cas_words 4096 34048 2" "\<lambda>A B. False"]
  obtain d a where "pc t' = (if fst (cas_op 2 34048 d a) = 0 then 9 else 10)"
    using conjunct2 [OF th] run x(2) by blast
  then have "pc t' = 9 \<or> pc t' = 10" by (simp split: if_splits)
  then show ?thesis using x(1) by blast
qed

end
