(* ===== verification/Rseq_Cache.thy ===== *)
theory Rseq_Cache
  imports Rseq_Machine
begin

text \<open>
  The critical sections of the free cache, \<open>try_pop\<close> and \<open>try_push\<close> of
  \<open>src/allocator/object_allocator.h\<close>, as programs of the machine. Both find the cache of the
  core they run on by its number; \<open>try_push\<close> stores the pointer above the top of the stack
  before it commits by raising the index.
\<close>

section \<open>The managers in memory\<close>

text \<open>The address of the manager of core \<open>c\<close>, as the sections compute it, and its word \<open>k\<close>.\<close>

definition sm_addr :: "u64 \<Rightarrow> u32 \<Rightarrow> u64" where
  "sm_addr base c = push_bit (unat log_sizeof_slab_manager) (ucast c) + base"

definition mgr_word :: "u64 \<Rightarrow> u32 \<Rightarrow> nat \<Rightarrow> u64" where
  "mgr_word base c k = 8 * of_nat k + sm_addr base c"

lemma log_sizeof_slab_manager_eq: "unat log_sizeof_slab_manager = 7"
  by (simp add: layout_consts)

lemma digit_16: "k < 16 \<Longrightarrow> l < 16 \<Longrightarrow> k + 16 * x = l + 16 * y \<longleftrightarrow> x = y \<and> k = l" for k l x y :: nat
proof
  assume kl: "k < 16" "l < 16" and eq: "k + 16 * x = l + 16 * y"
  have "(k + 16 * x) mod 16 = (l + 16 * y) mod 16" using eq by simp
  then have "k = l" using kl by (simp only: mod_mult_self2 mod_less)
  then show "x = y \<and> k = l" using eq by simp
qed simp

lemma mgr_word_eq_iff:
  assumes "c < NPROCS" and "d < NPROCS" and "k < 16" and "l < 16"
  shows "mgr_word base c k = mgr_word base d l \<longleftrightarrow> c = d \<and> k = l"
proof -
  have w: "mgr_word base e j = of_nat (8 * j + 128 * unat e) + base" for e j
  proof -
    have "(ucast e :: u64) = of_nat (unat e)" by simp
    then show ?thesis by (simp add: mgr_word_def sm_addr_def log_sizeof_slab_manager_eq push_bit_eq_mult algebra_simps del: of_nat_unat)
  qed
  have b: "unat c < 8" "unat d < 8" using assms(1,2) by (simp_all add: layout_consts word_less_nat_alt)
  have u: "unat (of_nat (8 * j + 128 * n) :: u64) = 8 * j + 128 * n" if "j < 16" "n < 8" for j n
    using that by (simp only: unat_of_nat) (simp add: take_bit_nat_eq_self)
  have "mgr_word base c k = mgr_word base d l \<longleftrightarrow> 8 * k + 128 * unat c = 8 * l + 128 * unat d"
    unfolding w add_right_cancel using u [of k "unat c"] u [of l "unat d"] assms(3,4) b by (simp add: word_unat_eq_iff)
  also have "\<dots> \<longleftrightarrow> k + 16 * unat c = l + 16 * unat d" by linarith
  also have "\<dots> \<longleftrightarrow> unat c = unat d \<and> k = l" by (rule digit_16 [OF assms(3,4)])
  finally show ?thesis by (simp add: word_unat_eq_iff)
qed

definition read_fc :: "memory \<Rightarrow> u64 \<Rightarrow> u32 \<Rightarrow> free_cache" where
  "read_fc m base c = \<lparr>current_idx = m (mgr_word base c 2), ptrs = map (\<lambda>i. m (mgr_word base c (3 + i))) [0..<13]\<rparr>"

text \<open>The caches of all cores, the top of each first.\<close>

definition caches_rep :: "u64 \<Rightarrow> memory \<Rightarrow> (u32 \<Rightarrow> u64 list) \<Rightarrow> bool" where
  "caches_rep base m f \<longleftrightarrow> (\<forall>c. if c < NPROCS then fc_rep (read_fc m base c) (f c) else f c = [])"

definition cache_words :: "u64 \<Rightarrow> u32 \<Rightarrow> u64 set" where
  "cache_words base c = mgr_word base c ` {2..<16}"

lemma fc_rep_unique: "fc_rep k xs \<Longrightarrow> fc_rep k ys \<Longrightarrow> xs = ys"
proof -
  assume "fc_rep k xs" "fc_rep k ys"
  then have "rev xs = rev ys" by (intro nth_equalityI) (auto simp: fc_rep_def)
  then show ?thesis by simp
qed

lemma read_fc_cong: "\<forall>x \<in> cache_words base c. m' x = m x \<Longrightarrow> read_fc m' base c = read_fc m base c"
  by (simp add: read_fc_def cache_words_def)

lemma read_fc_other:
  assumes "c < NPROCS" and "d < NPROCS" and "c \<noteq> d" and "k < 16"
  shows "read_fc (m(mgr_word base c k := v)) base d = read_fc m base d"
  using assms by (simp add: read_fc_def mgr_word_eq_iff)

lemma caches_repD: "caches_rep base m f \<Longrightarrow> c < NPROCS \<Longrightarrow> fc_rep (read_fc m base c) (f c)"
  by (simp add: caches_rep_def split: if_splits)

lemma caches_rep_unique: "caches_rep base m f \<Longrightarrow> caches_rep base m g \<Longrightarrow> f = g"
proof
  fix c assume "caches_rep base m f" "caches_rep base m g"
  then show "f c = g c" unfolding caches_rep_def by (metis fc_rep_unique)
qed

lemma caches_rep_cong:
  "caches_rep base m f \<Longrightarrow> caches_rep base m' f' \<Longrightarrow> c < NPROCS \<Longrightarrow> \<forall>x \<in> cache_words base c. m' x = m x \<Longrightarrow> f' c = f c"
  by (metis caches_repD fc_rep_unique read_fc_cong)

text \<open>A store into the manager of core \<open>c\<close> leaves the caches of the other cores.\<close>

lemma caches_rep_store:
  assumes "caches_rep base m f" and "c < NPROCS" and "k < 16" and "fc_rep (read_fc (m(mgr_word base c k := v)) base c) xs"
  shows "caches_rep base (m(mgr_word base c k := v)) (f(c := xs))"
  unfolding caches_rep_def
proof
  fix d
  show "if d < NPROCS then fc_rep (read_fc (m(mgr_word base c k := v)) base d) ((f(c := xs)) d) else (f(c := xs)) d = []"
    using assms read_fc_other [OF assms(2) _ _ assms(3), of d m base v] by (cases "d = c") (auto simp: caches_rep_def split: if_splits)
qed

lemma top_word:
  assumes "caches_rep base m f" and "c < NPROCS"
  shows "length (f c) \<le> 13" "m (mgr_word base c 2) = of_nat (length (f c))"
    "\<And>i. i < length (f c) \<Longrightarrow> m (mgr_word base c (3 + i)) = rev (f c) ! i"
proof -
  note r = caches_repD [OF assms]
  show l: "length (f c) \<le> 13" using r by (simp add: fc_rep_def)
  have "unat (m (mgr_word base c 2)) = length (f c)" using r by (simp add: fc_rep_def read_fc_def)
  then show "m (mgr_word base c 2) = of_nat (length (f c))" by (metis of_nat_unat ucast_id)
  show "m (mgr_word base c (3 + i)) = rev (f c) ! i" if "i < length (f c)" for i
    using r l that by (auto simp: fc_rep_def read_fc_def)
qed

section \<open>try_pop\<close>

definition try_pop_code :: "instr list" where
  "try_pop_code = RSEQ_PREP_CS Ret @
    [Mov_cpu Fc_cache,
     Sal (unat log_sizeof_slab_manager) Fc_cache,
     Add Sm_base Fc_cache,
     Load (Addr 16 Fc_cache None) Ret,
     Test Ret Ret,
     Jz 10,
     Load (Addr 16 Fc_cache (Some Ret)) Ret,
     Sub_mem 1 (Addr 16 Fc_cache None)]"

definition pop_op :: "u32 \<Rightarrow> (u32 \<Rightarrow> u64 list) \<Rightarrow> u64 \<times> (u32 \<Rightarrow> u64 list)" where
  "pop_op c f = (case f c of [] \<Rightarrow> (0, f) | x # xs \<Rightarrow> (x, f(c := xs)))"

definition pop_ann :: "u64 \<Rightarrow> u64 \<Rightarrow> u32 \<Rightarrow> thread \<Rightarrow> memory \<Rightarrow> (u32 \<Rightarrow> u64 list) \<Rightarrow> bool" where
  "pop_ann desc base c t m f \<longleftrightarrow> regs t Sm_base = base \<and> pc t < 10
     \<and> (pc t = 1 \<longrightarrow> regs t Ret = desc) \<and> (2 \<le> pc t \<longrightarrow> rseq_cs t = desc)
     \<and> (pc t = 3 \<longrightarrow> regs t Fc_cache = ucast c) \<and> (pc t = 4 \<longrightarrow> regs t Fc_cache = push_bit 7 (ucast c))
     \<and> (5 \<le> pc t \<longrightarrow> regs t Fc_cache = sm_addr base c)
     \<and> (6 \<le> pc t \<and> pc t \<le> 8 \<longrightarrow> regs t Ret = of_nat (length (f c))) \<and> (pc t = 7 \<longrightarrow> zf t = (f c = []))
     \<and> (8 \<le> pc t \<longrightarrow> f c \<noteq> []) \<and> (pc t = 9 \<longrightarrow> regs t Ret = hd (f c))"

definition pop_res :: "thread \<Rightarrow> u64 \<Rightarrow> bool" where
  "pop_res t r \<longleftrightarrow> pc t = 10 \<and> regs t Ret = r"

lemmas pop_code_simps = try_pop_code_def RSEQ_PREP_CS_def log_sizeof_slab_manager_eq instr_defs Let_def

lemma nat_cases_10:
  assumes "(n :: nat) < 10"
  obtains "n = 0" | "n = 1" | "n = 2" | "n = 3" | "n = 4" | "n = 5" | "n = 6" | "n = 7" | "n = 8" | "n = 9"
  using assms that by (auto simp: numeral_eq_Suc less_Suc_eq)

lemma of_nat_len_zero: "n \<le> 13 \<Longrightarrow> (of_nat n :: u64) = 0 \<longleftrightarrow> n = 0"
  by (auto simp: word_of_nat_eq_0_iff dest: dvd_imp_le)

lemma pop_step:
  assumes "pop_ann desc base c t m f" and rep: "caches_rep base m f" and c: "c < NPROCS"
    and x: "exec_instr desc c (try_pop_code ! pc t) (t, m) = (t', m')"
  shows "10 - pc t' < 10 - pc t \<and> (caches_rep base m' f \<and> pop_ann desc base c t' m' f
    \<or> caches_rep base m' (snd (pop_op c f)) \<and> pop_res t' (fst (pop_op c f)))"
proof -
  note w = top_word [OF rep c]
  have a: "16 + sm_addr base c = mgr_word base c 2" "16 + sm_addr base c + 8 * of_nat n = mgr_word base c (2 + n)" for n
    by (simp_all add: mgr_word_def algebra_simps)
  have p: "pc t < 10" using assms(1) by (simp add: pop_ann_def)
  then show ?thesis
  proof (cases rule: nat_cases_10)
    case 9
    then have ne: "f c \<noteq> []" and r: "regs t Ret = of_nat (length (f c))" "regs t Fc_cache = sm_addr base c"
      using assms(1) by (simp_all add: pop_ann_def)
    have "m (mgr_word base c (2 + length (f c))) = hd (f c)"
      using w(3) [of "length (f c) - 1"] ne by (cases "f c") (simp_all add: nth_append numeral_3_eq_3)
    then show ?thesis using 9 assms(1) rep x ne r a(2) [of "length (f c)"] by (auto simp: pop_ann_def pop_code_simps)
  next
    case 10
    then obtain y xs where f: "f c = y # xs" and r: "regs t Ret = y" "regs t Fc_cache = sm_addr base c"
      using assms(1) by (cases "f c") (simp_all add: pop_ann_def)
    have m': "m' = m(mgr_word base c 2 := m (mgr_word base c 2) - 1)"
      using 10 x r a(1) by (auto simp: pop_code_simps)
    have "read_fc m' base c = (read_fc m base c)\<lparr>current_idx := current_idx (read_fc m base c) - 1\<rparr>"
      unfolding m' using c by (simp add: read_fc_def mgr_word_eq_iff)
    moreover have "current_idx (read_fc m base c) \<noteq> 0" using caches_repD [OF rep c] f by (auto simp: fc_rep_def)
    moreover obtain k where "fc_pop (read_fc m base c) = Inr (y, k)" "fc_rep k xs"
      using fc_pop_top [of "read_fc m base c" y xs] caches_repD [OF rep c] f by auto
    ultimately have "fc_rep (read_fc m' base c) xs"
      by (auto simp: fc_pop_def Let_def split: if_splits)
    then have "caches_rep base m' (f(c := xs))" unfolding m' by (intro caches_rep_store [OF rep c]) simp_all
    then show ?thesis using 10 x r f by (auto simp: pop_op_def pop_res_def pop_code_simps)
  next
    case 6
    then show ?thesis using assms(1) rep x w(2) a(1) by (auto simp: pop_ann_def pop_code_simps)
  next
    case 7
    then show ?thesis using assms(1) rep x w(1) by (auto simp: pop_ann_def pop_code_simps of_nat_len_zero)
  next
    case 8
    then show ?thesis using assms(1) rep x by (auto simp: pop_ann_def pop_res_def pop_op_def pop_code_simps)
  qed (use assms(1) rep x in \<open>auto simp: pop_ann_def pop_code_simps sm_addr_def\<close>)
qed

lemma pop_resume:
  assumes "pop_ann desc base c t m f"
  shows "pop_ann desc base c' (resume 10 desc t) m' f'"
proof (cases "pc t < 2")
  case True
  then show ?thesis using assms unfolding pop_ann_def resume_def by simp
next
  case False
  then have "resume 10 desc t = t\<lparr>pc := 0, rseq_cs := 0\<rparr>" using assms unfolding pop_ann_def resume_def by simp
  then show ?thesis using assms unfolding pop_ann_def by simp
qed

interpretation pops: rseq_section try_pop_code 10 desc "caches_rep base" pop_op "cache_words base" "pop_ann desc base" pop_res
  "\<lambda>t. 10 - pc t" for desc base
proof (unfold_locales, goal_cases)
  case (1 m f g) then show ?case by (rule caches_rep_unique)
next
  case (2 c t m f) then show ?case by (simp add: pop_ann_def try_pop_code_def RSEQ_PREP_CS_def)
next
  case (3 c t m f t' m') then show ?case by (rule pop_step)
next
  case (4 t r c m t' m') then show ?case by (simp add: pop_res_def try_pop_code_def RSEQ_PREP_CS_def)
next
  case (5 c t m f m' f')
  have f: "f' c = f c" by (rule caches_rep_cong [OF 5(2-5)])
  show ?case using 5(1) unfolding pop_ann_def f .
next
  case (6 c t m f m' f' c')
  show ?case by (rule pop_resume [OF 6(1)])
next
  case (7 t r) then show ?case by (simp add: pop_res_def resume_def)
qed

section \<open>try_push\<close>

text \<open>Position 10 is the return of 0, position 11 the label \<open>no_push\<close>.\<close>

definition try_push_code :: "instr list" where
  "try_push_code = RSEQ_PREP_CS Fc_cache @
    [Mov_cpu Fc_cache,
     Sal (unat log_sizeof_slab_manager) Fc_cache,
     Add Sm_base Fc_cache,
     Load (Addr 16 Fc_cache None) Idx,
     Cmp_imm (ucast cache_size) Idx,
     Jz 11,
     Store Ptr (Addr 24 Fc_cache (Some Idx)),
     Add_mem 1 (Addr 16 Fc_cache None)]"

definition push_op :: "u64 \<Rightarrow> u32 \<Rightarrow> (u32 \<Rightarrow> u64 list) \<Rightarrow> u64 \<times> (u32 \<Rightarrow> u64 list)" where
  "push_op p c f = (if length (f c) = 13 then (1, f) else (0, f(c := p # f c)))"

definition push_ann :: "u64 \<Rightarrow> u64 \<Rightarrow> u64 \<Rightarrow> u32 \<Rightarrow> thread \<Rightarrow> memory \<Rightarrow> (u32 \<Rightarrow> u64 list) \<Rightarrow> bool" where
  "push_ann desc base p c t m f \<longleftrightarrow> regs t Sm_base = base \<and> regs t Ptr = p \<and> pc t < 10
     \<and> (pc t = 1 \<longrightarrow> regs t Fc_cache = desc) \<and> (2 \<le> pc t \<longrightarrow> rseq_cs t = desc)
     \<and> (pc t = 3 \<longrightarrow> regs t Fc_cache = ucast c) \<and> (pc t = 4 \<longrightarrow> regs t Fc_cache = push_bit 7 (ucast c))
     \<and> (5 \<le> pc t \<longrightarrow> regs t Fc_cache = sm_addr base c)
     \<and> (6 \<le> pc t \<longrightarrow> regs t Idx = of_nat (length (f c))) \<and> (pc t = 7 \<longrightarrow> zf t = (length (f c) = 13))
     \<and> (8 \<le> pc t \<longrightarrow> length (f c) \<noteq> 13) \<and> (pc t = 9 \<longrightarrow> m (mgr_word base c (3 + length (f c))) = p)"

definition push_res :: "thread \<Rightarrow> u64 \<Rightarrow> bool" where
  "push_res t r \<longleftrightarrow> pc t = 10 \<and> r = 0 \<or> pc t = 11 \<and> r = 1"

lemmas push_code_simps = try_push_code_def RSEQ_PREP_CS_def log_sizeof_slab_manager_eq instr_defs Let_def

lemma of_nat_len_13: "n \<le> 13 \<Longrightarrow> (of_nat n :: u64) = 13 \<longleftrightarrow> n = 13"
proof -
  assume n: "n \<le> 13"
  have "unat (of_nat n :: u64) = n" using n by (simp only: unat_of_nat) (simp add: take_bit_nat_eq_self)
  then show ?thesis by (auto simp: word_unat_eq_iff)
qed

text \<open>A store above the top of the cache is not part of it.\<close>

lemma caches_rep_above:
  assumes "caches_rep base m f" and "c < NPROCS" and "length (f c) < 13"
  shows "caches_rep base (m(mgr_word base c (3 + length (f c)) := v)) f"
proof -
  have "fc_rep (read_fc (m(mgr_word base c (3 + length (f c)) := v)) base c) (f c)"
    using caches_repD [OF assms(1,2)] assms(2,3) by (auto simp: fc_rep_def read_fc_def mgr_word_eq_iff)
  then show ?thesis using caches_rep_store [OF assms(1,2), of "3 + length (f c)" v "f c"] assms(3) by simp
qed

lemma push_step:
  assumes "push_ann desc base p c t m f" and rep: "caches_rep base m f" and c: "c < NPROCS"
    and x: "exec_instr desc c (try_push_code ! pc t) (t, m) = (t', m')"
  shows "12 - pc t' < 12 - pc t \<and> (caches_rep base m' f \<and> push_ann desc base p c t' m' f
    \<or> caches_rep base m' (snd (push_op p c f)) \<and> push_res t' (fst (push_op p c f)))"
proof -
  note w = top_word [OF rep c]
  have a: "16 + sm_addr base c = mgr_word base c 2" "24 + sm_addr base c + 8 * of_nat n = mgr_word base c (3 + n)" for n
    by (simp_all add: mgr_word_def algebra_simps)
  have p: "pc t < 10" using assms(1) by (simp add: push_ann_def)
  then show ?thesis
  proof (cases rule: nat_cases_10)
    case 9
    then have r: "length (f c) < 13" "regs t Idx = of_nat (length (f c))" "regs t Fc_cache = sm_addr base c" "regs t Ptr = p"
      using assms(1) w(1) by (auto simp: push_ann_def)
    have m': "m' = m(mgr_word base c (3 + length (f c)) := p)" "t' = t\<lparr>pc := 9\<rparr>"
      using 9 x r a(2) [of "length (f c)"] by (auto simp: push_code_simps)
    have "caches_rep base m' f" unfolding m' by (rule caches_rep_above [OF rep c r(1)])
    then show ?thesis using 9 assms(1) m' by (auto simp: push_ann_def)
  next
    case 10
    then have r: "length (f c) < 13" "regs t Fc_cache = sm_addr base c" "m (mgr_word base c (3 + length (f c))) = p"
      using assms(1) w(1) by (auto simp: push_ann_def)
    have m': "m' = m(mgr_word base c 2 := m (mgr_word base c 2) + 1)"
      using 10 x r a(1) by (auto simp: push_code_simps)
    have "read_fc m' base c = (read_fc m base c)\<lparr>ptrs := (ptrs (read_fc m base c))[length (f c) := p], current_idx := current_idx (read_fc m base c) + 1\<rparr>"
      unfolding m' using c r(1,3) by (auto simp: read_fc_def mgr_word_eq_iff nth_list_update intro!: nth_equalityI)
    moreover obtain k where "fc_push p (read_fc m base c) = Inr (0, k)" "fc_rep k (p # f c)"
      using fc_push_room [OF caches_repD [OF rep c] r(1), of p] by blast
    moreover have "unat (current_idx (read_fc m base c)) = length (f c)" using caches_repD [OF rep c] by (simp add: fc_rep_def)
    ultimately have "fc_rep (read_fc m' base c) (p # f c)"
      by (auto simp: fc_push_def Let_def split: if_splits)
    then have "caches_rep base m' (f(c := p # f c))" unfolding m' by (intro caches_rep_store [OF rep c]) simp_all
    then show ?thesis using 10 x r(1) by (auto simp: push_op_def push_res_def push_code_simps)
  next
    case 6
    then show ?thesis using assms(1) rep x w(2) a(1) by (auto simp: push_ann_def push_code_simps)
  next
    case 7
    then show ?thesis using assms(1) rep x w(1) by (auto simp: push_ann_def push_code_simps of_nat_len_13 cache_size_eq)
  next
    case 8
    then show ?thesis using assms(1) rep x by (auto simp: push_ann_def push_res_def push_op_def push_code_simps)
  qed (use assms(1) rep x in \<open>auto simp: push_ann_def push_code_simps sm_addr_def\<close>)
qed

lemma push_resume:
  assumes "push_ann desc base p c t m f"
  shows "push_ann desc base p c' (resume 10 desc t) m' f'"
proof (cases "pc t < 2")
  case True
  then show ?thesis using assms unfolding push_ann_def resume_def by simp
next
  case False
  then have "resume 10 desc t = t\<lparr>pc := 0, rseq_cs := 0\<rparr>" using assms unfolding push_ann_def resume_def by simp
  then show ?thesis using assms unfolding push_ann_def by simp
qed

interpretation pushes: rseq_section try_push_code 10 desc "caches_rep base" "push_op p" "cache_words base" "push_ann desc base p" push_res
  "\<lambda>t. 12 - pc t" for desc base p
proof (unfold_locales, goal_cases)
  case (1 m f g) then show ?case by (rule caches_rep_unique)
next
  case (2 c t m f) then show ?case by (simp add: push_ann_def try_push_code_def RSEQ_PREP_CS_def)
next
  case (3 c t m f t' m') then show ?case by (rule push_step)
next
  case (4 t r c m t' m') then show ?case by (auto simp: push_res_def try_push_code_def RSEQ_PREP_CS_def)
next
  case (5 c t m f m' f')
  have f: "f' c = f c" by (rule caches_rep_cong [OF 5(2-5)])
  have "m' (mgr_word base c (3 + length (f c))) = m (mgr_word base c (3 + length (f c)))" if "length (f c) \<noteq> 13"
    using top_word(1) [OF 5(2,4)] that 5(5) by (simp add: cache_words_def)
  then show ?case using 5(1) unfolding push_ann_def f by auto
next
  case (6 c t m f m' f' c')
  show ?case by (rule push_resume [OF 6(1)])
next
  case (7 t r) then show ?case by (auto simp: push_res_def resume_def)
qed

section \<open>Properties\<close>

lemma try_code_lengths: "length try_pop_code = 10" "length try_push_code = 10"
  by (simp_all add: try_pop_code_def try_push_code_def RSEQ_PREP_CS_def)

text \<open>
  C10: the critical section of \<open>try_pop\<close>, instruction by instruction, under preemption,
  migration and threads of other cores: left alone it ends, and every finished run has taken
  exactly one pointer, the top of the cache of the core the thread was on at that moment,
  and returns it, or returns 0 and has changed nothing when that cache was empty.
\<close>

theorem try_pop_section_atomic:
  assumes "pc t = 0" and "regs t Sm_base = base" and "c < NPROCS" and "caches_rep base m f"
  shows "(\<exists>n t' m'. exec_n desc try_pop_code c n (t, m) = (t', m') \<and> length try_pop_code \<le> pc t')
    \<and> (\<forall>E t' c' m'. (mstep try_pop_code 10 desc (caches_rep base) (cache_words base) E)\<^sup>*\<^sup>* (t, c, m) (t', c', m')
          \<and> length try_pop_code \<le> pc t' \<longrightarrow>
        (\<exists>d f1 g. d < NPROCS \<and> E\<^sup>*\<^sup>* f f1 \<and> regs t' Ret = fst (pop_op d f1)
          \<and> E\<^sup>*\<^sup>* (snd (pop_op d f1)) g \<and> caches_rep base m' g))"
proof -
  have "pop_ann desc base c t m f" using assms(1,2) by (simp add: pop_ann_def)
  from pops.section_correct [OF assms(3,4) this] show ?thesis unfolding pop_res_def by blast
qed

lemma caches_rep_zero: "caches_rep base (\<lambda>_. 0) (\<lambda>_. [])"
  by (simp add: caches_rep_def fc_rep_def read_fc_def)

theorem try_pop_section_atomic_witness:
  "\<exists>n t' m'. exec_n 64 try_pop_code 5 n (\<lparr>pc = 0, regs = (\<lambda>_. 0)(Sm_base := 4096), zf = False, rseq_cs = 0\<rparr>, \<lambda>_. 0) = (t', m')
    \<and> regs t' Ret = 0"
proof -
  let ?t = "\<lparr>pc = 0, regs = (\<lambda>_. 0)(Sm_base := 4096), zf = False, rseq_cs = 0\<rparr>"
  have p: "pc ?t = 0" "regs ?t Sm_base = 4096" "(5 :: u32) < NPROCS" by (simp_all add: layout_consts)
  note th = try_pop_section_atomic [OF p caches_rep_zero, of 64]
  obtain n t' m' where x: "exec_n 64 try_pop_code 5 n (?t, \<lambda>_. 0) = (t', m')" "length try_pop_code \<le> pc t'"
    using conjunct1 [OF th] by blast
  note run = exec_n_run [OF x(1), of 10 "caches_rep 4096" "cache_words 4096" "\<lambda>A B. False"]
  obtain d f where "(\<lambda>A B. False)\<^sup>*\<^sup>* (\<lambda>_. []) f" "regs t' Ret = fst (pop_op d f)"
    using conjunct2 [OF th] run x(2) by blast
  then have "regs t' Ret = 0" by (auto simp: pop_op_def elim: rtranclp.cases)
  then show ?thesis using x(1) by blast
qed

text \<open>
  C11: the critical section of \<open>try_push\<close> in the same setting: left alone it ends, and every
  finished run has put the pointer on top of the cache of the core the thread was on at that
  moment and returns 0 (position 10), or has changed nothing and gone to \<open>no_push\<close>
  (position 11) when that cache was full. A store of an aborted attempt is never visible.
\<close>

theorem try_push_section_atomic:
  assumes "pc t = 0" and "regs t Sm_base = base" and "regs t Ptr = p" and "c < NPROCS" and "caches_rep base m f"
  shows "(\<exists>n t' m'. exec_n desc try_push_code c n (t, m) = (t', m') \<and> length try_push_code \<le> pc t')
    \<and> (\<forall>E t' c' m'. (mstep try_push_code 10 desc (caches_rep base) (cache_words base) E)\<^sup>*\<^sup>* (t, c, m) (t', c', m')
          \<and> length try_push_code \<le> pc t' \<longrightarrow>
        (\<exists>d f1 g. d < NPROCS \<and> E\<^sup>*\<^sup>* f f1 \<and> pc t' = (if length (f1 d) = 13 then 11 else 10)
          \<and> E\<^sup>*\<^sup>* (snd (push_op p d f1)) g \<and> caches_rep base m' g))"
proof -
  have a: "push_ann desc base p c t m f" using assms(1-3) by (simp add: push_ann_def)
  have r: "push_res t' (fst (push_op p d f1)) \<Longrightarrow> pc t' = (if length (f1 d) = 13 then 11 else 10)" for t' d f1
    by (auto simp: push_res_def push_op_def split: if_splits)
  show ?thesis using pushes.section_correct [OF assms(4,5) a] r by blast
qed

theorem try_push_section_atomic_witness:
  "\<exists>n t' m'. exec_n 64 try_push_code 5 n (\<lparr>pc = 0, regs = (\<lambda>_. 0)(Sm_base := 4096, Ptr := 35328), zf = False, rseq_cs = 0\<rparr>, \<lambda>_. 0) = (t', m')
    \<and> pc t' = 10"
proof -
  let ?t = "\<lparr>pc = 0, regs = (\<lambda>_. 0)(Sm_base := 4096, Ptr := 35328), zf = False, rseq_cs = 0\<rparr>"
  have p: "pc ?t = 0" "regs ?t Sm_base = 4096" "regs ?t Ptr = 35328" "(5 :: u32) < NPROCS" by (simp_all add: layout_consts)
  note th = try_push_section_atomic [OF p caches_rep_zero, of 64]
  obtain n t' m' where x: "exec_n 64 try_push_code 5 n (?t, \<lambda>_. 0) = (t', m')" "length try_push_code \<le> pc t'"
    using conjunct1 [OF th] by blast
  note run = exec_n_run [OF x(1), of 10 "caches_rep 4096" "cache_words 4096" "\<lambda>A B. False"]
  obtain d and f :: "u32 \<Rightarrow> u64 list" where "(\<lambda>A B. False)\<^sup>*\<^sup>* (\<lambda>_. []) f" "pc t' = (if length (f d) = 13 then 11 else 10)"
    using conjunct2 [OF th] run x(2) by blast
  then have "pc t' = 10" by (auto elim: rtranclp.cases)
  then show ?thesis using x(1) by blast
qed

end
