(* ===== verification/Rseq_Send.thy ===== *)
theory Rseq_Send
  imports Rseq_Cache
begin

text \<open>
  The critical section of \<open>_send_slab\<close> (\<open>src/allocator/object_allocator.h\<close>), in the three
  variants that \<open>SEND_SLAB_BRANCHES\<close> selects; the sources select 1. The variants are
  equivalent, and without an interruption they do what the list model of \<open>_send_slab\<close> does.
  The section writes twice, and an interruption between the two stores is visible: the last
  property shows the state it leaves.
\<close>

section \<open>The variants\<close>

definition send_slab_code_0 :: "instr list" where
  "send_slab_code_0 = RSEQ_PREP_CS Temp_ptr @
    [Xor Offset Offset,
     Mov_cpu Sm,
     Sal (unat log_sizeof_slab_manager) Sm,
     Add Sm_base Sm,
     Cmp_mem_imm 0 (Addr 0 Sm None),
     Lea (Addr 8 Sm None) Temp_ptr,
     Cmovne Next_reg Offset,
     Cmovne Temp_ptr Sm,
     Cmovne_load (Addr 0 Temp_ptr None) Temp_ptr,
     Store Slab (Addr_off Temp_ptr Offset),
     Store Slab (Addr 0 Sm None)]"

text \<open>The label 6 is position 11.\<close>

definition send_slab_code_1 :: "instr list" where
  "send_slab_code_1 = RSEQ_PREP_CS Temp_ptr @
    [Mov_cpu Sm,
     Sal (unat log_sizeof_slab_manager) Sm,
     Add Sm_base Sm,
     Cmp_mem_imm 0 (Addr 0 Sm None),
     Lea (Addr 8 Sm None) Temp_ptr,
     Jz 11,
     Mov Temp_ptr Sm,
     Load (Addr 0 Temp_ptr None) Temp_ptr,
     Add_imm next_offset Temp_ptr,
     Store Slab (Addr 0 Temp_ptr None),
     Store Slab (Addr 0 Sm None)]"

text \<open>The labels 6 and 7 are the positions 10 and 13.\<close>

definition send_slab_code_2 :: "instr list" where
  "send_slab_code_2 = RSEQ_PREP_CS Temp_ptr @
    [Mov_cpu Sm,
     Sal (unat log_sizeof_slab_manager) Sm,
     Add Sm_base Sm,
     Cmp_mem_imm 0 (Addr 0 Sm None),
     Lea (Addr 8 Sm None) Temp_ptr,
     Jnz 10,
     Store Slab (Addr 0 Temp_ptr None),
     Jmp 13,
     Mov Temp_ptr Sm,
     Load (Addr 0 Temp_ptr None) Temp_ptr,
     Store Slab (Addr next_offset Temp_ptr None),
     Store Slab (Addr 0 Sm None)]"

section \<open>An uninterrupted run\<close>

text \<open>The two stores, with the words 0 and 1 of a manager its head and its tail.\<close>

definition send_effect :: "u64 \<Rightarrow> u32 \<Rightarrow> u64 \<Rightarrow> memory \<Rightarrow> memory" where
  "send_effect base c slab m =
     (if m (mgr_word base c 0) = 0 then m(mgr_word base c 1 := slab, mgr_word base c 0 := slab)
      else m(next_offset + m (mgr_word base c 1) := slab, mgr_word base c 1 := slab))"

lemma exec_n_numeral:
  "exec_n desc code c (numeral k) s =
     (if pc (fst s) < length code then exec_n desc code c (pred_numeral k) (exec_instr desc c (code ! pc (fst s)) s) else s)"
  by (simp add: numeral_eq_Suc)

lemma exec_n_halted: "\<not> pc (fst s) < length code \<Longrightarrow> exec_n desc code c n s = s"
  by (cases n) simp_all

lemma mgr_word_0: "mgr_word base c 0 = push_bit 7 (ucast c) + base" "mgr_word base c (Suc 0) = 8 + (push_bit 7 (ucast c) + base)"
  by (simp_all add: mgr_word_def sm_addr_def log_sizeof_slab_manager_eq)

lemmas send_code_simps = RSEQ_PREP_CS_def log_sizeof_slab_manager_eq instr_defs exec_n_numeral

definition send_args :: "u64 \<Rightarrow> u64 \<Rightarrow> thread \<Rightarrow> bool" where
  "send_args base slab t \<longleftrightarrow> pc t = 0 \<and> regs t Sm_base = base \<and> regs t Slab = slab \<and> regs t Next_reg = next_offset"

lemma send_pass_0:
  "send_args base slab t \<Longrightarrow> \<exists>t'. exec_n desc send_slab_code_0 c 14 (t, m) = (t', send_effect base c slab m) \<and> pc t' = 13"
  by (cases "m (mgr_word base c 0) = 0")
    (simp_all add: send_args_def send_slab_code_0_def send_code_simps send_effect_def mgr_word_0 add.commute)

lemma send_pass_1:
  "send_args base slab t \<Longrightarrow> \<exists>t'. exec_n desc send_slab_code_1 c 14 (t, m) = (t', send_effect base c slab m) \<and> pc t' = 13"
  by (cases "m (mgr_word base c 0) = 0")
    (simp_all add: send_args_def send_slab_code_1_def send_code_simps send_effect_def mgr_word_0 add.commute)

lemma send_pass_2:
  "send_args base slab t \<Longrightarrow> \<exists>t'. exec_n desc send_slab_code_2 c 14 (t, m) = (t', send_effect base c slab m) \<and> pc t' = 14"
  by (cases "m (mgr_word base c 0) = 0")
    (simp_all add: send_args_def send_slab_code_2_def send_code_simps send_effect_def mgr_word_0 add.commute)

text \<open>The list of core \<open>c\<close> and the slabs, in memory.\<close>

definition list_rep :: "u64 \<Rightarrow> u32 \<Rightarrow> memory \<Rightarrow> slab_mem \<Rightarrow> slab_manager \<Rightarrow> bool" where
  "list_rep base c m h sm \<longleftrightarrow> m (mgr_word base c 0) = available_slabs_head sm \<and> m (mgr_word base c 1) = available_slabs_tail sm
     \<and> (\<forall>a s. h a = Some s \<longrightarrow> m (next_offset + a) = next_slab s)"

definition apart :: "u64 \<Rightarrow> u32 \<Rightarrow> slab_mem \<Rightarrow> bool" where
  "apart base c h \<longleftrightarrow> (\<forall>a. h a \<noteq> None \<longrightarrow> next_offset + a \<noteq> mgr_word base c 0 \<and> next_offset + a \<noteq> mgr_word base c 1)"

lemma send_effect_refines:
  assumes rep: "list_rep base c m h sm" and "apart base c h" and c: "c < NPROCS" and send: "send_slab slab h sm = Inr (h', sm')"
  shows "list_rep base c (send_effect base c slab m) h' sm'"
proof -
  have ap: "next_offset + a \<noteq> mgr_word base c 0" "next_offset + a \<noteq> mgr_word base c 1" if "h a = Some s" for a s
    using assms(2) that by (auto simp: apart_def)
  have w: "mgr_word base c 0 \<noteq> mgr_word base c 1" using mgr_word_eq_iff [OF c c, of 0 1 base] by simp
  obtain s where s: "h slab = Some s" using send by (auto simp: send_slab_def split: option.splits)
  show ?thesis
  proof (cases "available_slabs_head sm = 0")
    case True
    then have "h' = h" "sm' = sm\<lparr>available_slabs_tail := slab, available_slabs_head := slab\<rparr>"
      using send s by (auto simp: send_slab_def split: if_splits)
    then show ?thesis using rep True ap w by (auto simp: list_rep_def send_effect_def)
  next
    case False
    then obtain l where l: "h (available_slabs_tail sm) = Some l"
        "h' = h(available_slabs_tail sm \<mapsto> l\<lparr>next_slab := slab\<rparr>)" "sm' = sm\<lparr>available_slabs_tail := slab\<rparr>"
      using send s by (auto simp: send_slab_def set_next_def split: if_splits option.splits)
    have "send_effect base c slab m = m(next_offset + available_slabs_tail sm := slab, mgr_word base c 1 := slab)"
      using rep False by (simp add: list_rep_def send_effect_def)
    then show ?thesis using rep False ap ap [OF l(1)] w l(2,3) by (auto simp: list_rep_def)
  qed
qed

section \<open>An interrupted run\<close>

text \<open>The slabs on the list that starts at \<open>p\<close>, along the \<open>next\<close> words.\<close>

fun next_list :: "memory \<Rightarrow> u64 \<Rightarrow> u64 list \<Rightarrow> bool" where
  "next_list m p [] \<longleftrightarrow> p = 0"
| "next_list m p (x # xs) \<longleftrightarrow> p = x \<and> x \<noteq> 0 \<and> next_list m (m (next_offset + x)) xs"

text \<open>Twelve instructions of the section, up to its first store.\<close>

lemma send_prefix_1:
  assumes "send_args base slab t" and "m (mgr_word base c 0) \<noteq> 0"
  shows "\<exists>t'. exec_n desc send_slab_code_1 c 12 (t, m) = (t', m(next_offset + m (mgr_word base c 1) := slab))
    \<and> pc t' = 12 \<and> rseq_cs t' = desc \<and> send_args base slab (t'\<lparr>pc := 0, rseq_cs := 0\<rparr>)"
  using assms by (simp add: send_args_def send_slab_code_1_def send_code_simps mgr_word_0 add.commute)

section \<open>Properties\<close>

text \<open>
  C13: the three variants of the section of \<open>_send_slab\<close>, run without an interruption, end
  after at most 14 instructions with the same memory, and that memory holds the list and the
  slabs that the list model of \<open>_send_slab\<close> gives.
\<close>

theorem send_slab_sections_refine:
  assumes "send_args base slab t" and "c < NPROCS" and "list_rep base c m h sm" and "apart base c h"
    and "send_slab slab h sm = Inr (h', sm')"
  shows "\<exists>m'. list_rep base c m' h' sm' \<and> (\<forall>code \<in> {send_slab_code_0, send_slab_code_1, send_slab_code_2}.
    \<exists>t'. exec_n desc code c 14 (t, m) = (t', m') \<and> length code \<le> pc t')"
proof -
  have l: "length send_slab_code_0 = 13" "length send_slab_code_1 = 13" "length send_slab_code_2 = 14"
    by (simp_all add: send_slab_code_0_def send_slab_code_1_def send_slab_code_2_def RSEQ_PREP_CS_def)
  have "\<exists>t'. exec_n desc send_slab_code_0 c 14 (t, m) = (t', send_effect base c slab m) \<and> length send_slab_code_0 \<le> pc t'"
    "\<exists>t'. exec_n desc send_slab_code_1 c 14 (t, m) = (t', send_effect base c slab m) \<and> length send_slab_code_1 \<le> pc t'"
    "\<exists>t'. exec_n desc send_slab_code_2 c 14 (t, m) = (t', send_effect base c slab m) \<and> length send_slab_code_2 \<le> pc t'"
    unfolding l using send_pass_0 [OF assms(1), of desc c m] send_pass_1 [OF assms(1), of desc c m] send_pass_2 [OF assms(1), of desc c m]
    by (metis order_refl)+
  then show ?thesis using send_effect_refines [OF assms(3,4,2,5)] by blast
qed

theorem send_slab_sections_refine_witness:
  "\<exists>m'. list_rep 4096 2 m' [34048 \<mapsto> zero_slab] \<lparr>available_slabs_head = 34048, available_slabs_tail = 34048, fc = fc zero_manager\<rparr>"
proof -
  let ?t = "\<lparr>pc = 0, regs = (\<lambda>_. 0)(Sm_base := 4096, Slab := 34048, Next_reg := next_offset), zf = False, rseq_cs = 0\<rparr>"
  have a: "send_args 4096 34048 ?t" by (simp add: send_args_def)
  have r: "list_rep 4096 2 (\<lambda>_. 0) [34048 \<mapsto> zero_slab] zero_manager" by (simp add: list_rep_def zero_manager_def zero_slab_def)
  have p: "apart 4096 2 [34048 \<mapsto> zero_slab]"
    by (simp add: apart_def mgr_word_def sm_addr_def log_sizeof_slab_manager_eq next_offset_def)
  have s: "send_slab 34048 [34048 \<mapsto> zero_slab] zero_manager
      = Inr ([34048 \<mapsto> zero_slab], \<lparr>available_slabs_head = 34048, available_slabs_tail = 34048, fc = fc zero_manager\<rparr>)"
    by (simp add: send_slab_def zero_slab_def zero_manager_def)
  show ?thesis using send_slab_sections_refine [OF a _ r p s] by (auto simp: layout_consts)
qed

text \<open>
  C14: the section of \<open>_send_slab\<close> is not atomic. A thread that is preempted between its two
  stores and continues on another core has linked the slab behind the tail of the first
  core's list and then appends it to the list of the second core: when the section ends the
  slab is on the lists of both cores.
\<close>

theorem send_slab_interrupted:
  assumes "send_args base slab t" and c: "c < NPROCS" "d < NPROCS" "c \<noteq> d"
    and m: "m (mgr_word base c 0) = x" "m (mgr_word base c 1) = x" "m (next_offset + slab) = 0" "m (mgr_word base d 0) = 0"
    and x: "x \<noteq> 0" "slab \<noteq> 0" "x \<noteq> slab"
    and ap: "apart base c [x \<mapsto> zero_slab, slab \<mapsto> zero_slab]" "apart base d [x \<mapsto> zero_slab, slab \<mapsto> zero_slab]"
  shows "\<exists>t' m'. (mstep send_slab_code_1 13 desc (\<lambda>m a. a = m) (\<lambda>_. {}) (\<lambda>a b. a = b))\<^sup>*\<^sup>* (t, c, m) (t', d, m')
    \<and> pc t' = length send_slab_code_1
    \<and> next_list m' (m' (mgr_word base c 0)) [x, slab] \<and> next_list m' (m' (mgr_word base d 0)) [slab]"
proof -
  let ?step = "mstep send_slab_code_1 13 desc (\<lambda>m a. a = m) (\<lambda>_. {}) (\<lambda>a b. a = b)"
  let ?m1 = "m(next_offset + x := slab)" and ?m2 = "send_effect base d slab (m(next_offset + x := slab))"
  have ne: "next_offset + a \<noteq> mgr_word base e k" if "a \<in> {x, slab}" "e \<in> {c, d}" "k \<in> {0, 1}" for a e k
    using ap that by (auto simp: apart_def)
  have w: "mgr_word base c k \<noteq> mgr_word base d l" if "k < 16" "l < 16" for k l using mgr_word_eq_iff [OF c(1,2) that] c(3) by simp
  obtain t1 where t1: "exec_n desc send_slab_code_1 c 12 (t, m) = (t1, ?m1)" "pc t1 = 12" "rseq_cs t1 = desc"
      "send_args base slab (t1\<lparr>pc := 0, rseq_cs := 0\<rparr>)"
    using send_prefix_1 [OF assms(1), of m c desc] m(1,2) x(1) by auto
  obtain t2 where t2: "exec_n desc send_slab_code_1 d 14 (t1\<lparr>pc := 0, rseq_cs := 0\<rparr>, ?m1) = (t2, ?m2)" "pc t2 = 13"
    using send_pass_1 [OF t1(4), of desc d ?m1] by blast
  have "?step\<^sup>*\<^sup>* (t, c, m) (t1, c, ?m1)" by (rule exec_n_run [OF t1(1)])
  moreover have "?step (t1, c, ?m1) (t1\<lparr>pc := 0, rseq_cs := 0\<rparr>, d, ?m1)"
    using mstep.preempt [of "\<lambda>m a. a = m" ?m1 ?m1 ?m1 ?m1 "\<lambda>a b. a = b" d send_slab_code_1 13 desc "\<lambda>_. {}" t1 c] c(2) t1(2,3)
    by (simp add: resume_def)
  moreover have "?step\<^sup>*\<^sup>* (t1\<lparr>pc := 0, rseq_cs := 0\<rparr>, d, ?m1) (t2, d, ?m2)" by (rule exec_n_run [OF t2(1)])
  ultimately have run: "?step\<^sup>*\<^sup>* (t, c, m) (t2, d, ?m2)" by (meson rtranclp.rtrancl_into_rtrancl rtranclp_trans)
  have m2: "?m2 = m(next_offset + x := slab, mgr_word base d 1 := slab, mgr_word base d 0 := slab)"
    using m(4) ne [of x d 0] by (simp add: send_effect_def)
  have "?m2 (mgr_word base c 0) = x" "?m2 (mgr_word base d 0) = slab" "?m2 (next_offset + x) = slab" "?m2 (next_offset + slab) = 0"
    unfolding m2 using m x ne [of x c 0] ne [of x d 0] ne [of x d 1] ne [of slab d 0] ne [of slab d 1] w [of 0 0] w [of 0 1] by simp_all
  then have "next_list ?m2 (?m2 (mgr_word base c 0)) [x, slab]" "next_list ?m2 (?m2 (mgr_word base d 0)) [slab]"
    using x by simp_all
  moreover have "length send_slab_code_1 = 13" by (simp add: send_slab_code_1_def RSEQ_PREP_CS_def)
  ultimately show ?thesis using run t2(2) by (intro exI [of _ t2] exI [of _ ?m2]) simp
qed

theorem send_slab_interrupted_witness:
  "\<exists>t' m'. next_list m' (m' (mgr_word 4096 2 0)) [68096, 34048] \<and> next_list m' (m' (mgr_word 4096 5 0)) [34048]
    \<and> pc (t' :: thread) = length send_slab_code_1"
proof -
  let ?t = "\<lparr>pc = 0, regs = (\<lambda>_. 0)(Sm_base := 4096, Slab := 34048, Next_reg := next_offset), zf = False, rseq_cs = 0\<rparr>"
  let ?m = "(\<lambda>_. 0)(mgr_word 4096 2 0 := 68096, mgr_word 4096 2 1 := 68096)"
  have a: "send_args 4096 34048 ?t" by (simp add: send_args_def)
  have c: "(2 :: u32) < NPROCS" "(5 :: u32) < NPROCS" "(2 :: u32) \<noteq> 5" by (simp_all add: layout_consts)
  note num = mgr_word_def sm_addr_def log_sizeof_slab_manager_eq next_offset_def
  have m: "?m (mgr_word 4096 2 0) = 68096" "?m (mgr_word 4096 2 1) = 68096" "?m (next_offset + 34048) = 0" "?m (mgr_word 4096 5 0) = 0"
    by (simp_all add: num)
  have p: "apart 4096 2 [68096 \<mapsto> zero_slab, 34048 \<mapsto> zero_slab]" "apart 4096 5 [68096 \<mapsto> zero_slab, 34048 \<mapsto> zero_slab]"
    by (simp_all add: apart_def num)
  show ?thesis using send_slab_interrupted [OF a c m _ _ _ p, of 64] by auto
qed

end
