(* ===== verification/Bitmap.thy ===== *)
theory Bitmap
  imports Bits
begin

text \<open>
  The bitmap of the vendored tcmalloc: \<open>Bitops\<close> and \<open>Bitmap<N>\<close> of
  \<open>src/tcmalloc-src/tcmalloc/internal/range_tracker.h\<close>. The words are 64 bits wide; indices
  and lengths, which the asserts keep below \<open>N\<close>, are natural numbers. \<open>ASSERT\<close> and \<open>ASSUME\<close>
  are live. The lemmas relate every operation to the set of marked bits.
\<close>

section \<open>Bit operations\<close>

definition kWordSize :: nat where
  "kWordSize = 64"

definition FindFirstSet :: "u64 \<Rightarrow> nat result" where
  "FindFirstSet w = (if w = 0 then Inl Assert_Failed else Inr (ctz w))"

definition FindLastSet :: "u64 \<Rightarrow> nat result" where
  "FindLastSet w = (if w = 0 then Inl Assert_Failed else Inr (kWordSize - 1 - clz w))"

definition CountSetBits :: "u64 \<Rightarrow> nat" where
  "CountSetBits w = popc w"

section \<open>The bitmap\<close>

type_synonym bitmap = "u64 list"

definition kWords :: "nat \<Rightarrow> nat" where
  "kWords N = (N + kWordSize - 1) div kWordSize"

definition kDeadBits :: "nat \<Rightarrow> nat" where
  "kDeadBits N = kWordSize * kWords N - N"

definition empty_bitmap :: "nat \<Rightarrow> bitmap" where
  "empty_bitmap N = replicate (kWords N) 0"

definition GetBit :: "bitmap \<Rightarrow> nat \<Rightarrow> bool result" where
  "GetBit bits i =
     (let w = i div kWordSize; offset = i mod kWordSize
      in if length bits \<le> w then Inl Out_Of_Bounds else Inr (bits ! w AND push_bit offset 1 \<noteq> 0))"

definition SetBit :: "nat \<Rightarrow> bitmap \<Rightarrow> bitmap result" where
  "SetBit i bits =
     (let w = i div kWordSize; offset = i mod kWordSize
      in if length bits \<le> w then Inl Out_Of_Bounds else Inr (bits[w := bits ! w OR push_bit offset 1]))"

definition ClearBit :: "nat \<Rightarrow> bitmap \<Rightarrow> bitmap result" where
  "ClearBit i bits =
     (let w = i div kWordSize; offset = i mod kWordSize
      in if length bits \<le> w then Inl Out_Of_Bounds else Inr (bits[w := bits ! w AND NOT (push_bit offset 1)]))"

text \<open>The mask of \<open>n\<close> bits from bit \<open>start\<close> on.\<close>

definition word_mask :: "nat \<Rightarrow> nat \<Rightarrow> u64" where
  "word_mask start n = push_bit start (drop_bit (kWordSize - n) (NOT 0))"

text \<open>The difference \<open>to - from\<close> is unsigned: it is a length up to 64 only when \<open>from\<close> is below \<open>to\<close>.\<close>

definition word_range_ok :: "nat \<Rightarrow> nat \<Rightarrow> bool" where
  "word_range_ok start stop \<longleftrightarrow> start < kWordSize \<and> stop \<le> kWordSize \<and> start < stop"

definition CountWordBits :: "bitmap \<Rightarrow> nat \<Rightarrow> nat \<Rightarrow> nat \<Rightarrow> nat result" where
  "CountWordBits bits i start stop =
     (if \<not> word_range_ok start stop then Inl Assert_Failed
      else if length bits \<le> i then Inl Out_Of_Bounds
      else Inr (CountSetBits (bits ! i AND word_mask start (stop - start))))"

definition SetWordBits :: "bool \<Rightarrow> nat \<Rightarrow> nat \<Rightarrow> nat \<Rightarrow> bitmap \<Rightarrow> bitmap result" where
  "SetWordBits v i start stop bits =
     (if \<not> word_range_ok start stop then Inl Assert_Failed
      else if length bits \<le> i then Inl Out_Of_Bounds
      else let msk = word_mask start (stop - start)
           in Inr (bits[i := if v then bits ! i OR msk else bits ! i AND NOT msk]))"

function count_loop :: "bitmap \<Rightarrow> nat \<Rightarrow> nat \<Rightarrow> nat \<Rightarrow> nat result" where
  "count_loop bits w n count =
     (if n > 0
      then let k = min n kWordSize
           in bind_res (CountWordBits bits (w + 1) 0 k) (\<lambda>c. count_loop bits (w + 1) (n - k) (count + c))
      else Inr count)"
  by pat_completeness auto
termination
  by (relation "measure (\<lambda>(bits, w, n, count). n)") (auto simp: kWordSize_def)

definition CountBits :: "nat \<Rightarrow> bitmap \<Rightarrow> nat \<Rightarrow> nat \<Rightarrow> nat result" where
  "CountBits N bits index n =
     (if \<not> index + n \<le> N then Inl Assert_Failed
      else if n = 0 then Inr 0
      else let w = index div kWordSize; offset = index mod kWordSize; k = min (offset + n) kWordSize
           in bind_res (CountWordBits bits w offset k) (\<lambda>c. count_loop bits w (n - (k - offset)) c))"

function set_range_loop :: "bool \<Rightarrow> nat \<Rightarrow> nat \<Rightarrow> bitmap \<Rightarrow> bitmap result" where
  "set_range_loop v w n bits =
     (if n > 0
      then let k = (if n > kWordSize then kWordSize else n)
           in bind_res (SetWordBits v (w + 1) 0 k bits) (\<lambda>bits'. set_range_loop v (w + 1) (n - k) bits')
      else Inr bits)"
  by pat_completeness auto
termination
  by (relation "measure (\<lambda>(v, w, n, bits). n)") (auto simp: kWordSize_def)

definition SetRangeValue :: "bool \<Rightarrow> nat \<Rightarrow> nat \<Rightarrow> nat \<Rightarrow> bitmap \<Rightarrow> bitmap result" where
  "SetRangeValue v N index n bits =
     (if \<not> index + n \<le> N then Inl Assert_Failed
      else let w = index div kWordSize; offset = index mod kWordSize;
               k = (if offset + n > kWordSize then kWordSize else offset + n)
           in bind_res (SetWordBits v w offset k bits) (\<lambda>bits'. set_range_loop v w (n - (k - offset)) bits'))"

definition SetRange :: "nat \<Rightarrow> nat \<Rightarrow> nat \<Rightarrow> bitmap \<Rightarrow> bitmap result" where
  "SetRange N index n bits = SetRangeValue True N index n bits"

definition ClearRange :: "nat \<Rightarrow> nat \<Rightarrow> nat \<Rightarrow> bitmap \<Rightarrow> bitmap result" where
  "ClearRange N index n bits = SetRangeValue False N index n bits"

text \<open>The words as the search sees them, complemented when it looks for a clear bit.\<close>

definition goal_word :: "bool \<Rightarrow> u64 \<Rightarrow> u64" where
  "goal_word goal w = (if goal then w else NOT w)"

function find_loop :: "bool \<Rightarrow> nat \<Rightarrow> bitmap \<Rightarrow> nat \<Rightarrow> u64 \<Rightarrow> nat result" where
  "find_loop goal N bits w here =
     (if here = 0
      then if w + 1 \<ge> kWords N then Inr N
           else if length bits \<le> w + 1 then Inl Out_Of_Bounds
           else find_loop goal N bits (w + 1) (goal_word goal (bits ! (w + 1)))
      else bind_res (FindFirstSet here) (\<lambda>b.
             let ret = b + w * kWordSize in Inr (if kDeadBits N > 0 \<and> ret > N then N else ret)))"
  by pat_completeness auto
termination
  by (relation "measure (\<lambda>(goal, N, bits, w, here). kWords N - w)") auto

definition FindValue :: "bool \<Rightarrow> nat \<Rightarrow> bitmap \<Rightarrow> nat \<Rightarrow> nat result" where
  "FindValue goal N bits index =
     (let offset = index mod kWordSize; w = index div kWordSize
      in if \<not> w < kWords N then Inl Assert_Failed
         else if length bits \<le> w then Inl Out_Of_Bounds
         else find_loop goal N bits w (goal_word goal (bits ! w) AND push_bit offset (NOT 0)))"

definition FindSet :: "nat \<Rightarrow> bitmap \<Rightarrow> nat \<Rightarrow> nat result" where
  "FindSet N bits index = FindValue True N bits index"

definition FindClear :: "nat \<Rightarrow> bitmap \<Rightarrow> nat \<Rightarrow> nat result" where
  "FindClear N bits index = FindValue False N bits index"

fun find_back_loop :: "bool \<Rightarrow> bitmap \<Rightarrow> nat \<Rightarrow> u64 \<Rightarrow> int result" where
  "find_back_loop goal bits w here =
     (if here = 0
      then case w of 0 \<Rightarrow> Inr (-1) | Suc w' \<Rightarrow> find_back_loop goal bits w' (goal_word goal (bits ! w'))
      else bind_res (FindLastSet here) (\<lambda>b. Inr (int (b + w * kWordSize))))"

definition FindValueBackwards :: "bool \<Rightarrow> bitmap \<Rightarrow> nat \<Rightarrow> int result" where
  "FindValueBackwards goal bits index =
     (let offset = index mod kWordSize; w = index div kWordSize
      in if length bits \<le> w then Inl Out_Of_Bounds
         else find_back_loop goal bits w (goal_word goal (bits ! w) AND (push_bit offset 2 - 1)))"

definition FindSetBackwards :: "bitmap \<Rightarrow> nat \<Rightarrow> int result" where
  "FindSetBackwards bits index = FindValueBackwards True bits index"

definition FindClearBackwards :: "bitmap \<Rightarrow> nat \<Rightarrow> int result" where
  "FindClearBackwards bits index = FindValueBackwards False bits index"

definition NextFreeRange :: "nat \<Rightarrow> bitmap \<Rightarrow> nat \<Rightarrow> (nat \<times> nat) option result" where
  "NextFreeRange N bits start =
     (if start \<ge> N then Inr None
      else bind_res (FindClear N bits start) (\<lambda>i.
             if i = N then Inr None
             else bind_res (FindSet N bits i) (\<lambda>j. Inr (Some (i, j - i)))))"

definition ClearBitmap :: "bitmap \<Rightarrow> bitmap" where
  "ClearBitmap bits = map (\<lambda>_. 0) bits"

declare count_loop.simps [simp del] set_range_loop.simps [simp del] find_loop.simps [simp del] find_back_loop.simps [simp del]

section \<open>The marked bits\<close>

definition marked :: "bitmap \<Rightarrow> nat \<Rightarrow> bool" where
  "marked bits i \<longleftrightarrow> bit (bits ! (i div 64)) (i mod 64)"

definition bitmap_ok :: "nat \<Rightarrow> bitmap \<Rightarrow> bool" where
  "bitmap_ok N bits \<longleftrightarrow> length bits = kWords N"

lemma kWords_bound: "N \<le> 64 * kWords N" "64 * kWords N < N + 64"
proof -
  have "N + 63 < 64 + 64 * kWords N" unfolding kWords_def kWordSize_def using dividend_less_times_div [of 64 "N + 63"] by simp
  then show "N \<le> 64 * kWords N" by simp
  have "64 * kWords N \<le> N + 63" unfolding kWords_def kWordSize_def using times_div_less_eq_dividend [of 64 "N + 63"] by simp
  then show "64 * kWords N < N + 64" by simp
qed

lemma div_less_kWords: "i < N \<Longrightarrow> i div 64 < kWords N"
  using kWords_bound(1) [of N] by (simp add: less_mult_imp_div_less)

lemma bit_word_mask: "0 < n \<Longrightarrow> n \<le> 64 \<Longrightarrow> bit (word_mask start n) k \<longleftrightarrow> k < 64 \<and> start \<le> k \<and> k < start + n"
  by (auto simp: word_mask_def kWordSize_def bit_push_bit_iff bit_drop_bit_eq bit_minus_1_iff bit_mask_iff)

lemma word_position:
  fixes i j start stop :: nat
  assumes "stop \<le> 64"
  shows "64 * i + start \<le> j \<and> j < 64 * i + stop \<longleftrightarrow> j div 64 = i \<and> start \<le> j mod 64 \<and> j mod 64 < stop"
proof -
  have j: "j = 64 * (j div 64) + j mod 64" "j mod 64 < 64" by simp_all
  show ?thesis
  proof
    assume a: "64 * i + start \<le> j \<and> j < 64 * i + stop"
    then have "j div 64 = i" using assms by (intro div_nat_eqI) simp_all
    then show "j div 64 = i \<and> start \<le> j mod 64 \<and> j mod 64 < stop" using a j by linarith
  next
    assume "j div 64 = i \<and> start \<le> j mod 64 \<and> j mod 64 < stop"
    then show "64 * i + start \<le> j \<and> j < 64 * i + stop" using j by linarith
  qed
qed

lemma set_word_bits:
  assumes "start < stop" and "stop \<le> 64" and "i < length bits"
  shows "\<exists>bits'. SetWordBits v i start stop bits = Inr bits' \<and> length bits' = length bits
    \<and> (\<forall>j < 64 * length bits. marked bits' j = (if 64 * i + start \<le> j \<and> j < 64 * i + stop then v else marked bits j))"
proof -
  let ?m = "word_mask start (stop - start)"
  let ?b = "bits[i := if v then bits ! i OR ?m else bits ! i AND NOT ?m]"
  have "marked ?b j = (if 64 * i + start \<le> j \<and> j < 64 * i + stop then v else marked bits j)" if j: "j < 64 * length bits" for j
  proof -
    have jw: "j div 64 < length bits" using j by (simp add: less_mult_imp_div_less mult.commute)
    note r = word_position [OF assms(2), of i start j]
    show ?thesis
      using jw assms by (auto simp: r marked_def nth_list_update bit_word_mask bit_or_iff bit_and_iff bit_not_iff)
  qed
  then show ?thesis using assms by (simp add: SetWordBits_def word_range_ok_def kWordSize_def Let_def)
qed

lemma set_range_loop_ok:
  assumes "64 * (w + 1) + n \<le> 64 * length bits"
  shows "\<exists>bits'. set_range_loop v w n bits = Inr bits' \<and> length bits' = length bits
    \<and> (\<forall>j < 64 * length bits. marked bits' j = (if 64 * (w + 1) \<le> j \<and> j < 64 * (w + 1) + n then v else marked bits j))"
  using assms
proof (induction v w n bits rule: set_range_loop.induct)
  case (1 v w n bits)
  show ?case
  proof (cases "n = 0")
    case True
    then show ?thesis by (subst set_range_loop.simps) auto
  next
    case False
    define k where "k = (if n > kWordSize then kWordSize else n)"
    have k: "0 < k" "k \<le> 64" "k \<le> n" "k = 64 \<or> k = n" using False by (auto simp: k_def kWordSize_def)
    have "64 * (w + 1) < 64 * length bits" using 1(2) False by linarith
    then have "w + 1 < length bits" by simp
    then obtain b1 where b1: "SetWordBits v (w + 1) 0 k bits = Inr b1" "length b1 = length bits"
        "\<forall>j < 64 * length bits. marked b1 j = (if 64 * (w + 1) \<le> j \<and> j < 64 * (w + 1) + k then v else marked bits j)"
      using set_word_bits [of 0 k "w + 1" bits v] k by auto
    have "64 * (w + 1 + 1) \<le> 64 * length bits" using \<open>w + 1 < length bits\<close> by (intro mult_le_mono2) simp
    then have len: "64 * (w + 1 + 1) + (n - k) \<le> 64 * length b1" using 1(2) k b1(2) by auto
    obtain b2 where b2: "set_range_loop v (w + 1) (n - k) b1 = Inr b2" "length b2 = length b1"
        "\<forall>j < 64 * length b1. marked b2 j = (if 64 * (w + 1 + 1) \<le> j \<and> j < 64 * (w + 1 + 1) + (n - k) then v else marked b1 j)"
      using 1(1) [of k b1, OF _ k_def len] False by blast
    have "set_range_loop v w n bits = Inr b2"
      using False b1(1) b2(1) by (subst set_range_loop.simps) (simp add: k_def [symmetric] Let_def)
    moreover have m: "(if 64 * (w + 1 + 1) \<le> j \<and> j < 64 * (w + 1 + 1) + (n - k) then v
        else if 64 * (w + 1) \<le> j \<and> j < 64 * (w + 1) + k then v else x)
      = (if 64 * (w + 1) \<le> j \<and> j < 64 * (w + 1) + n then v else x)" for j x using k by auto
    moreover have "marked b2 j = (if 64 * (w + 1) \<le> j \<and> j < 64 * (w + 1) + n then v else marked bits j)" if "j < 64 * length bits" for j
      using b1(2,3) b2(3) that m [of j "marked bits j"] by (simp only:)
    ultimately show ?thesis using b1(2) b2(2) by (intro exI [of _ b2]) simp
  qed
qed

lemma set_range_value:
  assumes "bitmap_ok N bits" and "0 < n" and "index + n \<le> N"
  shows "\<exists>bits'. SetRangeValue v N index n bits = Inr bits' \<and> bitmap_ok N bits'
    \<and> (\<forall>j < 64 * kWords N. marked bits' j = (if index \<le> j \<and> j < index + n then v else marked bits j))"
proof -
  define w offset k where "w = index div 64" and "offset = index mod 64" and "k = (if offset + n > 64 then 64 else offset + n)"
  have idx: "index = 64 * w + offset" "offset < 64" by (simp_all add: w_def offset_def)
  have len: "length bits = kWords N" using assms(1) by (simp add: bitmap_ok_def)
  have w: "w < length bits" using div_less_kWords [of index N] assms(2,3) len by (simp add: w_def)
  have k: "offset < k" "k \<le> 64" "k = 64 \<or> k = offset + n" "k - offset \<le> n" using idx(2) assms(2) by (auto simp: k_def)
  obtain b1 where b1: "SetWordBits v w offset k bits = Inr b1" "length b1 = length bits"
      "\<forall>j < 64 * length bits. marked b1 j = (if 64 * w + offset \<le> j \<and> j < 64 * w + k then v else marked bits j)"
    using set_word_bits [OF k(1,2) w, of v] by blast
  have "64 * (w + 1) \<le> 64 * length b1" using w b1(2) by (intro mult_le_mono2) simp
  then have "64 * (w + 1) + (n - (k - offset)) \<le> 64 * length b1"
    using k idx assms(3) kWords_bound(1) [of N] len b1(2) by auto
  then obtain b2 where b2: "set_range_loop v w (n - (k - offset)) b1 = Inr b2" "length b2 = length b1"
      "\<forall>j < 64 * length b1. marked b2 j = (if 64 * (w + 1) \<le> j \<and> j < 64 * (w + 1) + (n - (k - offset)) then v else marked b1 j)"
    using set_range_loop_ok by blast
  have "SetRangeValue v N index n bits = Inr b2"
    unfolding SetRangeValue_def kWordSize_def Let_def w_def [symmetric] offset_def [symmetric] k_def [symmetric]
    using assms(3) b1(1) b2(1) by simp
  moreover have m: "(if 64 * (w + 1) \<le> j \<and> j < 64 * (w + 1) + (n - (k - offset)) then v
      else if 64 * w + offset \<le> j \<and> j < 64 * w + k then v else x) = (if index \<le> j \<and> j < index + n then v else x)" for j x
    using k idx by auto
  moreover have "marked b2 j = (if index \<le> j \<and> j < index + n then v else marked bits j)" if "j < 64 * kWords N" for j
    using b1(2,3) b2(3) len that m [of j "marked bits j"] by (simp only:)
  ultimately show ?thesis using b1(2) b2(2) len by (intro exI [of _ b2]) (simp add: bitmap_ok_def)
qed

section \<open>Searches\<close>

text \<open>\<open>r\<close> is the first index from \<open>i\<close> on where \<open>g\<close> holds, or \<open>N\<close>.\<close>

definition first_at :: "(nat \<Rightarrow> bool) \<Rightarrow> nat \<Rightarrow> nat \<Rightarrow> nat \<Rightarrow> bool" where
  "first_at g N i r \<longleftrightarrow> i \<le> r \<and> r \<le> N \<and> (\<forall>j. i \<le> j \<and> j < r \<longrightarrow> \<not> g j) \<and> (r < N \<longrightarrow> g r)"

text \<open>\<open>r\<close> is the last index up to \<open>i\<close> where \<open>g\<close> holds, or \<open>-1\<close>.\<close>

definition last_at :: "(nat \<Rightarrow> bool) \<Rightarrow> nat \<Rightarrow> int \<Rightarrow> bool" where
  "last_at g i r \<longleftrightarrow> -1 \<le> r \<and> r \<le> int i \<and> (\<forall>j. r < int j \<and> j \<le> i \<longrightarrow> \<not> g j) \<and> (0 \<le> r \<longrightarrow> g (nat r))"

lemma bit_goal_word: "k < 64 \<Longrightarrow> bit (goal_word goal w) k \<longleftrightarrow> bit w k = goal"
  by (simp add: goal_word_def bit_not_iff)

lemma marked_word: "k < 64 \<Longrightarrow> marked bits (64 * w + k) = bit (bits ! w) k"
  by (simp add: marked_def)

lemma word_offset: "64 * w \<le> j \<Longrightarrow> j < 64 * (w + 1) \<Longrightarrow> \<exists>k < 64. j = 64 * w + k" for j w :: nat
  by (intro exI [of _ "j - 64 * w"]) auto

text \<open>The bits of \<open>here\<close> are the hits of word \<open>w\<close> at or behind index \<open>i\<close>.\<close>

definition hits :: "bool \<Rightarrow> bitmap \<Rightarrow> nat \<Rightarrow> nat \<Rightarrow> u64 \<Rightarrow> bool" where
  "hits goal bits i w here \<longleftrightarrow> (\<forall>k < 64. bit here k \<longleftrightarrow> i \<le> 64 * w + k \<and> marked bits (64 * w + k) = goal)
     \<and> (\<forall>j. i \<le> j \<and> j < 64 * w \<longrightarrow> marked bits j \<noteq> goal)"

lemma hits_zero: "hits goal bits i w 0 \<Longrightarrow> i \<le> j \<Longrightarrow> j < 64 * (w + 1) \<Longrightarrow> marked bits j \<noteq> goal"
  using word_offset [of w j] by (cases "j < 64 * w") (auto simp: hits_def not_less)

lemma hits_next:
  assumes "hits goal bits i w 0" and "i \<le> 64 * (w + 1)"
  shows "hits goal bits i (w + 1) (goal_word goal (bits ! (w + 1)))"
  unfolding hits_def using hits_zero [OF assms(1)] assms(2) by (auto simp: bit_goal_word marked_word [of _ bits "w + 1", simplified])

lemma hits_first:
  assumes "hits goal bits i w here" and "here \<noteq> 0"
  shows "i \<le> 64 * w + ctz here" "marked bits (64 * w + ctz here) = goal" "ctz here < 64"
    "\<And>j. i \<le> j \<Longrightarrow> j < 64 * w + ctz here \<Longrightarrow> marked bits j \<noteq> goal"
proof -
  have k: "bit here (ctz here)" "ctz here < 64" "\<And>l. bit here l \<Longrightarrow> ctz here \<le> l"
    using ctz_props [of here] assms(2) ctz_le [of here] by auto
  then show "i \<le> 64 * w + ctz here" "marked bits (64 * w + ctz here) = goal" "ctz here < 64"
    using assms(1) by (auto simp: hits_def)
  show "marked bits j \<noteq> goal" if j: "i \<le> j" "j < 64 * w + ctz here" for j
  proof (cases "j < 64 * w")
    case False
    then obtain l where l: "l < 64" "j = 64 * w + l" using word_offset [of w j] j(2) k(2) by auto
    then have "\<not> bit here l" using k(3) [of l] j(2) by auto
    then show ?thesis using assms(1) l j(1) by (auto simp: hits_def)
  qed (use assms(1) j in \<open>auto simp: hits_def\<close>)
qed

lemma find_loop_ok:
  assumes "length bits = kWords N" and "w < kWords N" and "i \<le> N" and "i \<le> 64 * (w + 1)" and "hits goal bits i w here"
  shows "\<exists>r. find_loop goal N bits w here = Inr r \<and> first_at (\<lambda>j. marked bits j = goal) N i r"
  using assms
proof (induction goal N bits w here rule: find_loop.induct)
  case (1 goal N bits w here)
  show ?case
  proof (cases "here = 0")
    case True
    note none = hits_zero [OF 1(6) [unfolded True]]
    show ?thesis
    proof (cases "kWords N \<le> w + 1")
      case last: True
      have "64 * kWords N \<le> 64 * (w + 1)" using last by (rule mult_le_mono2)
      then have "N \<le> 64 * (w + 1)" using kWords_bound(1) [of N] by linarith
      then have "first_at (\<lambda>j. marked bits j = goal) N i N" using none 1(4) by (auto simp: first_at_def)
      then show ?thesis using True last by (subst find_loop.simps) simp
    next
      case False
      have "find_loop goal N bits w here = find_loop goal N bits (w + 1) (goal_word goal (bits ! (w + 1)))"
        using True False 1(2) by (subst find_loop.simps) simp
      then show ?thesis
        using 1(1) [OF True False] hits_next [OF 1(6) [unfolded True] 1(5)] 1(2,4,5) False by simp
    qed
  next
    case False
    let ?r = "64 * w + ctz here"
    note h = hits_first [OF 1(6) False]
    have "find_loop goal N bits w here = Inr (if kDeadBits N > 0 \<and> ?r > N then N else ?r)"
      using False by (subst find_loop.simps) (simp add: FindFirstSet_def kWordSize_def Let_def algebra_simps)
    moreover have "first_at (\<lambda>j. marked bits j = goal) N i (if kDeadBits N > 0 \<and> ?r > N then N else ?r)"
    proof -
      have "64 * (w + 1) \<le> 64 * kWords N" using 1(3) by (intro mult_le_mono2) simp
      then have "kDeadBits N = 0 \<Longrightarrow> ?r < N" using h(3) by (simp add: kDeadBits_def kWordSize_def)
      then show ?thesis using h(1,2,4) 1(4) by (auto simp: first_at_def)
    qed
    ultimately show ?thesis by blast
  qed
qed

lemma find_value:
  assumes "bitmap_ok N bits" and "i < N"
  shows "\<exists>r. FindValue goal N bits i = Inr r \<and> first_at (\<lambda>j. marked bits j = goal) N i r"
proof -
  let ?w = "i div 64" and ?h = "goal_word goal (bits ! (i div 64)) AND push_bit (i mod 64) (NOT 0)"
  have w: "?w < kWords N" by (rule div_less_kWords [OF assms(2)])
  have i: "i = 64 * ?w + i mod 64" "i mod 64 < 64" by simp_all
  have "hits goal bits i ?w ?h"
    unfolding hits_def
  proof (intro conjI allI impI)
    fix k :: nat assume k: "k < 64"
    have "i \<le> 64 * ?w + k \<longleftrightarrow> i mod 64 \<le> k" using i(1) by linarith
    then show "bit ?h k \<longleftrightarrow> i \<le> 64 * ?w + k \<and> marked bits (64 * ?w + k) = goal"
      using k by (auto simp: bit_and_iff bit_goal_word marked_word bit_push_bit_iff bit_minus_1_iff bit_not_iff bit_mask_iff)
  next
    fix j assume "i \<le> j \<and> j < 64 * ?w"
    then show "marked bits j \<noteq> goal" using i(1) by linarith
  qed
  then show ?thesis
    using find_loop_ok [of bits N ?w i goal ?h] assms w i
    by (simp add: FindValue_def bitmap_ok_def kWordSize_def Let_def)
qed

text \<open>The same backwards: \<open>here\<close> has the hits of word \<open>w\<close> up to index \<open>i\<close>.\<close>

definition back_hits :: "bool \<Rightarrow> bitmap \<Rightarrow> nat \<Rightarrow> nat \<Rightarrow> u64 \<Rightarrow> bool" where
  "back_hits goal bits i w here \<longleftrightarrow> (\<forall>k < 64. bit here k \<longleftrightarrow> 64 * w + k \<le> i \<and> marked bits (64 * w + k) = goal)
     \<and> (\<forall>j. 64 * (w + 1) \<le> j \<and> j \<le> i \<longrightarrow> marked bits j \<noteq> goal)"

lemma back_hits_zero: "back_hits goal bits i w 0 \<Longrightarrow> j \<le> i \<Longrightarrow> 64 * w \<le> j \<Longrightarrow> marked bits j \<noteq> goal"
  using word_offset [of w j] by (cases "j < 64 * (w + 1)") (auto simp: back_hits_def not_less)

lemma back_hits_prev:
  assumes "back_hits goal bits i (Suc w) 0" and "64 * Suc w \<le> i"
  shows "back_hits goal bits i w (goal_word goal (bits ! w))"
  unfolding back_hits_def using back_hits_zero [OF assms(1)] assms(2) by (auto simp: bit_goal_word marked_word)

lemma last_atI: "p \<le> i \<Longrightarrow> g p \<Longrightarrow> (\<And>j. p < j \<Longrightarrow> j \<le> i \<Longrightarrow> \<not> g j) \<Longrightarrow> last_at g i (int p)"
  by (auto simp: last_at_def)

lemma back_hits_last:
  assumes "back_hits goal bits i w here" and "here \<noteq> 0"
  shows "find_back_loop goal bits w here = Inr (int (64 * w + (63 - clz here)))"
    and "last_at (\<lambda>j. marked bits j = goal) i (int (64 * w + (63 - clz here)))"
proof -
  let ?k = "63 - clz here"
  have k: "bit here ?k" "?k < 64" "\<And>l. ?k < l \<Longrightarrow> \<not> bit here l" using clz_props [OF assms(2)] by auto
  show "find_back_loop goal bits w here = Inr (int (64 * w + ?k))"
    using assms(2) by (subst find_back_loop.simps) (simp add: FindLastSet_def kWordSize_def)
  have hit: "64 * w + ?k \<le> i" "marked bits (64 * w + ?k) = goal" using assms(1) k(1,2) by (auto simp: back_hits_def)
  have "marked bits j \<noteq> goal" if j: "64 * w + ?k < j" "j \<le> i" for j
  proof (cases "j < 64 * (w + 1)")
    case True
    then obtain l where l: "l < 64" "j = 64 * w + l" using word_offset [of w j] j(1) by auto
    then have "\<not> bit here l" using k(3) [of l] j(1) by auto
    then show ?thesis using assms(1) l j(2) by (auto simp: back_hits_def)
  qed (use assms(1) j(2) in \<open>auto simp: back_hits_def not_less\<close>)
  then show "last_at (\<lambda>j. marked bits j = goal) i (int (64 * w + ?k))" using hit by (intro last_atI) auto
qed

lemma find_back_loop_ok:
  assumes "64 * w \<le> i" and "back_hits goal bits i w here"
  shows "\<exists>r. find_back_loop goal bits w here = Inr r \<and> last_at (\<lambda>j. marked bits j = goal) i r"
  using assms
proof (induction w arbitrary: here)
  case 0
  show ?case
  proof (cases "here = 0")
    case True
    then have "last_at (\<lambda>j. marked bits j = goal) i (-1)"
      using back_hits_zero [OF 0(2) [unfolded True]] by (auto simp: last_at_def)
    then show ?thesis using True by (subst find_back_loop.simps) simp
  qed (use back_hits_last [OF 0(2)] in blast)
next
  case (Suc w)
  show ?case
  proof (cases "here = 0")
    case True
    have "find_back_loop goal bits (Suc w) here = find_back_loop goal bits w (goal_word goal (bits ! w))"
      using True by (subst find_back_loop.simps) simp
    then show ?thesis using Suc.IH [OF _ back_hits_prev [OF Suc.prems(2) [unfolded True] Suc.prems(1)]] Suc.prems(1) by simp
  qed (use back_hits_last [OF Suc.prems(2)] in blast)
qed

lemma find_value_backwards:
  assumes "bitmap_ok N bits" and "i < N"
  shows "\<exists>r. FindValueBackwards goal bits i = Inr r \<and> last_at (\<lambda>j. marked bits j = goal) i r"
proof -
  let ?w = "i div 64" and ?h = "goal_word goal (bits ! (i div 64)) AND (push_bit (i mod 64) 2 - 1)"
  have w: "?w < kWords N" by (rule div_less_kWords [OF assms(2)])
  have i: "i = 64 * ?w + i mod 64" "i mod 64 < 64" by simp_all
  have m: "bit (push_bit (i mod 64) 2 - 1 :: u64) k \<longleftrightarrow> k < 64 \<and> k \<le> i mod 64" for k
  proof -
    have "(push_bit (i mod 64) 2 - 1 :: u64) = mask (Suc (i mod 64))" by (simp add: push_bit_eq_mult mask_eq_exp_minus_1)
    then show ?thesis by (auto simp: bit_mask_iff)
  qed
  have "back_hits goal bits i ?w ?h"
    unfolding back_hits_def
  proof (intro conjI allI impI)
    fix k :: nat assume k: "k < 64"
    have "64 * ?w + k \<le> i \<longleftrightarrow> k \<le> i mod 64" using i(1) by linarith
    then show "bit ?h k \<longleftrightarrow> 64 * ?w + k \<le> i \<and> marked bits (64 * ?w + k) = goal"
      using k by (auto simp: bit_and_iff bit_goal_word marked_word m)
  next
    fix j assume "64 * (?w + 1) \<le> j \<and> j \<le> i"
    moreover have "i < 64 + 64 * ?w" by (rule dividend_less_times_div) simp
    ultimately show "marked bits j \<noteq> goal" by simp
  qed
  then show ?thesis
    using find_back_loop_ok [of ?w i goal bits ?h] assms w i
    by (simp add: FindValueBackwards_def bitmap_ok_def kWordSize_def Let_def)
qed

section \<open>Counting\<close>

lemma popc_masked:
  assumes "start < stop" and "stop \<le> 64"
  shows "popc (x AND word_mask start (stop - start) :: u64) = card {k. start \<le> k \<and> k < stop \<and> bit x k}"
proof -
  have "popc y = card {k. bit y k}" for y :: u64
  proof -
    have "popc y = card (set (filter (bit y) [0..<64]))" unfolding popc_def by (subst distinct_card) simp_all
    also have "set (filter (bit y) [0..<64]) = {k. bit y k}" using bit_imp_le_length [of y] by auto
    finally show ?thesis .
  qed
  moreover have "bit (x AND word_mask start (stop - start)) k \<longleftrightarrow> start \<le> k \<and> k < stop \<and> bit x k" for k
    using assms by (auto simp: bit_and_iff bit_word_mask)
  ultimately show ?thesis by simp
qed

lemma count_word_bits:
  assumes "start < stop" and "stop \<le> 64" and "i < length bits"
  shows "CountWordBits bits i start stop = Inr (card {j. 64 * i + start \<le> j \<and> j < 64 * i + stop \<and> marked bits j})"
proof -
  have "{j. 64 * i + start \<le> j \<and> j < 64 * i + stop \<and> marked bits j}
      = (\<lambda>k. 64 * i + k) ` {k. start \<le> k \<and> k < stop \<and> bit (bits ! i) k}"
  proof (intro set_eqI iffI)
    fix j assume j: "j \<in> {j. 64 * i + start \<le> j \<and> j < 64 * i + stop \<and> marked bits j}"
    then obtain k where "k < 64" "j = 64 * i + k" using word_offset [of i j] assms(2) by auto
    then show "j \<in> (\<lambda>k. 64 * i + k) ` {k. start \<le> k \<and> k < stop \<and> bit (bits ! i) k}"
      using j by (auto simp: marked_word)
  qed (use assms(2) in \<open>auto simp: marked_word\<close>)
  then have "card {j. 64 * i + start \<le> j \<and> j < 64 * i + stop \<and> marked bits j} = card {k. start \<le> k \<and> k < stop \<and> bit (bits ! i) k}"
    by (simp add: card_image inj_on_def)
  then show ?thesis using assms by (simp add: CountWordBits_def word_range_ok_def kWordSize_def CountSetBits_def popc_masked)
qed

lemma card_split:
  assumes "a \<le> b" and "b \<le> c"
  shows "card {j :: nat. a \<le> j \<and> j < b \<and> P j} + card {j. b \<le> j \<and> j < c \<and> P j} = card {j. a \<le> j \<and> j < c \<and> P j}"
proof -
  have "{j. a \<le> j \<and> j < c \<and> P j} = {j. a \<le> j \<and> j < b \<and> P j} \<union> {j. b \<le> j \<and> j < c \<and> P j}" using assms by auto
  then show ?thesis by (simp add: card_Un_disjoint disjoint_iff)
qed

lemma count_loop_ok:
  assumes "64 * (w + 1) + n \<le> 64 * length bits"
  shows "count_loop bits w n count = Inr (count + card {j. 64 * (w + 1) \<le> j \<and> j < 64 * (w + 1) + n \<and> marked bits j})"
  using assms
proof (induction bits w n count rule: count_loop.induct)
  case (1 bits w n count)
  show ?case
  proof (cases "n = 0")
    case True
    then show ?thesis by (subst count_loop.simps) auto
  next
    case False
    define k where "k = min n kWordSize"
    have k: "0 < k" "k \<le> 64" "k \<le> n" "k = 64 \<or> k = n" using False by (auto simp: k_def kWordSize_def)
    have "64 * (w + 1) < 64 * length bits" using 1(2) False by linarith
    then have w: "w + 1 < length bits" by simp
    then have "64 * (w + 1 + 1) \<le> 64 * length bits" by (intro mult_le_mono2) simp
    then have len: "64 * (w + 1 + 1) + (n - k) \<le> 64 * length bits" using 1(2) k by auto
    have c: "CountWordBits bits (w + 1) 0 k = Inr (card {j. 64 * (w + 1) \<le> j \<and> j < 64 * (w + 1) + k \<and> marked bits j})"
      using count_word_bits [OF k(1,2) w] by simp
    have "count_loop bits w n count = count_loop bits (w + 1) (n - k) (count + card {j. 64 * (w + 1) \<le> j \<and> j < 64 * (w + 1) + k \<and> marked bits j})"
      using False c by (subst count_loop.simps) (simp only: k_def [symmetric] Let_def bind_res.simps neq0_conv if_True)
    also have "\<dots> = Inr (count + card {j. 64 * (w + 1) \<le> j \<and> j < 64 * (w + 1) + k \<and> marked bits j}
        + card {j. 64 * (w + 1 + 1) \<le> j \<and> j < 64 * (w + 1 + 1) + (n - k) \<and> marked bits j})"
      using False len by (intro 1(1) [OF _ k_def]) simp_all
    also have "{j. 64 * (w + 1 + 1) \<le> j \<and> j < 64 * (w + 1 + 1) + (n - k) \<and> marked bits j}
        = {j. 64 * (w + 1) + k \<le> j \<and> j < 64 * (w + 1) + n \<and> marked bits j}" using k by auto
    finally show ?thesis using card_split [of "64 * (w + 1)" "64 * (w + 1) + k" "64 * (w + 1) + n" "marked bits"] k(3) by (simp add: add.assoc)
  qed
qed

lemma count_bits:
  assumes "bitmap_ok N bits" and "index + n \<le> N"
  shows "CountBits N bits index n = Inr (card {j. index \<le> j \<and> j < index + n \<and> marked bits j})"
proof (cases "n = 0")
  case False
  define w offset k where "w = index div 64" and "offset = index mod 64" and "k = min (offset + n) 64"
  have idx: "index = 64 * w + offset" "offset < 64" by (simp_all add: w_def offset_def)
  have len: "length bits = kWords N" using assms(1) by (simp add: bitmap_ok_def)
  have w: "w < length bits" using div_less_kWords [of index N] assms(2) False len by (simp add: w_def)
  have k: "offset < k" "k \<le> 64" "k = 64 \<or> k = offset + n" "k - offset \<le> n" using idx(2) False by (auto simp: k_def)
  have "64 * (w + 1) \<le> 64 * length bits" using w by (intro mult_le_mono2) simp
  then have l: "64 * (w + 1) + (n - (k - offset)) \<le> 64 * length bits"
    using k idx assms(2) kWords_bound(1) [of N] len by auto
  have "CountBits N bits index n = count_loop bits w (n - (k - offset)) (card {j. index \<le> j \<and> j < 64 * w + k \<and> marked bits j})"
    unfolding CountBits_def kWordSize_def Let_def w_def [symmetric] offset_def [symmetric] k_def [symmetric]
    using False assms(2) count_word_bits [OF k(1,2) w] idx(1) by simp
  also have "\<dots> = Inr (card {j. index \<le> j \<and> j < 64 * w + k \<and> marked bits j}
      + card {j. 64 * (w + 1) \<le> j \<and> j < 64 * (w + 1) + (n - (k - offset)) \<and> marked bits j})" by (rule count_loop_ok [OF l])
  also have "{j. 64 * (w + 1) \<le> j \<and> j < 64 * (w + 1) + (n - (k - offset)) \<and> marked bits j}
      = {j. 64 * w + k \<le> j \<and> j < index + n \<and> marked bits j}" using k idx by auto
  finally show ?thesis using card_split [of index "64 * w + k" "index + n" "marked bits"] k idx by simp
qed (use assms in \<open>auto simp: CountBits_def\<close>)

section \<open>Free ranges\<close>

lemma next_free_range:
  assumes "bitmap_ok N bits"
  shows "\<exists>r. NextFreeRange N bits start = Inr r \<and>
    (case r of None \<Rightarrow> \<forall>j. start \<le> j \<and> j < N \<longrightarrow> marked bits j
     | Some (i, l) \<Rightarrow> start \<le> i \<and> 0 < l \<and> i + l \<le> N \<and> (\<forall>j. start \<le> j \<and> j < i \<longrightarrow> marked bits j)
         \<and> (\<forall>j. i \<le> j \<and> j < i + l \<longrightarrow> \<not> marked bits j) \<and> (i + l < N \<longrightarrow> marked bits (i + l)))"
proof (cases "start < N")
  case True
  obtain i where i: "FindClear N bits start = Inr i" "first_at (\<lambda>j. marked bits j = False) N start i"
    using find_value [OF assms True, of False] by (auto simp: FindClear_def)
  show ?thesis
  proof (cases "i = N")
    case False
    then have "i < N" using i(2) by (simp add: first_at_def)
    then obtain e where e: "FindSet N bits i = Inr e" "first_at (\<lambda>j. marked bits j = True) N i e"
      using find_value [OF assms, of i True] by (auto simp: FindSet_def)
    have "i < e" using i(2) e(2) \<open>i < N\<close> by (auto simp: first_at_def le_less)
    then show ?thesis using True i e False by (auto simp: NextFreeRange_def first_at_def)
  qed (use True i in \<open>auto simp: NextFreeRange_def first_at_def\<close>)
qed (auto simp: NextFreeRange_def)

end
