(* ===== verification/Range_Tracker.thy ===== *)
theory Range_Tracker
  imports Bitmap
begin

text \<open>
  \<open>RangeTracker<N>\<close> of \<open>src/tcmalloc-src/tcmalloc/internal/range_tracker.h\<close>: allocation of
  ranges of bits by best fit, with the length of the longest free range kept up to date. The
  invariant relates the tracker to the set of live allocations; both operations preserve it,
  and the incremental computation of the longest free range is exact.
\<close>

section \<open>The tracker\<close>

text \<open>\<open>Count\<close> is the smallest unsigned type that holds \<open>N\<close>.\<close>

definition count_width :: "nat \<Rightarrow> nat" where
  "count_width N = (if N \<le> 2 ^ 8 - 1 then 8 else if N \<le> 2 ^ 16 - 1 then 16 else if N \<le> 2 ^ 32 - 1 then 32 else 64)"

definition to_count :: "nat \<Rightarrow> int \<Rightarrow> nat" where
  "to_count N x = nat (x mod 2 ^ count_width N)"

record range_tracker =
  rt_bits :: bitmap
  longest_free :: nat
  nused :: nat
  nallocs :: nat

definition RangeTracker :: "nat \<Rightarrow> range_tracker" where
  "RangeTracker N = \<lparr>rt_bits = empty_bitmap N, longest_free = to_count N (int N), nused = 0, nallocs = 0\<rparr>"

definition rt_size :: "nat \<Rightarrow> nat" where
  "rt_size N = N"

definition used :: "range_tracker \<Rightarrow> nat" where
  "used rt = nused rt"

definition total_free :: "nat \<Rightarrow> range_tracker \<Rightarrow> nat" where
  "total_free N rt = N - used rt"

definition allocs :: "range_tracker \<Rightarrow> nat" where
  "allocs rt = nallocs rt"

text \<open>The local variables of \<open>FindAndMark\<close> and one round of its loop.\<close>

record scan =
  longest_len :: nat
  second_len :: nat
  best_index :: nat
  best_len :: nat

definition scan_step :: "nat \<Rightarrow> nat \<times> nat \<Rightarrow> scan \<Rightarrow> scan" where
  "scan_step n r s =
     (let (index, len) = r;
          s1 = (if len > longest_len s then s\<lparr>second_len := longest_len s, longest_len := len\<rparr>
                else if len > second_len s then s\<lparr>second_len := len\<rparr> else s)
      in if len \<ge> n \<and> len < best_len s1 then s1\<lparr>best_index := index, best_len := len\<rparr> else s1)"

partial_function (option) scan_ranges :: "nat \<Rightarrow> nat \<Rightarrow> bitmap \<Rightarrow> nat \<Rightarrow> scan \<Rightarrow> scan result option" where
  "scan_ranges N n bits index s =
     (case NextFreeRange N bits index of
        Inl e \<Rightarrow> Some (Inl e)
      | Inr None \<Rightarrow> Some (Inr s)
      | Inr (Some (i, len)) \<Rightarrow> scan_ranges N n bits (i + len) (scan_step n (i, len) s))"

text \<open>The longest range that is left when \<open>n\<close> items are taken from the best one.\<close>

definition longest_after :: "nat \<Rightarrow> scan \<Rightarrow> nat" where
  "longest_after n s = (if best_len s = longest_len s
     then let l = longest_len s - n in if l < second_len s then second_len s else l else longest_len s)"

definition mark_best :: "nat \<Rightarrow> nat \<Rightarrow> scan \<Rightarrow> range_tracker \<Rightarrow> (nat \<times> range_tracker) result" where
  "mark_best N n s rt =
     (if \<not> best_index s < N then Inl Assert_Failed
      else bind_res (SetRange N (best_index s) n (rt_bits rt)) (\<lambda>bits.
        Inr (best_index s, rt\<lparr>rt_bits := bits, longest_free := to_count N (int (longest_after n s)),
          nused := to_count N (int (nused rt) + int n), nallocs := to_count N (int (nallocs rt) + 1)\<rparr>)))"

definition FindAndMark :: "nat \<Rightarrow> nat \<Rightarrow> range_tracker \<Rightarrow> (nat \<times> range_tracker) result option" where
  "FindAndMark N n rt =
     (case scan_ranges N n (rt_bits rt) 0 \<lparr>longest_len = 0, second_len = 0, best_index = N, best_len = 2 * N\<rparr> of
        None \<Rightarrow> None
      | Some (Inl e) \<Rightarrow> Some (Inl e)
      | Some (Inr s) \<Rightarrow> Some (mark_best N n s rt))"

definition Unmark :: "nat \<Rightarrow> nat \<Rightarrow> nat \<Rightarrow> range_tracker \<Rightarrow> range_tracker result" where
  "Unmark N index n rt =
     bind_res (FindClear N (rt_bits rt) index) (\<lambda>c.
     if \<not> c \<ge> index + n then Inl Assert_Failed
     else bind_res (ClearRange N index n (rt_bits rt)) (\<lambda>bits.
     bind_res (FindSet N bits (index + n - 1)) (\<lambda>lim.
     bind_res (FindSetBackwards bits index) (\<lambda>b.
       let index' = nat (b + 1); n' = lim - index'
       in Inr (rt\<lparr>rt_bits := bits, nused := to_count N (int (nused rt) - int n), nallocs := to_count N (int (nallocs rt) - 1),
            longest_free := (if n' > longest_free rt then to_count N (int n') else longest_free rt)\<rparr>)))))"

definition rt_NextFreeRange :: "nat \<Rightarrow> range_tracker \<Rightarrow> nat \<Rightarrow> (nat \<times> nat) option result" where
  "rt_NextFreeRange N rt start = NextFreeRange N (rt_bits rt) start"

definition rt_Clear :: "nat \<Rightarrow> range_tracker \<Rightarrow> range_tracker" where
  "rt_Clear N rt = rt\<lparr>rt_bits := ClearBitmap (rt_bits rt), nallocs := 0, nused := 0, longest_free := to_count N (int N)\<rparr>"

section \<open>Free ranges and runs\<close>

definition free_range :: "(nat \<Rightarrow> bool) \<Rightarrow> nat \<Rightarrow> nat \<Rightarrow> nat \<Rightarrow> bool" where
  "free_range f N i l \<longleftrightarrow> i + l \<le> N \<and> (\<forall>j. i \<le> j \<and> j < i + l \<longrightarrow> \<not> f j)"

definition is_longest :: "(nat \<Rightarrow> bool) \<Rightarrow> nat \<Rightarrow> nat \<Rightarrow> bool" where
  "is_longest f N m \<longleftrightarrow> (\<exists>i. free_range f N i m) \<and> (\<forall>i l. free_range f N i l \<longrightarrow> l \<le> m)"

text \<open>The maximal free ranges from \<open>start\<close> on, in order.\<close>

fun runs :: "(nat \<Rightarrow> bool) \<Rightarrow> nat \<Rightarrow> nat \<Rightarrow> (nat \<times> nat) list \<Rightarrow> bool" where
  "runs f N start [] \<longleftrightarrow> (\<forall>j. start \<le> j \<and> j < N \<longrightarrow> f j)"
| "runs f N start ((i, l) # rs) \<longleftrightarrow> start \<le> i \<and> 0 < l \<and> i + l \<le> N \<and> (\<forall>j. start \<le> j \<and> j < i \<longrightarrow> f j)
     \<and> (\<forall>j. i \<le> j \<and> j < i + l \<longrightarrow> \<not> f j) \<and> (i + l < N \<longrightarrow> f (i + l)) \<and> runs f N (i + l) rs"

lemma runs_sound:
  "runs f N start rs \<Longrightarrow> (i, l) \<in> set rs \<Longrightarrow> start \<le> i \<and> 0 < l \<and> free_range f N i l"
  by (induction f N start rs rule: runs.induct) (auto simp: free_range_def)

lemma runs_cover:
  "runs f N start rs \<Longrightarrow> start \<le> a \<Longrightarrow> 0 < l \<Longrightarrow> free_range f N a l \<Longrightarrow> \<exists>(i, k) \<in> set rs. i \<le> a \<and> a + l \<le> i + k"
proof (induction f N start rs rule: runs.induct)
  case (1 f N start)
  then have "f a" by (simp add: free_range_def)
  then show ?case using 1(3,4) by (simp add: free_range_def)
next
  case (2 f N start i k rs)
  have clear: "\<not> f j" if "a \<le> j" "j < a + l" for j using 2(5) that by (simp add: free_range_def)
  have N: "a + l \<le> N" using 2(5) by (simp add: free_range_def)
  show ?case
  proof (cases "a < i + k")
    case True
    have "i \<le> a" using clear [of a] 2(2,3,4) by (metis le_add1 add_less_cancel_left add_0_right not_le runs.simps(2))
    moreover have "a + l \<le> i + k"
    proof (rule ccontr)
      assume "\<not> a + l \<le> i + k"
      then have "i + k < N" "\<not> f (i + k)" using N True clear [of "i + k"] by linarith+
      then show False using 2(2) by simp
    qed
    ultimately show ?thesis by auto
  next
    case False
    then show ?thesis using 2(1) [OF _ _ 2(4,5)] 2(2) by auto
  qed
qed

lemma runs_apart:
  "runs f N start rs \<Longrightarrow> p < q \<Longrightarrow> q < length rs \<Longrightarrow> fst (rs ! p) + snd (rs ! p) \<le> fst (rs ! q)"
proof (induction f N start rs arbitrary: p q rule: runs.induct)
  case (2 f N start i k rs)
  show ?case
  proof (cases p)
    case 0
    have "rs ! (q - 1) \<in> set rs" using 2(3,4) 0 by (intro nth_mem) simp
    then have "i + k \<le> fst (rs ! (q - 1))" using runs_sound [of f N "i + k" rs "fst (rs ! (q - 1))" "snd (rs ! (q - 1))"] 2(2) by simp
    then show ?thesis using 0 2(3) by (cases q) simp_all
  next
    case (Suc p')
    then show ?thesis using 2(1) [of p' "q - 1"] 2(2-4) by (cases q) simp_all
  qed
qed simp

lemma scan_ranges_runs:
  assumes "bitmap_ok N bits"
  shows "\<exists>rs. scan_ranges N n bits index s = Some (Inr (fold (scan_step n) rs s)) \<and> runs (marked bits) N index rs"
proof (induction "N - index" arbitrary: index s rule: less_induct)
  case less
  obtain r where r: "NextFreeRange N bits index = Inr r"
      "case r of None \<Rightarrow> \<forall>j. index \<le> j \<and> j < N \<longrightarrow> marked bits j
       | Some (i, l) \<Rightarrow> index \<le> i \<and> 0 < l \<and> i + l \<le> N \<and> (\<forall>j. index \<le> j \<and> j < i \<longrightarrow> marked bits j)
           \<and> (\<forall>j. i \<le> j \<and> j < i + l \<longrightarrow> \<not> marked bits j) \<and> (i + l < N \<longrightarrow> marked bits (i + l))"
    using next_free_range [OF assms, of index] by blast
  show ?case
  proof (cases r)
    case None
    then show ?thesis using r by (intro exI [of _ "[]"]) (simp add: scan_ranges.simps)
  next
    case (Some x)
    obtain i l where x: "x = (i, l)" by fastforce
    have "N - (i + l) < N - index" using r(2) Some x by auto
    then obtain rs where "scan_ranges N n bits (i + l) (scan_step n (i, l) s) = Some (Inr (fold (scan_step n) rs (scan_step n (i, l) s)))"
        "runs (marked bits) N (i + l) rs"
      using less by blast
    then show ?thesis using r Some x by (intro exI [of _ "(i, l) # rs"]) (simp add: scan_ranges.simps)
  qed
qed

section \<open>The two longest ranges and the best fit\<close>

text \<open>What the loop has computed after the ranges \<open>rs\<close>: \<open>p\<close> is a longest range, and no other one is
  longer than \<open>second_len\<close>.\<close>

definition top_two :: "(nat \<times> nat) list \<Rightarrow> scan \<Rightarrow> nat \<Rightarrow> bool" where
  "top_two rs s p \<longleftrightarrow> p < length rs \<and> snd (rs ! p) = longest_len s \<and> second_len s \<le> longest_len s
     \<and> (\<forall>q < length rs. q \<noteq> p \<longrightarrow> snd (rs ! q) \<le> second_len s)
     \<and> (second_len s = 0 \<or> (\<exists>q < length rs. q \<noteq> p \<and> snd (rs ! q) = second_len s))"

definition best_of :: "nat \<Rightarrow> nat \<Rightarrow> (nat \<times> nat) list \<Rightarrow> scan \<Rightarrow> bool" where
  "best_of N n rs s \<longleftrightarrow> (\<forall>(i, l) \<in> set rs. n \<le> l \<longrightarrow> best_len s \<le> l)
     \<and> (best_index s = N \<and> best_len s = 2 * N \<or> (best_index s, best_len s) \<in> set rs \<and> n \<le> best_len s)"

abbreviation scan_init :: "nat \<Rightarrow> scan" where
  "scan_init N \<equiv> \<lparr>longest_len = 0, second_len = 0, best_index = N, best_len = 2 * N\<rparr>"

lemma scan_step_lens:
  "longest_len (scan_step n (i, l) s) = max l (longest_len s)"
  "second_len (scan_step n (i, l) s) = (if l > longest_len s then longest_len s else max l (second_len s))"
  by (auto simp: scan_step_def Let_def)

lemma scan_step_best:
  "best_len (scan_step n (i, l) s) = (if n \<le> l \<and> l < best_len s then l else best_len s)"
  "best_index (scan_step n (i, l) s) = (if n \<le> l \<and> l < best_len s then i else best_index s)"
  by (auto simp: scan_step_def Let_def)

lemma top_two_snoc:
  assumes "top_two rs s p" and "0 < l"
  shows "\<exists>p'. top_two (rs @ [(i, l)]) (scan_step n (i, l) s) p'"
proof (cases "longest_len s < l")
  case True
  have "snd ((rs @ [(i, l)]) ! q) \<le> longest_len s" if "q < length rs" for q
    using assms(1) that by (cases "q = p") (auto simp: top_two_def nth_append)
  then have "top_two (rs @ [(i, l)]) (scan_step n (i, l) s) (length rs)"
    using True assms(1) by (auto simp: top_two_def scan_step_lens less_Suc_eq nth_append intro!: exI [of _ p])
  then show ?thesis by blast
next
  case False
  have "top_two (rs @ [(i, l)]) (scan_step n (i, l) s) p"
  proof (cases "second_len s < l")
    case True
    then show ?thesis using False assms
      by (auto simp: top_two_def scan_step_lens less_Suc_eq nth_append max_def intro!: exI [of _ "length rs"])
  next
    case less: False
    then show ?thesis using False assms
      by (auto simp: top_two_def scan_step_lens less_Suc_eq nth_append max_def split: if_splits)
  qed
  then show ?thesis by blast
qed

lemma top_two_fold: "(\<forall>r \<in> set rs. 0 < snd r) \<Longrightarrow> rs \<noteq> [] \<Longrightarrow> \<exists>p. top_two rs (fold (scan_step n) rs (scan_init N)) p"
proof (induction rs rule: rev_induct)
  case (snoc r rs)
  obtain i l where r: "r = (i, l)" by fastforce
  show ?case
  proof (cases "rs = []")
    case True
    then show ?thesis using snoc.prems r by (auto simp: top_two_def scan_step_lens)
  next
    case False
    then obtain p where "top_two rs (fold (scan_step n) rs (scan_init N)) p" using snoc by auto
    then show ?thesis using top_two_snoc [of rs _ p l i n] snoc.prems r by simp
  qed
qed simp

lemma best_of_fold: "best_of N n rs (fold (scan_step n) rs (scan_init N))" if "\<forall>r \<in> set rs. snd r \<le> N"
  using that
proof (induction rs rule: rev_induct)
  case (snoc r rs)
  obtain i l where r: "r = (i, l)" by fastforce
  have "best_of N n rs (fold (scan_step n) rs (scan_init N))" using snoc by simp
  then show ?case unfolding r by (auto simp: best_of_def scan_step_best)
qed (simp add: best_of_def)

lemma longest_after_max:
  assumes "top_two rs s p" and "b < length rs" and "snd (rs ! b) = best_len s" and "n \<le> best_len s"
  shows "best_len s - n \<le> longest_after n s" (is ?A)
    and "q < length rs \<Longrightarrow> q \<noteq> b \<Longrightarrow> snd (rs ! q) \<le> longest_after n s"
    and "longest_after n s = best_len s - n \<or> (\<exists>q < length rs. q \<noteq> b \<and> snd (rs ! q) = longest_after n s)" (is ?C)
proof -
  have le: "snd (rs ! q) \<le> longest_len s" if "q < length rs" for q
    using assms(1) that by (cases "q = p") (auto simp: top_two_def)
  have eq: "second_len s = longest_len s" if "best_len s = longest_len s" "p \<noteq> b"
    using assms that by (metis le_antisym top_two_def)
  show ?A using le [of b] assms(2,3) by (auto simp: longest_after_def Let_def)
  show "snd (rs ! q) \<le> longest_after n s" if q: "q < length rs" "q \<noteq> b"
  proof (cases "best_len s = longest_len s \<and> p = b")
    case True
    then have "snd (rs ! q) \<le> second_len s" using assms(1) q by (simp add: top_two_def)
    then show ?thesis using True by (simp add: longest_after_def Let_def)
  next
    case False
    then show ?thesis using le [OF q(1)] eq by (auto simp: longest_after_def Let_def)
  qed
  show ?C
  proof (cases "best_len s = longest_len s")
    case True
    show ?thesis
    proof (cases "p = b")
      case pb: True
      then show ?thesis using assms(1) True by (auto simp: longest_after_def Let_def top_two_def)
    next
      case False
      then show ?thesis using assms(1) True eq by (auto simp: longest_after_def Let_def top_two_def)
    qed
  next
    case False
    then have "p \<noteq> b" using assms by (auto simp: top_two_def)
    then show ?thesis using False assms(1) by (auto simp: longest_after_def top_two_def)
  qed
qed

section \<open>Taking and returning a range\<close>

lemma runs_disjoint:
  assumes "runs f N 0 rs" and "b < length rs" and "q < length rs" and "q \<noteq> b"
  shows "fst (rs ! b) + snd (rs ! b) \<le> fst (rs ! q) \<or> fst (rs ! q) + snd (rs ! q) \<le> fst (rs ! b)"
  using runs_apart [OF assms(1), of b q] runs_apart [OF assms(1), of q b] assms by (meson linorder_neqE_nat)

lemma is_longest_take:
  assumes rs: "runs f N 0 rs" and top: "top_two rs s p" and b: "b < length rs" "rs ! b = (best_index s, best_len s)"
    and n: "0 < n" "n \<le> best_len s"
    and f': "\<And>j. j < N \<Longrightarrow> f' j = (f j \<or> best_index s \<le> j \<and> j < best_index s + n)"
  shows "is_longest f' N (longest_after n s)"
proof -
  let ?i = "best_index s" and ?l = "best_len s"
  note m = longest_after_max [OF top b(1) _ n(2)]
  have fb: "free_range f N ?i ?l" using runs_sound [OF rs, of ?i ?l] b by (metis nth_mem)
  have "l \<le> longest_after n s" if a: "free_range f' N a l" for a l
  proof (cases "0 < l")
    case True
    have fr: "free_range f N a l" using a f' by (auto simp: free_range_def)
    obtain q where q: "q < length rs" "fst (rs ! q) \<le> a" "a + l \<le> fst (rs ! q) + snd (rs ! q)"
      using runs_cover [OF rs _ True fr] by (auto simp: in_set_conv_nth)
    show ?thesis
    proof (cases "q = b")
      case True
      have "\<not> f' a" "a < N" using a \<open>0 < l\<close> by (auto simp: free_range_def)
      then have "?i + n \<le> a" using f' [of a] q(2) True b(2) by simp
      then have "l \<le> ?l - n" using q(3) True b(2) by simp
      then show ?thesis using m(1) b(2) by simp
    next
      case False
      then have "snd (rs ! q) \<le> longest_after n s" using m(2) [OF _ q(1)] b(2) by simp
      then show ?thesis using q by linarith
    qed
  qed simp
  moreover have "\<exists>i. free_range f' N i (longest_after n s)"
  proof (cases "longest_after n s = ?l - n")
    case True
    have "free_range f' N (?i + n) (?l - n)" using fb n f' by (auto simp: free_range_def)
    then show ?thesis using True by auto
  next
    case False
    then obtain q where q: "q < length rs" "q \<noteq> b" "snd (rs ! q) = longest_after n s" using m(3) b(2) by auto
    have "free_range f N (fst (rs ! q)) (snd (rs ! q))" using runs_sound [OF rs, of "fst (rs ! q)" "snd (rs ! q)"] q(1) by simp
    then have "free_range f' N (fst (rs ! q)) (snd (rs ! q))"
      using f' runs_disjoint [OF rs b(1) q(1,2)] b(2) n by (auto simp: free_range_def)
    then show ?thesis using q(3) by auto
  qed
  ultimately show ?thesis by (auto simp: is_longest_def)
qed

lemma is_longest_give:
  assumes old: "is_longest f N m" and n: "0 < n" "i + n \<le> N"
    and f': "\<And>j. j < N \<Longrightarrow> f' j = (f j \<and> \<not> (i \<le> j \<and> j < i + n))"
    and lim: "first_at f' N (i + n - 1) lim" and low: "last_at f' i low"
  shows "is_longest f' N (max m (lim - nat (low + 1)))"
proof -
  let ?a = "nat (low + 1)"
  have e: "i + n - 1 < N" "i \<le> i + n - 1" "i + n - 1 < i + n" using n by linarith+
  have "lim \<noteq> i + n - 1" using lim f' [OF e(1)] e by (auto simp: first_at_def simp del: One_nat_def)
  moreover have "i + n - 1 \<le> lim" "lim \<le> N" using lim by (simp_all add: first_at_def)
  ultimately have lim': "i + n \<le> lim" "lim \<le> N" by linarith+
  have "low \<noteq> int i" using low f' [of i] n by (auto simp: last_at_def)
  moreover have "low \<le> int i" using low by (simp add: last_at_def)
  ultimately have a: "?a \<le> i" by linarith
  have below: "f' (?a - 1)" if "0 < ?a"
  proof -
    have "?a - 1 = nat low" "0 \<le> low" using that by simp_all
    then show ?thesis using low by (simp add: last_at_def)
  qed
  have above: "f' lim" if "lim < N" using lim that by (simp add: first_at_def)
  have mid: "\<not> f' j" if j: "?a \<le> j" "j < lim" for j
  proof -
    consider "j \<le> i" | "i < j" "j < i + n" | "i + n \<le> j" by linarith
    then show ?thesis
    proof cases
      case 1
      then show ?thesis using low j by (auto simp: last_at_def)
    next
      case 2
      then show ?thesis using f' [of j] n by simp
    next
      case 3
      then show ?thesis using lim j by (auto simp: first_at_def)
    qed
  qed
  have free: "free_range f' N ?a (lim - ?a)" using mid lim' a by (auto simp: free_range_def)
  have "l \<le> max m (lim - ?a)" if r: "free_range f' N c l" for c l
  proof (cases "free_range f N c l")
    case True
    then show ?thesis using old by (auto simp: is_longest_def le_max_iff_disj)
  next
    case False
    then obtain j where j: "c \<le> j" "j < c + l" "f j" using r by (auto simp: free_range_def)
    then have ij: "i \<le> j" "j < i + n" using r f' [of j] by (auto simp: free_range_def)
    have "?a \<le> c"
    proof (rule ccontr)
      assume "\<not> ?a \<le> c"
      then have "0 < ?a" "c \<le> ?a - 1" "?a - 1 < c + l" using j ij a by linarith+
      then show False using below r by (simp add: free_range_def)
    qed
    moreover have "c + l \<le> lim"
    proof (rule ccontr)
      assume "\<not> c + l \<le> lim"
      then have "c \<le> lim" "lim < c + l" "c + l \<le> N" using j ij lim' r by (simp_all add: free_range_def)
      then show False using above r by (simp add: free_range_def)
    qed
    ultimately show ?thesis by simp
  qed
  moreover obtain c where "free_range f N c m" using old by (auto simp: is_longest_def)
  then have "free_range f' N c m" using f' by (auto simp: free_range_def)
  ultimately show ?thesis using free by (auto simp: is_longest_def max_def)
qed

section \<open>The invariant of the tracker\<close>

text \<open>The bits of a set of allocations, each given by its index and its length.\<close>

definition covered :: "(nat \<times> nat) set \<Rightarrow> nat \<Rightarrow> bool" where
  "covered A j \<longleftrightarrow> (\<exists>(i, l) \<in> A. i \<le> j \<and> j < i + l)"

definition allocations_ok :: "nat \<Rightarrow> (nat \<times> nat) set \<Rightarrow> bool" where
  "allocations_ok N A \<longleftrightarrow> finite A \<and> (\<forall>(i, l) \<in> A. 0 < l \<and> i + l \<le> N)
     \<and> (\<forall>a \<in> A. \<forall>b \<in> A. a \<noteq> b \<longrightarrow> fst a + snd a \<le> fst b \<or> fst b + snd b \<le> fst a)"

definition tracker_ok :: "nat \<Rightarrow> (nat \<times> nat) set \<Rightarrow> range_tracker \<Rightarrow> bool" where
  "tracker_ok N A rt \<longleftrightarrow> 0 < N \<and> N < 2 ^ 64 \<and> bitmap_ok N (rt_bits rt) \<and> allocations_ok N A
     \<and> (\<forall>j < N. marked (rt_bits rt) j = covered A j) \<and> used rt = sum snd A \<and> allocs rt = card A
     \<and> is_longest (marked (rt_bits rt)) N (longest_free rt)"

lemma allocations_bound:
  assumes "allocations_ok N A"
  shows "sum snd A \<le> N" and "card A \<le> sum snd A"
proof -
  let ?I = "\<lambda>a :: nat \<times> nat. {fst a..<fst a + snd a}"
  have fin: "finite A" using assms by (simp add: allocations_ok_def)
  have "?I a \<inter> ?I b = {}" if "a \<in> A" "b \<in> A" "a \<noteq> b" for a b
  proof -
    have "fst a + snd a \<le> fst b \<or> fst b + snd b \<le> fst a" using assms that by (simp add: allocations_ok_def)
    then show ?thesis by auto
  qed
  then have "card (\<Union>a \<in> A. ?I a) = (\<Sum>a \<in> A. card (?I a))" using fin by (intro card_UN_disjoint) auto
  then have "sum snd A = card (\<Union>a \<in> A. ?I a)" by simp
  also have "\<dots> \<le> card {..<N}" using assms by (intro card_mono) (fastforce simp: allocations_ok_def)+
  finally show "sum snd A \<le> N" by simp
  have "card A = (\<Sum>a \<in> A. 1)" by simp
  also have "\<dots> \<le> sum snd A" using assms by (intro sum_mono) (auto simp: allocations_ok_def)
  finally show "card A \<le> sum snd A" .
qed

lemma to_count_id: "to_count N (int x) = x" if "x \<le> N" "N < 2 ^ 64"
proof -
  have "N < 2 ^ count_width N" using that(2) by (simp add: count_width_def)
  then have "int x < 2 ^ count_width N" using that(1) by (metis le_less_trans of_nat_less_numeral_power_cancel_iff)
  then show ?thesis by (simp add: to_count_def)
qed

lemma is_longest_le: "is_longest f N m \<Longrightarrow> m \<le> N"
  by (auto simp: is_longest_def free_range_def)

lemma free_range_cong: "(\<And>j. j < N \<Longrightarrow> f j = g j) \<Longrightarrow> free_range f N i l = free_range g N i l"
  by (auto simp: free_range_def)

lemma is_longest_cong:
  assumes "\<And>j. j < N \<Longrightarrow> f j = g j"
  shows "is_longest f N m = is_longest g N m"
proof -
  have "free_range f N i l = free_range g N i l" for i l using assms by (rule free_range_cong)
  then show ?thesis by (simp add: is_longest_def)
qed

text \<open>The maximal free ranges, of which \<open>FindAndMark\<close> takes a shortest one that is long enough.\<close>

definition max_range :: "(nat \<Rightarrow> bool) \<Rightarrow> nat \<Rightarrow> nat \<Rightarrow> nat \<Rightarrow> bool" where
  "max_range f N i l \<longleftrightarrow> 0 < l \<and> free_range f N i l \<and> (0 < i \<longrightarrow> f (i - 1)) \<and> (i + l < N \<longrightarrow> f (i + l))"

lemma runs_max: "runs f N start rs \<Longrightarrow> start = 0 \<or> N \<le> start \<or> f start \<Longrightarrow> (i, l) \<in> set rs \<Longrightarrow> max_range f N i l"
proof (induction f N start rs rule: runs.induct)
  case (2 f N start i' l' rs)
  have r: "start \<le> i'" "0 < l'" "i' + l' \<le> N" "\<forall>j. start \<le> j \<and> j < i' \<longrightarrow> f j" "\<forall>j. i' \<le> j \<and> j < i' + l' \<longrightarrow> \<not> f j"
      "i' + l' < N \<longrightarrow> f (i' + l')" "runs f N (i' + l') rs"
    using 2(2) by simp_all
  have "f (i' - 1)" if "0 < i'"
  proof -
    have "start \<noteq> i'"
    proof
      assume "start = i'"
      then have "f i'" using 2(3) r(2,3) that by auto
      then show False using r(2) r(5) [rule_format, of i'] by simp
    qed
    then have "start \<le> i' - 1" "i' - 1 < i'" using r(1) that by linarith+
    then show ?thesis using r(4) by blast
  qed
  then have "max_range f N i' l'" using r by (simp add: max_range_def free_range_def)
  moreover have "max_range f N i l" if "(i, l) \<in> set rs" using 2(1) [OF r(7) _ that] r(6) not_le by blast
  ultimately show ?case using 2(4) by auto
qed simp

lemma free_rangeD: "free_range f N i l \<Longrightarrow> i \<le> j \<Longrightarrow> j < i + l \<Longrightarrow> \<not> f j"
  by (simp add: free_range_def)

lemma max_rangeD:
  assumes "max_range f N i l"
  shows "0 < l" "free_range f N i l" "0 < i \<Longrightarrow> f (i - 1)" "i + l < N \<Longrightarrow> f (i + l)"
  using assms by (simp_all add: max_range_def)

lemma max_range_run:
  assumes "runs f N 0 rs" and "max_range f N a k"
  shows "(a, k) \<in> set rs"
proof -
  note k = max_rangeD [OF assms(2)]
  obtain i l where il: "(i, l) \<in> set rs" "i \<le> a" "a + k \<le> i + l" using runs_cover [OF assms(1) _ k(1,2)] by auto
  have fr: "free_range f N i l" using runs_sound [OF assms(1) il(1)] by simp
  have "i = a"
  proof (rule ccontr)
    assume "i \<noteq> a"
    then have "0 < a" "i \<le> a - 1" "a - 1 < i + l" using il k(1) by linarith+
    then show False using k(3) free_rangeD [OF fr, of "a - 1"] by simp
  qed
  moreover have "\<not> a + k < i + l"
  proof
    assume "a + k < i + l"
    moreover have "i + l \<le> N" using fr by (simp add: free_range_def)
    ultimately show False using k(4) free_rangeD [OF fr, of "a + k"] il(2) by simp
  qed
  ultimately show ?thesis using il by simp
qed

section \<open>The operations\<close>

lemma is_longest_unique: "is_longest f N m \<Longrightarrow> is_longest f N m' \<Longrightarrow> m = m'"
  unfolding is_longest_def by (meson le_antisym)

lemma scan_result:
  assumes "bitmap_ok N bits" and "0 < n"
  obtains s rs where "scan_ranges N n bits 0 (scan_init N) = Some (Inr s)" "runs (marked bits) N 0 rs"
    "rs \<noteq> [] \<Longrightarrow> \<exists>p. top_two rs s p" "best_of N n rs s"
proof -
  obtain rs where rs: "scan_ranges N n bits 0 (scan_init N) = Some (Inr (fold (scan_step n) rs (scan_init N)))"
      "runs (marked bits) N 0 rs"
    using scan_ranges_runs [OF assms(1)] by blast
  have r: "0 < snd r \<and> snd r \<le> N" if "r \<in> set rs" for r
    using runs_sound [OF rs(2), of "fst r" "snd r"] that by (simp add: free_range_def)
  show thesis
  proof (rule that [OF rs])
    show "\<exists>p. top_two rs (fold (scan_step n) rs (scan_init N)) p" if "rs \<noteq> []" using r that by (intro top_two_fold) simp_all
    show "best_of N n rs (fold (scan_step n) rs (scan_init N))" using r by (intro best_of_fold) simp
  qed
qed

lemma allocations_insert:
  assumes "allocations_ok N A" and "0 < n" and "i + n \<le> N" and free: "\<And>j. i \<le> j \<Longrightarrow> j < i + n \<Longrightarrow> \<not> covered A j"
  shows "allocations_ok N (insert (i, n) A)" and "(i, n) \<notin> A" and "covered (insert (i, n) A) j \<longleftrightarrow> covered A j \<or> i \<le> j \<and> j < i + n"
proof -
  have apart: "fst a + snd a \<le> i \<or> i + n \<le> fst a" if a: "a \<in> A" for a
  proof (rule ccontr)
    assume n: "\<not> (fst a + snd a \<le> i \<or> i + n \<le> fst a)"
    have "0 < snd a" using assms(1) a by (auto simp: allocations_ok_def)
    then have "i \<le> max i (fst a)" "max i (fst a) < i + n" "fst a \<le> max i (fst a)" "max i (fst a) < fst a + snd a"
      using n assms(2) by auto
    then show False using free [of "max i (fst a)"] a by (force simp: covered_def)
  qed
  then show "allocations_ok N (insert (i, n) A)" using assms(1-3) by (auto simp: allocations_ok_def)
  show "(i, n) \<notin> A" using apart [of "(i, n)"] assms(2) by auto
  show "covered (insert (i, n) A) j \<longleftrightarrow> covered A j \<or> i \<le> j \<and> j < i + n" by (auto simp: covered_def)
qed

lemma allocations_remove:
  assumes "allocations_ok N A" and "(i, n) \<in> A"
  shows "allocations_ok N (A - {(i, n)})" and "covered (A - {(i, n)}) j \<longleftrightarrow> covered A j \<and> \<not> (i \<le> j \<and> j < i + n)"
proof -
  show "allocations_ok N (A - {(i, n)})" using assms(1) by (auto simp: allocations_ok_def)
  have "\<not> (fst a \<le> j \<and> j < fst a + snd a)" if "a \<in> A - {(i, n)}" "i \<le> j" "j < i + n" for a
  proof -
    have "fst a + snd a \<le> i \<or> i + n \<le> fst a" using assms that(1) by (fastforce simp: allocations_ok_def)
    then show ?thesis using that by linarith
  qed
  then show "covered (A - {(i, n)}) j \<longleftrightarrow> covered A j \<and> \<not> (i \<le> j \<and> j < i + n)"
    using assms(2) by (fastforce simp: covered_def)
qed

lemma tracker_okD:
  assumes "tracker_ok N A rt"
  shows "0 < N" "N < 2 ^ 64" "bitmap_ok N (rt_bits rt)" "allocations_ok N A" "j < N \<Longrightarrow> marked (rt_bits rt) j = covered A j"
    "used rt = sum snd A" "allocs rt = card A" "is_longest (marked (rt_bits rt)) N (longest_free rt)" "finite A"
  using assms by (auto simp: tracker_ok_def allocations_ok_def)

lemma tracker_mark:
  assumes ok: "tracker_ok N A rt" and n: "0 < n" and rs: "runs (marked (rt_bits rt)) N 0 rs" and top: "top_two rs s p"
    and best: "(best_index s, best_len s) \<in> set rs" "n \<le> best_len s"
  shows "\<exists>rt'. mark_best N n s rt = Inr (best_index s, rt') \<and> (best_index s, n) \<notin> A \<and> tracker_ok N (insert (best_index s, n) A) rt'"
proof -
  note t = tracker_okD [OF ok]
  let ?i = "best_index s" and ?A = "insert (best_index s, n) A"
  have fr: "free_range (marked (rt_bits rt)) N ?i (best_len s)" using runs_sound [OF rs best(1)] by simp
  then have i: "?i + n \<le> N" "?i < N" using best(2) n by (auto simp: free_range_def)
  have "\<not> covered A j" if "?i \<le> j" "j < ?i + n" for j
    using free_rangeD [OF fr, of j] t(5) [of j] that best(2) i by auto
  note A = allocations_insert [OF t(4) n i(1) this]
  obtain bits where b: "SetRange N ?i n (rt_bits rt) = Inr bits" "bitmap_ok N bits"
      "\<forall>j < 64 * kWords N. marked bits j = (if ?i \<le> j \<and> j < ?i + n then True else marked (rt_bits rt) j)"
    using set_range_value [OF t(3) n i(1), of True] by (auto simp: SetRange_def)
  have m: "marked bits j = (marked (rt_bits rt) j \<or> ?i \<le> j \<and> j < ?i + n)" if "j < N" for j
    using b(3) that kWords_bound(1) [of N] by auto
  obtain q where "q < length rs" "rs ! q = (?i, best_len s)" using best(1) by (auto simp: in_set_conv_nth)
  then have long: "is_longest (marked bits) N (longest_after n s)" by (rule is_longest_take [OF rs top _ _ n best(2) m])
  have sums: "sum snd ?A = sum snd A + n" "card ?A = card A + 1" using A(2) t(9) by simp_all
  have "sum snd A + n \<le> N" "card A + 1 \<le> N" using allocations_bound [OF A(1)] sums by simp_all
  then have c: "to_count N (int (nused rt) + int n) = sum snd A + n" "to_count N (int (nallocs rt) + 1) = card A + 1"
      "to_count N (int (longest_after n s)) = longest_after n s"
    using to_count_id [of "sum snd A + n" N] to_count_id [of "card A + 1" N] to_count_id [OF is_longest_le [OF long]] t
    by (simp_all add: used_def allocs_def add.commute)
  have "tracker_ok N ?A (rt\<lparr>rt_bits := bits, longest_free := longest_after n s, nused := sum snd A + n, nallocs := card A + 1\<rparr>)"
    unfolding tracker_ok_def using t(1,2) A(1,3) b(2) m t(5) sums long by (simp add: used_def allocs_def)
  then show ?thesis using i(2) b(1) c A(2) by (simp add: mark_best_def)
qed

lemma find_and_mark_run:
  assumes ok: "tracker_ok N A rt" and n: "0 < n" "n \<le> longest_free rt"
  shows "\<exists>i l rt'. FindAndMark N n rt = Some (Inr (i, rt')) \<and> (i, n) \<notin> A \<and> tracker_ok N (insert (i, n) A) rt' \<and> n \<le> l
    \<and> max_range (marked (rt_bits rt)) N i l \<and> (\<forall>j k. max_range (marked (rt_bits rt)) N j k \<and> n \<le> k \<longrightarrow> l \<le> k)"
proof -
  note t = tracker_okD [OF ok]
  obtain s rs where s: "scan_ranges N n (rt_bits rt) 0 (scan_init N) = Some (Inr s)" and rs: "runs (marked (rt_bits rt)) N 0 rs"
      and top: "rs \<noteq> [] \<Longrightarrow> \<exists>p. top_two rs s p" and best: "best_of N n rs s"
    using scan_result [OF t(3) n(1)] by blast
  obtain a where a: "free_range (marked (rt_bits rt)) N a (longest_free rt)" using t(8) by (auto simp: is_longest_def)
  then obtain c k where ck: "(c, k) \<in> set rs" "longest_free rt \<le> k" using runs_cover [OF rs _ _ a] n by fastforce
  have "k \<le> N" using runs_sound [OF rs ck(1)] by (simp add: free_range_def)
  moreover have "best_len s \<le> k" using best ck n(2) by (auto simp: best_of_def)
  ultimately have b: "(best_index s, best_len s) \<in> set rs" "n \<le> best_len s" using best t(1) by (auto simp: best_of_def)
  obtain p where p: "top_two rs s p" using top ck(1) by fastforce
  obtain rt' where "mark_best N n s rt = Inr (best_index s, rt')" "(best_index s, n) \<notin> A" "tracker_ok N (insert (best_index s, n) A) rt'"
    using tracker_mark [OF ok n(1) rs p b] by blast
  moreover have "best_len s \<le> l" if "max_range (marked (rt_bits rt)) N j l" "n \<le> l" for j l
    using best max_range_run [OF rs that(1)] that(2) by (auto simp: best_of_def)
  moreover have "max_range (marked (rt_bits rt)) N (best_index s) (best_len s)" by (rule runs_max [OF rs _ b(1)]) simp
  moreover have "FindAndMark N n rt = Some (mark_best N n s rt)" using s by (simp add: FindAndMark_def)
  ultimately show ?thesis using b(2) by metis
qed

lemma find_and_mark_too_long:
  assumes ok: "tracker_ok N A rt" and n: "longest_free rt < n"
  shows "FindAndMark N n rt = Some (Inl Assert_Failed)"
proof -
  note t = tracker_okD [OF ok]
  have "0 < n" using n by simp
  then obtain s rs where s: "scan_ranges N n (rt_bits rt) 0 (scan_init N) = Some (Inr s)" "runs (marked (rt_bits rt)) N 0 rs"
      "best_of N n rs s"
    using scan_result [OF t(3)] by metis
  have "(best_index s, best_len s) \<notin> set rs \<or> \<not> n \<le> best_len s"
    using runs_sound [OF s(2), of "best_index s" "best_len s"] t(8) n by (fastforce simp: is_longest_def)
  then have "best_index s = N" using s(3) by (auto simp: best_of_def)
  then show ?thesis using s(1) by (simp add: FindAndMark_def mark_best_def)
qed

lemma unmark_run:
  assumes ok: "tracker_ok N A rt" and mem: "(i, n) \<in> A"
  shows "\<exists>rt'. Unmark N i n rt = Inr rt' \<and> tracker_ok N (A - {(i, n)}) rt'"
proof -
  note t = tracker_okD [OF ok]
  let ?A = "A - {(i, n)}"
  have n: "0 < n" "i + n \<le> N" using t(4) mem by (auto simp: allocations_ok_def)
  note A = allocations_remove [OF t(4) mem]
  have i: "i < N" "i + n - 1 < N" using n by linarith+
  obtain c where c: "FindClear N (rt_bits rt) i = Inr c" "first_at (\<lambda>j. marked (rt_bits rt) j = False) N i c"
    using find_value [OF t(3) i(1), of False] by (auto simp: FindClear_def)
  have "i + n \<le> c"
  proof (rule ccontr)
    assume c': "\<not> i + n \<le> c"
    then have "i \<le> c" "c < N" "\<not> marked (rt_bits rt) c" using c(2) n by (simp_all add: first_at_def)
    moreover have "covered A c" using mem c' \<open>i \<le> c\<close> by (force simp: covered_def)
    ultimately show False using t(5) by simp
  qed
  obtain bits where b: "ClearRange N i n (rt_bits rt) = Inr bits" "bitmap_ok N bits"
      "\<forall>j < 64 * kWords N. marked bits j = (if i \<le> j \<and> j < i + n then False else marked (rt_bits rt) j)"
    using set_range_value [OF t(3) n, of False] by (auto simp: ClearRange_def)
  have m: "marked bits j = (marked (rt_bits rt) j \<and> \<not> (i \<le> j \<and> j < i + n))" if "j < N" for j
    using b(3) that kWords_bound(1) [of N] by auto
  obtain lim where lim: "FindSet N bits (i + n - 1) = Inr lim" "first_at (marked bits) N (i + n - 1) lim"
    using find_value [OF b(2) i(2), of True] by (auto simp: FindSet_def)
  obtain low where low: "FindSetBackwards bits i = Inr low" "last_at (marked bits) i low"
    using find_value_backwards [OF b(2) i(1), of True] by (auto simp: FindSetBackwards_def)
  define r where "r = lim - nat (low + 1)"
  let ?m = "max (longest_free rt) (r)"
  have long: "is_longest (marked bits) N ?m" unfolding r_def by (rule is_longest_give [OF t(8) n m lim(2) low(2)])
  have sums: "sum snd A = n + sum snd ?A" "card A = 1 + card ?A"
    using sum.remove [OF t(9) mem, of snd] card.remove [OF t(9) mem] by simp_all
  have "sum snd ?A \<le> N" "card ?A \<le> N" "r \<le> N"
    using allocations_bound [OF A(1)] is_longest_le [OF long] by simp_all
  then have c': "to_count N (int (nused rt) - int n) = sum snd ?A" "to_count N (int (nallocs rt) - 1) = card ?A"
      "to_count N (int (r)) = r"
    using to_count_id [of "sum snd ?A" N] to_count_id [of "card ?A" N] to_count_id [of "r" N] t(2,6,7) sums
    by (simp_all add: used_def allocs_def)
  have "Unmark N i n rt = Inr (rt\<lparr>rt_bits := bits, nused := sum snd ?A, nallocs := card ?A, longest_free := ?m\<rparr>)"
    unfolding Unmark_def c(1) b(1) bind_res.simps using \<open>i + n \<le> c\<close> lim(1) low(1) c'
    by (simp add: Let_def max_def r_def [symmetric])
  moreover have "tracker_ok N ?A (rt\<lparr>rt_bits := bits, nused := sum snd ?A, nallocs := card ?A, longest_free := ?m\<rparr>)"
    unfolding tracker_ok_def using t(1,2) A b(2) m t(5) long by (simp add: used_def allocs_def)
  ultimately show ?thesis by blast
qed

lemma marked_zero:
  assumes "j < 64 * length bits" and "\<forall>w \<in> set bits. w = 0"
  shows "\<not> marked bits j"
proof -
  have "j div 64 < length bits" using assms(1) by (intro less_mult_imp_div_less) simp
  then have "bits ! (j div 64) = 0" using assms(2) by simp
  then show ?thesis by (simp add: marked_def)
qed

lemma tracker_empty:
  assumes "0 < N" "N < 2 ^ 64" "length bits = kWords N" "\<forall>w \<in> set bits. w = 0"
  shows "tracker_ok N {} \<lparr>rt_bits = bits, longest_free = N, nused = 0, nallocs = 0\<rparr>"
proof -
  have "\<not> marked bits j" if "j < N" for j using marked_zero [of j bits] kWords_bound(1) [of N] that assms(3,4) by simp
  then have "free_range (marked bits) N 0 N" by (simp add: free_range_def)
  then have "is_longest (marked bits) N N" by (auto simp: is_longest_def free_range_def)
  then show ?thesis using assms \<open>\<And>j. j < N \<Longrightarrow> \<not> marked bits j\<close>
    by (simp add: tracker_ok_def bitmap_ok_def allocations_ok_def covered_def used_def allocs_def)
qed

lemma tracker_init: "0 < N \<Longrightarrow> N < 2 ^ 64 \<Longrightarrow> tracker_ok N {} (RangeTracker N)"
  unfolding RangeTracker_def by (simp only: to_count_id order_refl) (simp add: tracker_empty empty_bitmap_def)

text \<open>
  C28: \<open>RangeTracker::FindAndMark\<close> always returns. When some free range is long enough it marks the front
  of a shortest maximal free range that is, so it allocates by best fit; the new allocation is disjoint from
  all live ones and the counters and the length of the longest free range stay exact. When no free range is
  long enough, its check fails.
\<close>

theorem find_and_mark_best_fit:
  assumes "tracker_ok N A rt" and "0 < n"
  shows "if n \<le> longest_free rt
    then \<exists>i l rt'. FindAndMark N n rt = Some (Inr (i, rt')) \<and> (i, n) \<notin> A \<and> tracker_ok N (insert (i, n) A) rt' \<and> n \<le> l
      \<and> max_range (marked (rt_bits rt)) N i l \<and> (\<forall>j k. max_range (marked (rt_bits rt)) N j k \<and> n \<le> k \<longrightarrow> l \<le> k)
    else FindAndMark N n rt = Some (Inl Assert_Failed)"
  using find_and_mark_run [OF assms] find_and_mark_too_long [OF assms(1)] by simp

theorem find_and_mark_best_fit_witness:
  "(\<exists>i rt'. FindAndMark 70 65 (RangeTracker 70) = Some (Inr (i, rt')) \<and> tracker_ok 70 {(i, 65)} rt')
     \<and> FindAndMark 70 71 (RangeTracker 70) = Some (Inl Assert_Failed)"
proof -
  have ok: "tracker_ok 70 {} (RangeTracker 70)" by (rule tracker_init) simp_all
  have "longest_free (RangeTracker 70) = 70" by (simp add: RangeTracker_def to_count_def count_width_def)
  then show ?thesis using find_and_mark_best_fit [OF ok, of 65] find_and_mark_best_fit [OF ok, of 71] by fastforce
qed

text \<open>
  C29: \<open>RangeTracker::Unmark\<close> of a live allocation returns with its assertion satisfied, removes exactly that
  allocation, and leaves the counters and the length of the longest free range exact.
\<close>

theorem unmark_exact:
  assumes "tracker_ok N A rt" and "(i, n) \<in> A"
  shows "\<exists>rt'. Unmark N i n rt = Inr rt' \<and> tracker_ok N (A - {(i, n)}) rt' \<and> used rt' + n = used rt
    \<and> total_free N rt' = total_free N rt + n \<and> longest_free rt \<le> longest_free rt'"
proof -
  obtain rt' where rt': "Unmark N i n rt = Inr rt'" "tracker_ok N (A - {(i, n)}) rt'" using unmark_run [OF assms] by blast
  note t = tracker_okD [OF assms(1)] and t' = tracker_okD [OF rt'(2)]
  have s: "sum snd A = n + sum snd (A - {(i, n)})" using sum.remove [OF t(9) assms(2), of snd] by simp
  have "free_range (marked (rt_bits rt')) N a l" if "free_range (marked (rt_bits rt)) N a l" for a l
    using that t(5) t'(5) allocations_remove(2) [OF t(4) assms(2)] by (auto simp: free_range_def)
  then have "longest_free rt \<le> longest_free rt'" using t(8) t'(8) unfolding is_longest_def by blast
  then show ?thesis using rt' s t(6) t'(6) allocations_bound(1) [OF t(4)] by (auto simp: total_free_def)
qed

theorem unmark_exact_witness:
  "\<exists>i rt rt'. FindAndMark 70 65 (RangeTracker 70) = Some (Inr (i, rt)) \<and> Unmark 70 i 65 rt = Inr rt' \<and> used rt' + 65 = used rt"
proof -
  have ok: "tracker_ok 70 {} (RangeTracker 70)" by (rule tracker_init) simp_all
  have "65 \<le> longest_free (RangeTracker 70)" by (simp add: RangeTracker_def to_count_def count_width_def)
  then obtain i rt where "FindAndMark 70 65 (RangeTracker 70) = Some (Inr (i, rt))" "tracker_ok 70 {(i, 65)} rt"
    using find_and_mark_run [OF ok, of 65] by auto
  then show ?thesis using unmark_exact [of 70 "{(i, 65)}" rt i 65] by fastforce
qed

lemma clear_restores:
  "tracker_ok N A rt \<Longrightarrow> rt_Clear N rt = RangeTracker N"
  by (auto simp: tracker_ok_def rt_Clear_def RangeTracker_def bitmap_ok_def ClearBitmap_def empty_bitmap_def map_replicate_const)

end
