(* ===== verification/Args.thy ===== *)
theory Args
  imports Prelude
begin

text \<open>
  The command line parser, \<open>src/lib/util/arg.h\<close> and \<open>src/lib/util/arg.cc\<close>. Arguments are
  registered with a short and an optional long name, a type and the address and size of the
  variable to set; \<open>parse_arguments\<close> walks the command line and stores the values. The
  parser leaves the process on every error, so a run ends in a value, an \<open>exit\<close> with a code
  and what was printed, an \<open>abort\<close>, or a fault. Memory is a map of bytes.
\<close>

section \<open>Types\<close>

text \<open>
  The enumerators carry a suffix, since the name of one of them is reserved. \<open>Cast\<close> stands for a number that is cast to the enumeration without being
  one of its values.
\<close>

datatype types = IntT | StringT | FloatT | SetT | HelpT | Cast nat

datatype exit_codes = SUCCESS_PARSE | SUCCESS_HELP | ERROR_PARSING_CMDLINE | ERROR_BAD_VARIABLE | ERROR_BAD_ARGUMENT
  | ERROR_UNKOWN_TYPE | ERROR_DUPLICATE_ARGUMENT | ERROR_DUPLICATE_VARIABLE | ERROR_UNKOWN

record argument_info =
  short_argument :: string
  long_argument :: "string option"
  help_message :: string
  var_name :: string
  var :: u64
  var_size :: u32
  arg_type :: types
  required :: bool
  argument_found :: bool

record argument_parser =
  nreq_remaining :: u32
  arguments :: "argument_info list"

datatype 'a run = Returns 'a | Exits exit_codes string | Aborts string | Faults fault

fun bind_run :: "'a run \<Rightarrow> ('a \<Rightarrow> 'b run) \<Rightarrow> 'b run" where
  "bind_run (Returns x) f = f x"
| "bind_run (Exits c s) f = Exits c s"
| "bind_run (Aborts s) f = Aborts s"
| "bind_run (Faults e) f = Faults e"

lemma bind_run_Returns_iff [simp]: "bind_run r f = Returns y \<longleftrightarrow> (\<exists>x. r = Returns x \<and> f x = Returns y)"
  by (cases r) auto

type_synonym bytes = "u64 \<Rightarrow> u8"

text \<open>
  The conversions between text and floating point numbers of the C library, and the strings in
  memory: for \<open>strtof\<close> and \<open>strtod\<close> the bits of the result and the number of characters read,
  for \<open>%f\<close> the text, for an address the null-terminated string there.
\<close>

record libc =
  strtof :: "string \<Rightarrow> u32 \<times> nat"
  strtod :: "string \<Rightarrow> u64 \<times> nat"
  print_f :: "u32 \<Rightarrow> string"
  print_lf :: "u64 \<Rightarrow> string"
  cstr :: "u64 \<Rightarrow> string"

section \<open>Memory\<close>

definition max_address :: u64 where
  "max_address = push_bit 48 1 - 1"

text \<open>An access of \<open>n\<close> bytes through a pointer to an object of \<open>sz\<close> bytes.\<close>

definition access :: "u64 \<Rightarrow> u32 \<Rightarrow> nat \<Rightarrow> unit run" where
  "access p sz n = (if p = 0 then Faults Null_Deref else if p > max_address \<or> unat sz < n then Faults Out_Of_Bounds else Returns ())"

definition load :: "bytes \<Rightarrow> u64 \<Rightarrow> nat \<Rightarrow> u64" where
  "load m p n = foldr (\<lambda>i w. push_bit 8 w OR ucast (m (p + of_nat i))) [0..<n] 0"

definition store :: "bytes \<Rightarrow> u64 \<Rightarrow> nat \<Rightarrow> u64 \<Rightarrow> bytes" where
  "store m p n v = fold (\<lambda>i m. m(p + of_nat i := ucast (drop_bit (8 * i) v))) [0..<n] m"

section \<open>Printing\<close>

definition pad :: "nat \<Rightarrow> nat \<Rightarrow> string \<Rightarrow> string" where
  "pad width precision s = (let t = take precision s in replicate (width - length t) (CHR '' '') @ t)"

definition usage_line :: "string \<Rightarrow> string \<Rightarrow> string \<Rightarrow> string \<Rightarrow> string \<Rightarrow> string" where
  "usage_line a b c d e = pad 16 20 a @ '','' @ pad 8 8 b @ '','' @ pad 16 16 c @ '','' @ pad 10 10 d @ '','' @ [CHR 0x09] @ e"

fun types_to_string :: "types \<Rightarrow> string option" where
  "types_to_string IntT = Some ''int''"
| "types_to_string StringT = Some ''string''"
| "types_to_string FloatT = Some ''float''"
| "types_to_string SetT = Some ''set''"
| "types_to_string HelpT = Some ''help''"
| "types_to_string (Cast n) = None"

fun exit_codes_to_string :: "exit_codes \<Rightarrow> string" where
  "exit_codes_to_string SUCCESS_PARSE = ''SUCCESS_PARSE''"
| "exit_codes_to_string SUCCESS_HELP = ''SUCCESS_HELP''"
| "exit_codes_to_string ERROR_PARSING_CMDLINE = ''ERROR_PARSING_CMDLINE''"
| "exit_codes_to_string ERROR_BAD_VARIABLE = ''ERROR_BAD_VARIABLE''"
| "exit_codes_to_string ERROR_BAD_ARGUMENT = ''ERROR_BAD_ARGUMENT''"
| "exit_codes_to_string ERROR_UNKOWN_TYPE = ''ERROR_UNKOWN_TYPE''"
| "exit_codes_to_string ERROR_DUPLICATE_ARGUMENT = ''ERROR_DUPLICATE_ARGUMENT''"
| "exit_codes_to_string ERROR_DUPLICATE_VARIABLE = ''ERROR_DUPLICATE_VARIABLE''"
| "exit_codes_to_string ERROR_UNKOWN = ''ERROR_UNKOWN''"

definition print_int :: "int \<Rightarrow> string" where
  "print_int i = (if i < 0 then CHR ''-'' # decimal (nat (- i)) else decimal (nat i))"

text \<open>Text that is printed before the rest of a run, and a run that leaves the process after printing.\<close>

fun prepend :: "string \<Rightarrow> string run \<Rightarrow> string run" where
  "prepend s (Returns t) = Returns (s @ t)"
| "prepend s (Exits c t) = Exits c (s @ t)"
| "prepend s (Aborts t) = Aborts (s @ t)"
| "prepend s (Faults e) = Faults e"

definition andthen :: "string run \<Rightarrow> string run \<Rightarrow> string run" where
  "andthen r1 r2 = bind_run r1 (\<lambda>s. prepend s r2)"

definition exit_with :: "exit_codes \<Rightarrow> string run \<Rightarrow> 'a run" where
  "exit_with c r = bind_run r (\<lambda>s. Exits c s)"

abbreviation nl :: string where
  "nl \<equiv> [CHR 0x0A]"

text \<open>The variable as a signed number, for the sizes that have one.\<close>

definition read_int :: "bytes \<Rightarrow> argument_info \<Rightarrow> int option run" where
  "read_int m ai =
     (let w = load m (var ai) (unat (var_size ai))
      in if var_size ai = 1 then bind_run (access (var ai) (var_size ai) 1) (\<lambda>_. Returns (Some (sint (ucast w :: u8))))
         else if var_size ai = 2 then bind_run (access (var ai) (var_size ai) 2) (\<lambda>_. Returns (Some (sint (ucast w :: u16))))
         else if var_size ai = 4 then bind_run (access (var ai) (var_size ai) 4) (\<lambda>_. Returns (Some (sint (ucast w :: u32))))
         else if var_size ai = 8 then bind_run (access (var ai) (var_size ai) 8) (\<lambda>_. Returns (Some (sint w)))
         else Returns None)"

definition weird_message :: string where
  "weird_message = ''Something really weird went wrong that I '' @ ''don'' @ [CHR 0x27] @ ''t understand'' @ nl"

definition print_value :: "libc \<Rightarrow> bytes \<Rightarrow> argument_info \<Rightarrow> string run" where
  "print_value L m ai =
     (case arg_type ai of
        IntT \<Rightarrow> bind_run (read_int m ai) (\<lambda>v. Returns (case v of None \<Rightarrow> ''N/A'' | Some i \<Rightarrow> print_int i))
      | StringT \<Rightarrow> bind_run (access (var ai) (var_size ai) 8) (\<lambda>_.
          let p = load m (var ai) 8 in Returns (if p = 0 then ''N/A'' else cstr L p))
      | FloatT \<Rightarrow>
          if var_size ai = 4 then bind_run (access (var ai) (var_size ai) 4) (\<lambda>_. Returns (print_f L (ucast (load m (var ai) 4))))
          else if var_size ai = 8 then bind_run (access (var ai) (var_size ai) 8) (\<lambda>_. Returns (print_lf L (load m (var ai) 8)))
          else Returns ''N/A''
      | SetT \<Rightarrow> bind_run (read_int m ai) (\<lambda>v. Returns (case v of None \<Rightarrow> ''N/A'' | Some i \<Rightarrow> print_int (if i \<noteq> 0 then 1 else 0)))
      | HelpT \<Rightarrow> Returns ''Help''
      | Cast n \<Rightarrow> Aborts weird_message)"

definition print_default :: "libc \<Rightarrow> bytes \<Rightarrow> argument_info \<Rightarrow> string run" where
  "print_default L m ai = prepend '' [Default = '' (andthen (print_value L m ai) (Returns '']''))"

definition print_arg_info :: "libc \<Rightarrow> bytes \<Rightarrow> argument_info \<Rightarrow> string run" where
  "print_arg_info L m ai =
     (let full = short_argument ai @ (case long_argument ai of None \<Rightarrow> [] | Some l \<Rightarrow> '', '' @ l)
      in case types_to_string (arg_type ai) of
           None \<Rightarrow> Faults Out_Of_Bounds
         | Some t \<Rightarrow> prepend (usage_line full t (var_name ai) (if required ai then ''True'' else ''False'') (help_message ai))
             (andthen (if required ai then Returns [] else print_default L m ai) (Returns nl)))"

section \<open>Checking an argument\<close>

definition check_var :: "u64 \<Rightarrow> u32 \<Rightarrow> exit_codes" where
  "check_var v sz =
     (if v = 0 \<or> v > max_address then ERROR_BAD_VARIABLE
      else if sz \<noteq> 1 \<and> sz \<noteq> 2 \<and> sz \<noteq> 4 \<and> sz \<noteq> 8 then ERROR_BAD_VARIABLE
      else SUCCESS_PARSE)"

definition check_type :: "types \<Rightarrow> exit_codes" where
  "check_type t = (if t \<noteq> IntT \<and> t \<noteq> StringT \<and> t \<noteq> FloatT \<and> t \<noteq> SetT \<and> t \<noteq> HelpT then ERROR_UNKOWN_TYPE else SUCCESS_PARSE)"

fun leading_dashes :: "string \<Rightarrow> nat" where
  "leading_dashes [] = 0"
| "leading_dashes (c # cs) = (if c = CHR ''-'' then Suc (leading_dashes cs) else 0)"

definition drop_leading_dashes :: "string \<Rightarrow> exit_codes" where
  "drop_leading_dashes argument =
     (let n = leading_dashes argument
      in if n = 0 \<or> n \<ge> 3 \<or> n = length argument then ERROR_BAD_ARGUMENT else SUCCESS_PARSE)"

text \<open>A \<open>char\<close> is a signed byte.\<close>

definition schar :: "char \<Rightarrow> int" where
  "schar c = (let n = of_char c in if n < 128 then n else n - 256)"

definition not_letter :: "char \<Rightarrow> bool" where
  "not_letter c \<longleftrightarrow> schar c < 65 \<or> (schar c > 90 \<and> schar c < 97) \<or> schar c > 122"

definition not_number :: "char \<Rightarrow> bool" where
  "not_number c \<longleftrightarrow> schar c < 48 \<or> schar c > 57"

definition invalid_argument_char :: "char \<Rightarrow> bool" where
  "invalid_argument_char c \<longleftrightarrow> not_letter c \<and> not_number c \<and> c \<noteq> CHR ''-''"

fun check_loop :: "bool \<Rightarrow> string \<Rightarrow> exit_codes" where
  "check_loop last_was_dash [] = SUCCESS_PARSE"
| "check_loop last_was_dash (c # cs) =
     (if invalid_argument_char c then ERROR_BAD_ARGUMENT
      else if last_was_dash \<and> c = CHR ''-'' then ERROR_BAD_ARGUMENT
      else check_loop (c = CHR ''-'') cs)"

definition check_argument :: "string \<Rightarrow> exit_codes" where
  "check_argument argument = check_loop False argument"

text \<open>A check of the long name, which may be absent.\<close>

fun check_long :: "(string \<Rightarrow> exit_codes) \<Rightarrow> string option \<Rightarrow> exit_codes" where
  "check_long f None = SUCCESS_PARSE"
| "check_long f (Some l) = f l"

definition preprocess_argument :: "string \<Rightarrow> string option \<Rightarrow> types \<Rightarrow> u64 \<Rightarrow> u32 \<Rightarrow> exit_codes" where
  "preprocess_argument sa la t v sz =
     (if t \<noteq> HelpT \<and> check_var v sz \<noteq> SUCCESS_PARSE then check_var v sz
      else if check_type t \<noteq> SUCCESS_PARSE then check_type t
      else if check_long drop_leading_dashes la \<noteq> SUCCESS_PARSE then check_long drop_leading_dashes la
      else if drop_leading_dashes sa \<noteq> SUCCESS_PARSE then drop_leading_dashes sa
      else check_long (\<lambda>l. check_argument (tl l)) la)"

section \<open>The parser\<close>

definition argument_format_print :: string where
  "argument_format_print = usage_line ''argument'' ''type'' ''variable name'' ''required'' (''help message'' @ nl)"

definition print_all :: "libc \<Rightarrow> bytes \<Rightarrow> argument_info list \<Rightarrow> string run" where
  "print_all L m ais = foldr (\<lambda>ai. andthen (print_arg_info L m ai)) ais (Returns [])"

definition usage :: "libc \<Rightarrow> bytes \<Rightarrow> argument_parser \<Rightarrow> string run" where
  "usage L m p = prepend argument_format_print (print_all L m (arguments p))"

definition exit_missing_error :: "libc \<Rightarrow> bytes \<Rightarrow> argument_parser \<Rightarrow> 'a run" where
  "exit_missing_error L m p = exit_with ERROR_PARSING_CMDLINE
     (andthen (usage L m p) (prepend (nl @ ''Error missing required argument'' @ nl @ nl)
       (print_all L m (filter (\<lambda>ai. argument_found ai = False \<and> required ai = True) (arguments p)))))"

definition exit_usage_success :: "libc \<Rightarrow> bytes \<Rightarrow> argument_parser \<Rightarrow> 'a run" where
  "exit_usage_success L m p = exit_with SUCCESS_PARSE (usage L m p)"

text \<open>\<open>msg\<close> is the formatted message.\<close>

definition exit_usage_error :: "libc \<Rightarrow> bytes \<Rightarrow> argument_parser \<Rightarrow> exit_codes \<Rightarrow> string \<Rightarrow> 'a run" where
  "exit_usage_error L m p error msg = exit_with error
     (prepend (''Error Processing Arguments: '' @ exit_codes_to_string error @ '' ->'' @ nl @ [CHR 0x09] @ msg @ nl) (usage L m p))"

definition exit_error :: "libc \<Rightarrow> bytes \<Rightarrow> exit_codes \<Rightarrow> argument_info \<Rightarrow> 'a run" where
  "exit_error L m error bad_argument = exit_with error
     (prepend (''Error Processing Arguments: '' @ exit_codes_to_string error @ '' ->'' @ nl @ nl @ argument_format_print)
       (print_arg_info L m bad_argument))"

definition has_name :: "string \<Rightarrow> argument_info \<Rightarrow> bool" where
  "has_name s ai \<longleftrightarrow> short_argument ai = s \<or> long_argument ai = Some s"

fun find_ai :: "string \<Rightarrow> argument_info list \<Rightarrow> nat option" where
  "find_ai s [] = None"
| "find_ai s (ai # ais) = (if has_name s ai then Some 0 else map_option Suc (find_ai s ais))"

definition find_ai_ptr :: "argument_parser \<Rightarrow> string \<Rightarrow> nat option" where
  "find_ai_ptr p s = find_ai s (arguments p)"

fun verify_loop :: "string \<Rightarrow> string option \<Rightarrow> u64 \<Rightarrow> argument_info list \<Rightarrow> exit_codes" where
  "verify_loop sa la v [] = SUCCESS_PARSE"
| "verify_loop sa la v (ai # ais) =
     (if var ai = v then ERROR_DUPLICATE_VARIABLE
      else if has_name sa ai then ERROR_DUPLICATE_ARGUMENT
      else if (case la of None \<Rightarrow> False | Some l \<Rightarrow> has_name l ai) then ERROR_DUPLICATE_ARGUMENT
      else verify_loop sa la v ais)"

definition verify_unique :: "argument_parser \<Rightarrow> string \<Rightarrow> string option \<Rightarrow> u64 \<Rightarrow> exit_codes" where
  "verify_unique p sa la v = verify_loop sa la v (arguments p)"

definition add_argument :: "libc \<Rightarrow> bytes \<Rightarrow> string \<Rightarrow> string option \<Rightarrow> bool \<Rightarrow> types \<Rightarrow> u64 \<Rightarrow> u32 \<Rightarrow> string \<Rightarrow> string
    \<Rightarrow> argument_parser \<Rightarrow> argument_parser run" where
  "add_argument L m sa la req t v sz name help p =
     (let ai = \<lparr>short_argument = sa, long_argument = la, help_message = help, var_name = name, var = v, var_size = sz,
                arg_type = t, required = req, argument_found = False\<rparr>;
          res = preprocess_argument sa la t v sz
      in if res \<noteq> SUCCESS_PARSE then exit_error L m res ai
         else let res = verify_unique p sa la v
              in if res \<noteq> SUCCESS_PARSE then exit_error L m res ai
                 else Returns (p\<lparr>nreq_remaining := nreq_remaining p + (if req then 1 else 0), arguments := arguments p @ [ai]\<rparr>))"

text \<open>The constructor, with the address of the variable \<open>verbose\<close>.\<close>

definition argument_parser :: "libc \<Rightarrow> bytes \<Rightarrow> u64 \<Rightarrow> argument_parser run" where
  "argument_parser L m verbose =
     bind_run (add_argument L m ''-h'' (Some ''--help'') False HelpT 0 0 ''N/A'' ''Print Usage'' \<lparr>nreq_remaining = 0, arguments = []\<rparr>)
       (add_argument L m ''-v'' (Some ''--verbose'') False IntT verbose 4 ''verbose'' ''Set Verbosity'')"

section \<open>Parsing the command line\<close>

definition isspace :: "char \<Rightarrow> bool" where
  "isspace c \<longleftrightarrow> c = CHR '' '' \<or> 9 \<le> schar c \<and> schar c \<le> 13"

definition isdigit :: "char \<Rightarrow> bool" where
  "isdigit c \<longleftrightarrow> \<not> not_number c"

definition digits_value :: "string \<Rightarrow> int" where
  "digits_value ds = foldl (\<lambda>v c. 10 * v + (schar c - 48)) 0 ds"

text \<open>\<open>strtol\<close> in base 10: the value, clamped to a \<open>long\<close>, and the number of characters read.\<close>

definition strtol :: "string \<Rightarrow> int \<times> nat" where
  "strtol s =
     (let ws = takeWhile isspace s; r = dropWhile isspace s;
          neg = (r \<noteq> [] \<and> hd r = CHR ''-''); k = (if neg \<or> (r \<noteq> [] \<and> hd r = CHR ''+'') then 1 else 0);
          ds = takeWhile isdigit (drop k r); v = (if neg then - digits_value ds else digits_value ds)
      in if ds = [] then (0, 0)
         else (max (- (2 ^ 63)) (min (2 ^ 63 - 1) v), length ws + k + length ds))"

text \<open>An element of the command line is a string with its address.\<close>

type_synonym cmdline = "(u64 \<times> string) list"

definition parse_value :: "libc \<Rightarrow> argument_parser \<Rightarrow> bytes \<Rightarrow> argument_info \<Rightarrow> u64 \<times> string \<Rightarrow> bytes run" where
  "parse_value L p m ai a =
     (case arg_type ai of
        IntT \<Rightarrow>
          let (v, n) = strtol (snd a)
          in if n = 0 then exit_usage_error L m p ERROR_PARSING_CMDLINE (''Int type had not parseable int value'' @ nl)
             else if unat (var_size ai) > 8 then Faults Out_Of_Bounds
             else bind_run (access (var ai) (var_size ai) (unat (var_size ai))) (\<lambda>_.
                    Returns (store m (var ai) (unat (var_size ai)) (of_int v)))
      | StringT \<Rightarrow> bind_run (access (var ai) (var_size ai) 8) (\<lambda>_. Returns (store m (var ai) 8 (fst a)))
      | FloatT \<Rightarrow>
          if var_size ai = 4 \<or> var_size ai = 8
          then let (v, n) = (if var_size ai = 4 then map_prod ucast id (strtof L (snd a)) else strtod L (snd a))
               in if n = 0 then exit_usage_error L m p ERROR_PARSING_CMDLINE (''Float type had not parseable float value'' @ nl)
                  else bind_run (access (var ai) (var_size ai) (unat (var_size ai))) (\<lambda>_.
                         Returns (store m (var ai) (unat (var_size ai)) v))
          else exit_usage_error L m p ERROR_PARSING_CMDLINE (''Float type of unknown size'' @ nl)
      | _ \<Rightarrow> Aborts weird_message)"

definition quoted :: "string \<Rightarrow> string" where
  "quoted s = [CHR 0x22] @ s @ [CHR 0x22]"

text \<open>Marking an argument as found, with the count of the required ones.\<close>

definition set_found :: "nat \<Rightarrow> argument_parser \<Rightarrow> argument_parser" where
  "set_found k p = p\<lparr>arguments := (arguments p)[k := (arguments p ! k)\<lparr>argument_found := True\<rparr>],
     nreq_remaining := nreq_remaining p - (if required (arguments p ! k) then 1 else 0)\<rparr>"

definition parse_option :: "libc \<Rightarrow> argument_parser \<Rightarrow> bytes \<Rightarrow> string \<Rightarrow> (argument_parser \<times> bytes \<times> nat option) run" where
  "parse_option L p m s =
     (case find_ai_ptr p s of
        None \<Rightarrow> exit_usage_error L m p ERROR_PARSING_CMDLINE (''Error argument '' @ quoted s @ '' unknown'' @ nl)
      | Some k \<Rightarrow>
          let ai = arguments p ! k
          in if argument_found ai = True
             then exit_usage_error L m p ERROR_PARSING_CMDLINE (''Error argument '' @ quoted s @ '' specified twice'' @ nl)
             else if var ai = 0 \<and> arg_type ai \<noteq> HelpT
             then exit_usage_error L m p ERROR_PARSING_CMDLINE
                    (''Error argument '' @ quoted s @ '' assosiated with invalid variable'' @ nl)
             else let p' = set_found k p
                  in case arg_type ai of
                       IntT \<Rightarrow> Returns (p', m, Some k)
                     | StringT \<Rightarrow> Returns (p', m, Some k)
                     | FloatT \<Rightarrow> Returns (p', m, Some k)
                     | SetT \<Rightarrow> bind_run (access (var ai) (var_size ai) 1) (\<lambda>_. Returns (p', store m (var ai) 1 1, None))
                     | HelpT \<Rightarrow> exit_usage_success L m p'
                     | Cast n \<Rightarrow> exit_usage_error L m p' ERROR_PARSING_CMDLINE (''Invalid type detected'' @ nl))"

text \<open>
  \<open>cur\<close> is the argument that expects a value. The message for a missing value has a \<open>%s\<close> for
  which no argument is passed.
\<close>

fun parse_args :: "libc \<Rightarrow> argument_parser \<Rightarrow> bytes \<Rightarrow> nat option \<Rightarrow> cmdline \<Rightarrow> (argument_parser \<times> bytes) run" where
  "parse_args L p m (Some k) [] = Faults Out_Of_Bounds"
| "parse_args L p m None [] = (if nreq_remaining p \<noteq> 0 then exit_missing_error L m p else Returns (p, m))"
| "parse_args L p m (Some k) (a # as) = bind_run (parse_value L p m (arguments p ! k) a) (\<lambda>m'. parse_args L p m' None as)"
| "parse_args L p m None (a # as) = bind_run (parse_option L p m (snd a)) (\<lambda>(p', m', cur). parse_args L p' m' cur as)"

definition parse_arguments :: "libc \<Rightarrow> argument_parser \<Rightarrow> bytes \<Rightarrow> cmdline \<Rightarrow> (argument_parser \<times> bytes) run" where
  "parse_arguments L p m cmdline =
     (case cmdline of [] \<Rightarrow> Faults Assert_Failed | a # as \<Rightarrow> parse_args L p m None as)"

section \<open>Bytes\<close>

lemma store_other: "(\<And>i. i < n \<Longrightarrow> x \<noteq> p + of_nat i) \<Longrightarrow> store m p n v x = m x"
  by (induction n) (simp_all add: store_def)

lemma store_byte:
  assumes "i < n" and "n \<le> 2 ^ 32"
  shows "store m p n v (p + of_nat i) = ucast (drop_bit (8 * i) v)"
  using assms
proof (induction n)
  case (Suc n)
  have "(of_nat i :: u64) \<noteq> of_nat n" if "i < n"
  proof
    assume "(of_nat i :: u64) = of_nat n"
    then have "i mod 2 ^ 64 = n mod 2 ^ 64" by (simp add: word_of_nat_eq_iff take_bit_eq_mod)
    then show False using that Suc.prems by simp
  qed
  then show ?case using Suc by (cases "i = n") (auto simp: store_def)
qed simp

lemma bit_load_from:
  "bit (foldr (\<lambda>i w. push_bit 8 w OR ucast (m (p + of_nat i))) [a..<a + n] (0 :: u64)) k
     \<longleftrightarrow> k < 64 \<and> k < 8 * n \<and> bit (m (p + of_nat (a + k div 8)) :: u8) (k mod 8)"
proof (induction n arbitrary: a k)
  case (Suc n)
  have split: "[a..<a + Suc n] = a # [Suc a..<Suc a + n]" by (simp add: upt_conv_Cons)
  show ?case
  proof (cases "k < 8")
    case True
    then show ?thesis unfolding split by (simp add: bit_simps)
  next
    case False
    then obtain j where j: "k = j + 8" using le_Suc_ex [of 8 k] by (auto simp: add.commute)
    have "bit (m (p + of_nat a) :: u8) k = False" using False bit_imp_le_length [of "m (p + of_nat a)" k] by auto
    moreover have "(j + 8) div 8 = Suc (j div 8)" by simp
    ultimately show ?thesis unfolding split using Suc.IH [of "Suc a" j] by (auto simp: j bit_simps algebra_simps)
  qed
qed simp

lemma bit_load: "bit (load m p n) k \<longleftrightarrow> k < 64 \<and> k < 8 * n \<and> bit (m (p + of_nat (k div 8))) (k mod 8)"
  unfolding load_def using bit_load_from [of m p 0 n k] by simp

lemma load_store:
  assumes "n \<le> 8"
  shows "load (store m p n v) p n = take_bit (8 * n) v"
proof (rule bit_word_eqI)
  fix k assume "k < LENGTH(64)"
  show "bit (load (store m p n v) p n) k = bit (take_bit (8 * n) v) k"
  proof (cases "k < 8 * n")
    case True
    then have "k div 8 < n" by (simp add: less_mult_imp_div_less mult.commute)
    then have "store m p n v (p + of_nat (k div 8)) = ucast (drop_bit (8 * (k div 8)) v)" using assms by (intro store_byte) simp_all
    then show ?thesis using True \<open>k < LENGTH(64)\<close> by (simp add: bit_load bit_take_bit_iff bit_ucast_iff bit_drop_bit_eq)
  qed (simp add: bit_load bit_take_bit_iff)
qed

lemma load_cong: "(\<And>i. i < n \<Longrightarrow> m (p + of_nat i) = m' (p + of_nat i)) \<Longrightarrow> load m p n = load m' p n"
  unfolding load_def by (intro foldr_cong) auto

section \<open>Registered arguments\<close>

definition takes_value :: "argument_info \<Rightarrow> bool" where
  "takes_value ai \<longleftrightarrow> arg_type ai \<in> {IntT, StringT, FloatT}"

text \<open>What \<open>add_argument\<close> ensures of an argument, and that a string variable holds a pointer.\<close>

definition checked :: "argument_info \<Rightarrow> bool" where
  "checked ai \<longleftrightarrow> (\<forall>n. arg_type ai \<noteq> Cast n)
     \<and> (arg_type ai \<noteq> HelpT \<longrightarrow> var ai \<noteq> 0 \<and> var ai \<le> max_address \<and> var_size ai \<in> {1, 2, 4, 8})"

definition holds_pointer :: "argument_info \<Rightarrow> bool" where
  "holds_pointer ai \<longleftrightarrow> (arg_type ai = StringT \<longrightarrow> var_size ai = 8)"

definition missing :: "argument_info \<Rightarrow> bool" where
  "missing ai \<longleftrightarrow> required ai \<and> \<not> argument_found ai"

definition clash :: "argument_info \<Rightarrow> argument_info \<Rightarrow> bool" where
  "clash a b \<longleftrightarrow> var a = var b \<or> (\<exists>s. has_name s a \<and> has_name s b)"

definition registry_ok :: "argument_parser \<Rightarrow> bool" where
  "registry_ok p \<longleftrightarrow> (\<forall>ai \<in> set (arguments p). checked ai) \<and> length (arguments p) < 2 ^ 32
     \<and> nreq_remaining p = of_nat (length (filter missing (arguments p)))
     \<and> (\<forall>i < length (arguments p). \<forall>j < length (arguments p). i \<noteq> j \<longrightarrow> \<not> clash (arguments p ! i) (arguments p ! j))"

lemma access_ok: "p \<noteq> 0 \<Longrightarrow> p \<le> max_address \<Longrightarrow> n \<le> unat sz \<Longrightarrow> access p sz n = Returns ()"
  by (simp add: access_def)

lemma checkedD:
  assumes "checked ai" and "arg_type ai \<noteq> HelpT"
  shows "var ai \<noteq> 0" "var ai \<le> max_address" "var_size ai = 1 \<or> var_size ai = 2 \<or> var_size ai = 4 \<or> var_size ai = 8"
    "unat (var_size ai) \<in> {1, 2, 4, 8}"
  using assms by (auto simp: checked_def)

lemma read_int_ok: "checked ai \<Longrightarrow> arg_type ai \<noteq> HelpT \<Longrightarrow> \<exists>v. read_int m ai = Returns v"
  using checkedD [of ai] by (auto simp: read_int_def access_ok Let_def)

lemma print_value_ok:
  assumes "checked ai" and "holds_pointer ai"
  shows "\<exists>s. print_value L m ai = Returns s"
proof (cases "arg_type ai")
  case IntT
  then show ?thesis using read_int_ok [OF assms(1), of m] by (auto simp: print_value_def)
next
  case StringT
  then show ?thesis using checkedD [OF assms(1)] assms(2) by (auto simp: print_value_def holds_pointer_def access_ok Let_def)
next
  case FloatT
  then show ?thesis using checkedD [OF assms(1)] by (auto simp: print_value_def access_ok)
next
  case SetT
  then show ?thesis using read_int_ok [OF assms(1), of m] by (auto simp: print_value_def)
qed (use assms in \<open>auto simp: print_value_def checked_def\<close>)

lemma print_arg_info_ok:
  assumes "checked ai" and "holds_pointer ai"
  shows "\<exists>s. print_arg_info L m ai = Returns s"
proof -
  obtain s where s: "print_value L m ai = Returns s" using print_value_ok [OF assms] by blast
  obtain t where t: "types_to_string (arg_type ai) = Some t" using assms(1) by (cases "arg_type ai") (auto simp: checked_def)
  show ?thesis by (simp add: print_arg_info_def t Let_def print_default_def s andthen_def)
qed

lemma print_all_ok: "(\<And>ai. ai \<in> set ais \<Longrightarrow> checked ai \<and> holds_pointer ai) \<Longrightarrow> \<exists>s. print_all L m ais = Returns s"
proof (induction ais)
  case (Cons ai ais)
  obtain s where s: "print_all L m ais = Returns s" using Cons by auto
  obtain t where t: "print_arg_info L m ai = Returns t" using print_arg_info_ok [of ai L m] Cons.prems by auto
  show ?case using s t by (simp add: print_all_def andthen_def)
qed (simp add: print_all_def)

definition printable :: "argument_parser \<Rightarrow> bool" where
  "printable p \<longleftrightarrow> (\<forall>ai \<in> set (arguments p). checked ai \<and> holds_pointer ai)"

lemma usage_ok: "printable p \<Longrightarrow> \<exists>s. usage L m p = Returns s"
  using print_all_ok [of "arguments p" L m] by (auto simp: usage_def printable_def)

lemma exit_usage_error_ok: "printable p \<Longrightarrow> \<exists>s. exit_usage_error L m p c msg = Exits c s"
  using usage_ok [of p L m] by (auto simp: exit_usage_error_def exit_with_def)

lemma exit_usage_success_ok: "printable p \<Longrightarrow> \<exists>s. exit_usage_success L m p = Exits SUCCESS_PARSE s"
  using usage_ok [of p L m] by (auto simp: exit_usage_success_def exit_with_def)

lemma exit_missing_error_ok:
  assumes "printable p"
  shows "\<exists>s. exit_missing_error L m p = Exits ERROR_PARSING_CMDLINE s"
proof -
  obtain t where "print_all L m (filter (\<lambda>ai. \<not> argument_found ai \<and> required ai) (arguments p)) = Returns t"
    using print_all_ok [of "filter (\<lambda>ai. \<not> argument_found ai \<and> required ai) (arguments p)" L m] assms by (auto simp: printable_def)
  then show ?thesis using usage_ok [OF assms, of L m] by (auto simp: exit_missing_error_def exit_with_def andthen_def)
qed

section \<open>Adding an argument\<close>

lemma preprocess_checked:
  "preprocess_argument sa la t v sz = SUCCESS_PARSE \<Longrightarrow> checked \<lparr>short_argument = sa, long_argument = la, help_message = help,
     var_name = name, var = v, var_size = sz, arg_type = t, required = req, argument_found = f\<rparr>"
  by (auto simp: preprocess_argument_def checked_def check_var_def check_type_def split: if_splits)

lemma verify_loop_clash:
  "verify_loop (short_argument a) (long_argument a) (var a) ais = SUCCESS_PARSE \<Longrightarrow> b \<in> set ais \<Longrightarrow> \<not> clash a b \<and> \<not> clash b a"
  by (induction ais) (auto simp: clash_def has_name_def split: if_splits option.splits)

lemma length_filter_snoc: "length (filter P (xs @ [x])) = length (filter P xs) + (if P x then 1 else 0)"
  by simp

lemma add_argument_registry:
  assumes ok: "registry_ok p" and room: "length (arguments p) + 1 < 2 ^ 32"
    and r: "add_argument L m sa la req t v sz name help p = Returns p'"
  shows "registry_ok p' \<and> arguments p' = arguments p @ [last (arguments p')] \<and> \<not> argument_found (last (arguments p'))"
proof -
  let ?a = "\<lparr>short_argument = sa, long_argument = la, help_message = help, var_name = name, var = v, var_size = sz,
     arg_type = t, required = req, argument_found = False\<rparr>"
  have pre: "preprocess_argument sa la t v sz = SUCCESS_PARSE" and ver: "verify_unique p sa la v = SUCCESS_PARSE"
    and p': "p' = p\<lparr>nreq_remaining := nreq_remaining p + (if req then 1 else 0), arguments := arguments p @ [?a]\<rparr>"
    using r by (auto simp: add_argument_def Let_def exit_error_def exit_with_def split: if_splits)
  have c: "\<not> clash ?a b \<and> \<not> clash b ?a" if "b \<in> set (arguments p)" for b
    using verify_loop_clash [of ?a "arguments p" b] ver that by (simp add: verify_unique_def)
  have "\<not> clash ((arguments p @ [?a]) ! i) ((arguments p @ [?a]) ! j)"
    if "i \<le> length (arguments p)" "j \<le> length (arguments p)" "i \<noteq> j" for i j
    using ok c that by (cases "i < length (arguments p)"; cases "j < length (arguments p)") (auto simp: registry_ok_def nth_append)
  moreover have "checked ?a" by (rule preprocess_checked [OF pre])
  ultimately show ?thesis using ok room unfolding p' by (auto simp: registry_ok_def missing_def less_Suc_eq_le add.commute)
qed

section \<open>Outcomes of the parser\<close>

definition statics :: "argument_parser \<Rightarrow> argument_info list" where
  "statics p = map (\<lambda>ai. ai\<lparr>argument_found := False\<rparr>) (arguments p)"

lemma find_ai_Some:
  "find_ai s ais = Some k \<Longrightarrow> k < length ais \<and> has_name s (ais ! k)"
  by (induction ais arbitrary: k) (auto split: if_splits)

lemma find_ai_None: "find_ai s ais = None \<Longrightarrow> ai \<in> set ais \<Longrightarrow> \<not> has_name s ai"
  by (induction ais) (auto split: if_splits)

lemma length_filter_update:
  assumes "k < length xs" and "\<not> P y"
  shows "length (filter P xs) = length (filter P (xs[k := y])) + (if P (xs ! k) then 1 else 0)"
  using assms by (subst id_take_nth_drop [OF assms(1)]) (simp add: upd_conv_take_nth_drop)

lemma set_found_statics: "k < length (arguments p) \<Longrightarrow> statics (set_found k p) = statics p"
  by (simp add: statics_def set_found_def map_update list_update_same_conv)

lemma set_found_nth:
  "i < length (arguments p) \<Longrightarrow> arguments (set_found k p) ! i = (if i = k then (arguments p ! i)\<lparr>argument_found := True\<rparr> else arguments p ! i)"
  by (auto simp: set_found_def nth_list_update)

lemma set_found_mem: "ai \<in> set (arguments (set_found k p)) \<Longrightarrow> k < length (arguments p) \<Longrightarrow> \<exists>b \<in> set (arguments p). \<exists>f. ai = b\<lparr>argument_found := f\<rparr>"
  by (auto simp: in_set_conv_nth set_found_nth set_found_def nth_list_update split: if_splits) (metis argument_info.surjective argument_info.update_convs(9) nth_mem)+

lemma found_irrelevant [simp]:
  "checked (ai\<lparr>argument_found := f\<rparr>) = checked ai" "holds_pointer (ai\<lparr>argument_found := f\<rparr>) = holds_pointer ai"
  "takes_value (ai\<lparr>argument_found := f\<rparr>) = takes_value ai" "has_name s (ai\<lparr>argument_found := f\<rparr>) = has_name s ai"
  "clash (ai\<lparr>argument_found := f\<rparr>) b = clash ai b" "clash b (ai\<lparr>argument_found := f\<rparr>) = clash b ai"
  by (simp_all add: checked_def holds_pointer_def takes_value_def has_name_def clash_def)

lemma printable_statics: "printable p \<longleftrightarrow> (\<forall>ai \<in> set (statics p). checked ai \<and> holds_pointer ai)"
  by (auto simp: printable_def statics_def)

lemma set_found_registry:
  assumes "registry_ok p" and "k < length (arguments p)" and "\<not> argument_found (arguments p ! k)"
  shows "registry_ok (set_found k p)"
proof -
  let ?y = "(arguments p ! k)\<lparr>argument_found := True\<rparr>"
  have len: "length (arguments (set_found k p)) = length (arguments p)" by (simp add: set_found_def)
  have "length (filter missing (arguments p)) = length (filter missing ((arguments p)[k := ?y])) + (if required (arguments p ! k) then 1 else 0)"
    using length_filter_update [OF assms(2), of missing ?y] assms(3) by (simp add: missing_def)
  then have "nreq_remaining (set_found k p) = of_nat (length (filter missing (arguments (set_found k p))))"
    using assms(1) by (simp add: set_found_def registry_ok_def)
  moreover have "checked ai" if "ai \<in> set (arguments (set_found k p))" for ai
    using set_found_mem [OF that assms(2)] assms(1) by (auto simp: registry_ok_def)
  moreover have "\<not> clash (arguments (set_found k p) ! i) (arguments (set_found k p) ! j)"
    if "i < length (arguments p)" "j < length (arguments p)" "i \<noteq> j" for i j
    using assms(1) that by (simp add: set_found_nth registry_ok_def)
  ultimately show ?thesis using assms(1) by (simp add: registry_ok_def len)
qed

lemma parse_option_cases:
  assumes "registry_ok p" and "printable p"
  obtains c t where "parse_option L p m s = Exits c t" "c = SUCCESS_PARSE \<or> c = ERROR_PARSING_CMDLINE"
  | k where "find_ai_ptr p s = Some k" "k < length (arguments p)" "\<not> argument_found (arguments p ! k)" "has_name s (arguments p ! k)"
      "takes_value (arguments p ! k)" "parse_option L p m s = Returns (set_found k p, m, Some k)"
  | k where "find_ai_ptr p s = Some k" "k < length (arguments p)" "\<not> argument_found (arguments p ! k)"
      "arg_type (arguments p ! k) = SetT" "parse_option L p m s = Returns (set_found k p, store m (var (arguments p ! k)) 1 1, None)"
proof (cases "find_ai_ptr p s")
  case None
  then show ?thesis using exit_usage_error_ok [OF assms(2)] that(1) by (metis (no_types, lifting) option.simps(4) parse_option_def)
next
  case (Some k)
  let ?ai = "arguments p ! k"
  have k: "k < length (arguments p)" "has_name s ?ai" using find_ai_Some [of s "arguments p" k] Some by (simp_all add: find_ai_ptr_def)
  then have ch: "checked ?ai" using assms(1) by (simp add: registry_ok_def)
  have pr: "printable (set_found k p)" using assms(2) set_found_statics [OF k(1)] by (simp add: printable_statics)
  have var0: "\<not> (var ?ai = 0 \<and> arg_type ?ai \<noteq> HelpT)" using ch by (auto simp: checked_def)
  show ?thesis
  proof (cases "argument_found ?ai")
    case True
    then have "parse_option L p m s = exit_usage_error L m p ERROR_PARSING_CMDLINE
        (''Error argument '' @ quoted s @ '' specified twice'' @ nl)"
      using Some by (simp add: parse_option_def)
    then show ?thesis using that(1) exit_usage_error_ok [OF assms(2)] by metis
  next
    case False
    note u = Some k(1) False
    have opt: "parse_option L p m s = (case arg_type ?ai of
        IntT \<Rightarrow> Returns (set_found k p, m, Some k) | StringT \<Rightarrow> Returns (set_found k p, m, Some k)
      | FloatT \<Rightarrow> Returns (set_found k p, m, Some k)
      | SetT \<Rightarrow> bind_run (access (var ?ai) (var_size ?ai) 1) (\<lambda>_. Returns (set_found k p, store m (var ?ai) 1 1, None))
      | HelpT \<Rightarrow> exit_usage_success L m (set_found k p)
      | Cast n \<Rightarrow> exit_usage_error L m (set_found k p) ERROR_PARSING_CMDLINE (''Invalid type detected'' @ nl))"
      using False var0 by (simp only: parse_option_def Some option.case Let_def simp_thms if_False)
    show ?thesis
    proof (cases "arg_type ?ai")
      case SetT
      then have "access (var ?ai) (var_size ?ai) 1 = Returns ()" using checkedD [OF ch] by (intro access_ok) auto
      then show ?thesis using that(3) u SetT opt by simp
    next
      case HelpT
      then have "parse_option L p m s = exit_usage_success L m (set_found k p)" using opt by simp
      then show ?thesis using that(1) exit_usage_success_ok [OF pr] by metis
    qed (use that(2) u k(2) opt ch in \<open>simp_all add: takes_value_def checked_def\<close>)
  qed
qed

lemma parse_value_cases:
  assumes "checked ai" and "holds_pointer ai" and "takes_value ai" and "printable p"
  obtains t where "parse_value L p m ai a = Exits ERROR_PARSING_CMDLINE t"
  | v where "parse_value L p m ai a = Returns (store m (var ai) (unat (var_size ai)) v)"
proof -
  have nh: "arg_type ai \<noteq> HelpT" using assms(3) by (auto simp: takes_value_def)
  note c = checkedD [OF assms(1) nh]
  have acc: "access (var ai) (var_size ai) (unat (var_size ai)) = Returns ()" using c by (intro access_ok) simp_all
  have le: "unat (var_size ai) \<le> 8" using c(4) by auto
  show thesis
  proof (cases "arg_type ai")
    case IntT
    obtain v n where v: "strtol (snd a) = (v, n)" by fastforce
    show ?thesis
    proof (cases "n = 0")
      case True
      then have "parse_value L p m ai a = exit_usage_error L m p ERROR_PARSING_CMDLINE (''Int type had not parseable int value'' @ nl)"
        using IntT v by (simp add: parse_value_def)
      then show ?thesis using that(1) exit_usage_error_ok [OF assms(4)] by metis
    next
      case False
      then show ?thesis using that(2) IntT v acc le by (simp add: parse_value_def)
    qed
  next
    case StringT
    then have "var_size ai = 8" using assms(2) by (simp add: holds_pointer_def)
    then show ?thesis using that(2) StringT acc by (simp add: parse_value_def)
  next
    case FloatT
    let ?v = "if var_size ai = 4 then map_prod ucast id (strtof L (snd a)) else strtod L (snd a)"
    obtain v n where v: "?v = (v, n)" by fastforce
    show ?thesis
    proof (cases "var_size ai = 4 \<or> var_size ai = 8")
      case True
      show ?thesis
      proof (cases "n = 0")
        case z: True
        have "parse_value L p m ai a = exit_usage_error L m p ERROR_PARSING_CMDLINE (''Float type had not parseable float value'' @ nl)"
          using FloatT True v z by (simp only: parse_value_def types.case if_True Let_def prod.case simp_thms)
        then show ?thesis using that(1) exit_usage_error_ok [OF assms(4)] by metis
      next
        case nz: False
        then have "parse_value L p m ai a = Returns (store m (var ai) (unat (var_size ai)) v)"
          using FloatT True v acc by (simp only: parse_value_def types.case if_True Let_def prod.case if_False bind_run.simps)
        then show ?thesis using that(2) by blast
      qed
    next
      case False
      then have "parse_value L p m ai a = exit_usage_error L m p ERROR_PARSING_CMDLINE (''Float type of unknown size'' @ nl)"
        using FloatT by (simp add: parse_value_def)
      then show ?thesis using that(1) exit_usage_error_ok [OF assms(4)] by metis
    qed
  qed (use assms in \<open>auto simp: takes_value_def\<close>)
qed

text \<open>The bytes of the registered variables.\<close>

definition var_bytes :: "argument_info list \<Rightarrow> u64 set" where
  "var_bytes ais = {var ai + of_nat i |ai i. ai \<in> set ais \<and> arg_type ai \<noteq> HelpT \<and> i < unat (var_size ai)}"

text \<open>The outcomes of a run that starts with the arguments \<open>ais\<close> and the memory \<open>m\<close>; \<open>dangling\<close> says that the command
  line ends where a value is expected.\<close>

fun outcome_ok :: "argument_info list \<Rightarrow> bytes \<Rightarrow> bool \<Rightarrow> (argument_parser \<times> bytes) run \<Rightarrow> bool" where
  "outcome_ok ais m dangling (Returns (p', m')) \<longleftrightarrow> registry_ok p' \<and> statics p' = ais \<and> \<not> (\<exists>ai \<in> set (arguments p'). missing ai)
     \<and> (\<forall>x. x \<notin> var_bytes ais \<longrightarrow> m' x = m x)"
| "outcome_ok ais m dangling (Exits c s) \<longleftrightarrow> c = SUCCESS_PARSE \<or> c = ERROR_PARSING_CMDLINE"
| "outcome_ok ais m dangling (Aborts s) \<longleftrightarrow> False"
| "outcome_ok ais m dangling (Faults e) \<longleftrightarrow> e = Out_Of_Bounds \<and> dangling"

definition dangling :: "argument_info list \<Rightarrow> nat option \<Rightarrow> cmdline \<Rightarrow> bool" where
  "dangling ais cur as \<longleftrightarrow> (if as = [] then cur \<noteq> None else \<exists>ai \<in> set ais. takes_value ai \<and> has_name (snd (last as)) ai)"

lemma outcome_ok_frame:
  "outcome_ok ais m' d r \<Longrightarrow> (\<And>x. x \<notin> var_bytes ais \<Longrightarrow> m' x = m x) \<Longrightarrow> (d \<Longrightarrow> d') \<Longrightarrow> outcome_ok ais m d' r"
  by (cases "(ais, m', d, r)" rule: outcome_ok.cases) auto

lemma statics_nth: "k < length (arguments p) \<Longrightarrow> (arguments p ! k)\<lparr>argument_found := False\<rparr> \<in> set (statics p)"
  by (auto simp: statics_def)

lemma store_frame:
  assumes "k < length (arguments p)" and "arg_type (arguments p ! k) \<noteq> HelpT" and "n \<le> unat (var_size (arguments p ! k))"
    and "x \<notin> var_bytes (statics p)"
  shows "store m (var (arguments p ! k)) n v x = m x"
proof (rule store_other)
  fix i assume "i < n"
  then have "var (arguments p ! k) + of_nat i \<in> var_bytes (statics p)"
    unfolding var_bytes_def using statics_nth [OF assms(1)] assms(2,3)
    by (auto intro!: exI [of _ "(arguments p ! k)\<lparr>argument_found := False\<rparr>"] exI [of _ i])
  then show "x \<noteq> var (arguments p ! k) + of_nat i" using assms(4) by blast
qed

lemma parse_args_outcome:
  assumes "registry_ok p" and "printable p" and "\<And>k. cur = Some k \<Longrightarrow> k < length (arguments p) \<and> takes_value (arguments p ! k)"
  shows "outcome_ok (statics p) m (dangling (statics p) cur as) (parse_args L p m cur as)"
  using assms
proof (induction L p m cur as rule: parse_args.induct)
  case (1 L p m k)
  then show ?case by (simp add: dangling_def)
next
  case (2 L p m)
  show ?case
  proof (cases "nreq_remaining p = 0")
    case True
    have "length (filter missing (arguments p)) < 2 ^ 32" using 2(1) by (intro le_less_trans [OF length_filter_le]) (simp add: registry_ok_def)
    then have "filter missing (arguments p) = []" using 2(1) True
      by (auto simp: registry_ok_def word_of_nat_eq_0_iff dest: dvd_imp_le)
    then show ?thesis using True 2(1) by (simp add: filter_empty_conv)
  next
    case False
    moreover obtain s where "(exit_missing_error L m p :: (argument_parser \<times> bytes) run) = Exits ERROR_PARSING_CMDLINE s"
      using exit_missing_error_ok [OF 2(2)] by blast
    ultimately show ?thesis by simp
  qed
next
  case (3 L p m k a as)
  have k: "k < length (arguments p)" "takes_value (arguments p ! k)" using 3(4) by simp_all
  have ai: "checked (arguments p ! k)" "holds_pointer (arguments p ! k)" "arg_type (arguments p ! k) \<noteq> HelpT"
    using 3(3) k by (auto simp: printable_def takes_value_def)
  show ?case
  proof (cases rule: parse_value_cases [OF ai(1,2) k(2) 3(3), of L m a])
    case (1 t)
    then show ?thesis by simp
  next
    case (2 v)
    have "outcome_ok (statics p) (store m (var (arguments p ! k)) (unat (var_size (arguments p ! k))) v) (dangling (statics p) None as)
        (parse_args L p (store m (var (arguments p ! k)) (unat (var_size (arguments p ! k))) v) None as)"
      using 3(1) [OF 3(2,3)] by simp
    then have "outcome_ok (statics p) m (dangling (statics p) (Some k) (a # as))
        (parse_args L p (store m (var (arguments p ! k)) (unat (var_size (arguments p ! k))) v) None as)"
      by (rule outcome_ok_frame) (auto simp: store_frame [OF k(1) ai(3)] dangling_def)
    then show ?thesis by (simp add: 2)
  qed
next
  case (4 L p m a as)
  show ?case
  proof (cases rule: parse_option_cases [OF 4(2,3), of L m "snd a"])
    case (1 c t)
    then show ?thesis by auto
  next
    case (2 k)
    note st = set_found_statics [OF 2(2)]
    have r: "registry_ok (set_found k p)" "printable (set_found k p)"
      using set_found_registry [OF 4(2) 2(2,3)] 4(3) by (simp_all add: printable_statics st)
    have "outcome_ok (statics p) m (dangling (statics p) (Some k) as) (parse_args L (set_found k p) m (Some k) as)"
      using 4(1) [of "set_found k p" "Some k" m] r 2(2,5)
      by (simp add: st set_found_nth) (simp add: set_found_def)
    then have "outcome_ok (statics p) m (dangling (statics p) None (a # as)) (parse_args L (set_found k p) m (Some k) as)"
      by (rule outcome_ok_frame) (use statics_nth [OF 2(2)] 2(4,5) in \<open>auto simp: dangling_def intro!: bexI [of _ "(arguments p ! k)\<lparr>argument_found := False\<rparr>"] split: if_splits\<close>)
    then show ?thesis by (simp add: 2)
  next
    case (3 k)
    note st = set_found_statics [OF 3(2)]
    have r: "registry_ok (set_found k p)" "printable (set_found k p)"
      using set_found_registry [OF 4(2) 3(2,3)] 4(3) by (simp_all add: printable_statics st)
    have c: "arg_type (arguments p ! k) \<noteq> HelpT" "Suc 0 \<le> unat (var_size (arguments p ! k))"
      using checkedD(4) [of "arguments p ! k"] 4(3) 3(2,4) by (auto simp: printable_def)
    let ?m = "store m (var (arguments p ! k)) 1 1"
    have "outcome_ok (statics p) ?m (dangling (statics p) None as) (parse_args L (set_found k p) ?m None as)"
      using 4(1) [of "set_found k p" None ?m] r by (simp add: st)
    then have "outcome_ok (statics p) m (dangling (statics p) None (a # as)) (parse_args L (set_found k p) ?m None as)"
      by (rule outcome_ok_frame) (auto simp: store_frame [OF 3(2) c] dangling_def)
    then show ?thesis by (simp add: 3)
  qed
qed

section \<open>Reading back numbers\<close>

lemma schar_digit: "d < 10 \<Longrightarrow> schar (char_of (48 + d)) = 48 + int d"
  using of_char_digit [of d] by (simp add: schar_def Let_def)

lemma decimal_digits: "\<forall>c \<in> set (decimal n). isdigit c"
proof (induction n rule: decimal.induct)
  case (1 n)
  then show ?case by (subst decimal.simps) (auto simp: isdigit_def not_number_def schar_digit)
qed

lemma decimal_nonempty: "decimal n \<noteq> []"
  by (subst decimal.simps) simp

lemma digits_value_decimal: "digits_value (decimal n) = int n"
proof (induction n rule: decimal.induct)
  case (1 n)
  show ?case
  proof (cases "n < 10")
    case True
    then show ?thesis by (subst decimal.simps) (simp add: digits_value_def schar_digit)
  next
    case False
    then have "digits_value (decimal n) = 10 * int (n div 10) + int (n mod 10)"
      using 1 by (subst decimal.simps) (simp add: digits_value_def schar_digit)
    then show ?thesis by presburger
  qed
qed

lemma digit_not_special: "isdigit c \<Longrightarrow> \<not> isspace c \<and> c \<noteq> CHR ''-'' \<and> c \<noteq> CHR ''+''"
  by (auto simp: isdigit_def not_number_def isspace_def schar_def Let_def)

lemma strtol_print_int:
  assumes "- (2 ^ 63) \<le> i" and "i < 2 ^ 63"
  shows "\<exists>n. strtol (print_int i) = (i, n) \<and> n \<noteq> 0"
proof -
  obtain c cs where d: "decimal (nat \<bar>i\<bar>) = c # cs" using decimal_nonempty by (meson list.exhaust)
  have dig: "\<forall>x \<in> set (c # cs). isdigit x" using decimal_digits [of "nat \<bar>i\<bar>"] unfolding d .
  have tw: "takeWhile isdigit (c # cs) = c # cs" using dig by (simp add: takeWhile_eq_all_conv)
  have v: "digits_value (c # cs) = \<bar>i\<bar>" using digits_value_decimal [of "nat \<bar>i\<bar>"] by (simp add: d)
  have minus: "\<not> isspace (CHR ''-'')" by (simp add: isspace_def schar_def)
  show ?thesis
  proof (cases "i < 0")
    case True
    then have "print_int i = CHR ''-'' # c # cs" using d by (simp add: print_int_def)
    then show ?thesis using True assms by (simp add: strtol_def Let_def minus tw v del: takeWhile.simps)
  next
    case False
    then have "print_int i = c # cs" using d by (simp add: print_int_def)
    moreover have "\<not> isspace c" "c \<noteq> CHR ''-''" "c \<noteq> CHR ''+''" using digit_not_special [of c] dig by auto
    ultimately show ?thesis using False assms by (simp add: strtol_def Let_def tw v del: takeWhile.simps)
  qed
qed

section \<open>Settings\<close>

text \<open>
  A setting \<open>(k, s, i)\<close> gives argument \<open>k\<close>, by its name \<open>s\<close>, the number \<open>i\<close>. The command line has the name and the
  number in decimal; \<open>at\<close> gives the addresses of the strings.
\<close>

type_synonym setting = "nat \<times> string \<times> int"

fun render :: "(string \<Rightarrow> u64) \<Rightarrow> setting list \<Rightarrow> cmdline" where
  "render at [] = []"
| "render at ((k, s, i) # xs) = (at s, s) # (at (print_int i), print_int i) # render at xs"

definition ai_bytes :: "argument_info \<Rightarrow> u64 set" where
  "ai_bytes ai = {var ai + of_nat j |j. j < unat (var_size ai)}"

definition setting_ok :: "argument_info list \<Rightarrow> setting \<Rightarrow> bool" where
  "setting_ok ais x \<longleftrightarrow> (case x of (k, s, i) \<Rightarrow> k < length ais \<and> has_name s (ais ! k) \<and> arg_type (ais ! k) = IntT
     \<and> - (2 ^ 63) \<le> i \<and> i < 2 ^ 63)"

definition apart_vars :: "argument_info list \<Rightarrow> bool" where
  "apart_vars ais \<longleftrightarrow> (\<forall>j < length ais. \<forall>k < length ais. j \<noteq> k \<longrightarrow> ai_bytes (ais ! j) \<inter> ai_bytes (ais ! k) = {})"

lemma find_ai_ptr_eq:
  assumes "registry_ok p" and "k < length (arguments p)" and "has_name s (arguments p ! k)"
  shows "find_ai_ptr p s = Some k"
proof (cases "find_ai_ptr p s")
  case None
  then show ?thesis using find_ai_None [of s "arguments p" "arguments p ! k"] assms by (simp add: find_ai_ptr_def)
next
  case (Some j)
  then have "j < length (arguments p)" "has_name s (arguments p ! j)" using find_ai_Some [of s "arguments p" j] by (simp_all add: find_ai_ptr_def)
  then have "j = k" using assms by (auto simp: registry_ok_def clash_def)
  then show ?thesis using Some by simp
qed

lemma set_found_fields:
  assumes "j < length (arguments p)"
  shows "var (arguments (set_found k p) ! j) = var (arguments p ! j)" "var_size (arguments (set_found k p) ! j) = var_size (arguments p ! j)"
    "arg_type (arguments (set_found k p) ! j) = arg_type (arguments p ! j)"
    "has_name s (arguments (set_found k p) ! j) = has_name s (arguments p ! j)"
    "ai_bytes (arguments (set_found k p) ! j) = ai_bytes (arguments p ! j)"
  using assms by (simp_all add: set_found_nth ai_bytes_def)

lemma set_found_length [simp]: "length (arguments (set_found k p)) = length (arguments p)"
  by (simp add: set_found_def)

lemma parse_setting:
  assumes "registry_ok p" and "printable p" and ok: "setting_ok (arguments p) (k, s, i)" and "\<not> argument_found (arguments p ! k)"
  shows "parse_args L p m None (render at ((k, s, i) # xs))
    = parse_args L (set_found k p) (store m (var (arguments p ! k)) (unat (var_size (arguments p ! k))) (of_int i)) None (render at xs)"
proof -
  have k: "k < length (arguments p)" "has_name s (arguments p ! k)" "arg_type (arguments p ! k) = IntT" "- (2 ^ 63) \<le> i" "i < 2 ^ 63"
    using ok by (simp_all add: setting_ok_def)
  have find: "find_ai_ptr p s = Some k" by (rule find_ai_ptr_eq [OF assms(1) k(1,2)])
  have ch: "checked (arguments p ! k)" using assms(1) k(1) by (simp add: registry_ok_def)
  have opt: "parse_option L p m s = Returns (set_found k p, m, Some k)"
    using assms(4) k(3) checkedD(1) [OF ch] by (simp add: parse_option_def find Let_def)
  obtain n where "strtol (print_int i) = (i, n)" "n \<noteq> 0" using strtol_print_int [OF k(4,5)] by blast
  then have "parse_value L (set_found k p) m (arguments (set_found k p) ! k) (at (print_int i), print_int i)
      = Returns (store m (var (arguments p ! k)) (unat (var_size (arguments p ! k))) (of_int i))"
    using checkedD [OF ch] k(3) by (auto simp: parse_value_def set_found_fields [OF k(1)] access_ok)
  then show ?thesis using opt by simp
qed

lemma missing_set_found:
  assumes "ai \<in> set (arguments (set_found k p))" and "missing ai" and "k < length (arguments p)"
  shows "\<exists>j < length (arguments p). j \<noteq> k \<and> missing (arguments p ! j) \<and> ai = arguments p ! j"
  using assms by (auto simp: in_set_conv_nth set_found_nth missing_def split: if_splits)

lemma parse_settings:
  assumes "registry_ok p" and "printable p" and "apart_vars (arguments p)"
    and "\<forall>x \<in> set xs. setting_ok (arguments p) x \<and> \<not> argument_found (arguments p ! fst x)" and "distinct (map fst xs)"
    and "\<forall>j < length (arguments p). missing (arguments p ! j) \<longrightarrow> j \<in> fst ` set xs"
  shows "\<exists>p' m'. parse_args L p m None (render at xs) = Returns (p', m')
    \<and> (\<forall>(k, s, i) \<in> set xs. load m' (var (arguments p ! k)) (unat (var_size (arguments p ! k)))
         = take_bit (8 * unat (var_size (arguments p ! k))) (of_int i))
    \<and> (\<forall>x. (\<forall>k \<in> fst ` set xs. x \<notin> ai_bytes (arguments p ! k)) \<longrightarrow> m' x = m x)"
  using assms
proof (induction xs arbitrary: p m)
  case Nil
  have "filter missing (arguments p) = []" using Nil.prems(6) by (auto simp: filter_empty_conv in_set_conv_nth)
  then show ?case using Nil.prems(1) by (simp add: registry_ok_def)
next
  case (Cons x xs)
  obtain k s i where x: "x = (k, s, i)" by (cases x) auto
  let ?p = "set_found k p" and ?ai = "arguments p ! k"
  let ?n = "unat (var_size ?ai)"
  let ?m = "store m (var ?ai) ?n (of_int i)"
  have ok: "setting_ok (arguments p) (k, s, i)" "\<not> argument_found ?ai" using Cons.prems(4) x by simp_all
  then have k: "k < length (arguments p)" "arg_type ?ai = IntT" by (simp_all add: setting_ok_def)
  have fresh: "k \<notin> fst ` set xs" using Cons.prems(5) x by simp
  have len: "j < length (arguments p)" if "(j, y) \<in> set xs" for j y using Cons.prems(4) that by (cases y) (force simp: setting_ok_def)
  have "registry_ok ?p" "printable ?p"
    using set_found_registry [OF Cons.prems(1) k(1) ok(2)] Cons.prems(2) by (simp_all add: printable_statics set_found_statics [OF k(1)])
  moreover have "apart_vars (arguments ?p)" using Cons.prems(3) by (simp add: apart_vars_def set_found_fields)
  moreover have "\<forall>y \<in> set xs. setting_ok (arguments ?p) y \<and> \<not> argument_found (arguments ?p ! fst y)"
  proof
    fix y assume y: "y \<in> set xs"
    obtain j t v where j: "y = (j, t, v)" by (cases y) auto
    have "j \<noteq> k" using fresh y j by force
    then show "setting_ok (arguments ?p) y \<and> \<not> argument_found (arguments ?p ! fst y)"
      using Cons.prems(4) y by (auto simp: j setting_ok_def set_found_nth)
  qed
  moreover have "\<forall>j < length (arguments ?p). missing (arguments ?p ! j) \<longrightarrow> j \<in> fst ` set xs"
    using Cons.prems(6) x by (auto simp: set_found_nth missing_def)
  ultimately obtain p' m' where r: "parse_args L ?p ?m None (render at xs) = Returns (p', m')"
      "\<forall>(j, t, v) \<in> set xs. load m' (var (arguments ?p ! j)) (unat (var_size (arguments ?p ! j)))
         = take_bit (8 * unat (var_size (arguments ?p ! j))) (of_int v)"
      "\<forall>x. (\<forall>j \<in> fst ` set xs. x \<notin> ai_bytes (arguments ?p ! j)) \<longrightarrow> m' x = ?m x"
    using Cons.IH [of ?p ?m] Cons.prems(5) by auto
  have frame: "m' y = ?m y" if "\<forall>j \<in> fst ` set xs. y \<notin> ai_bytes (arguments p ! j)" for y
    using r(3) that len by (force simp: set_found_fields)
  have "m' (var ?ai + of_nat j) = ?m (var ?ai + of_nat j)" if "j < ?n" for j
  proof (rule frame, rule ballI)
    fix l assume l: "l \<in> fst ` set xs"
    then have "l < length (arguments p)" "k \<noteq> l" using fresh len by auto
    then have "ai_bytes ?ai \<inter> ai_bytes (arguments p ! l) = {}" using Cons.prems(3) k(1) by (simp add: apart_vars_def)
    moreover have "var ?ai + of_nat j \<in> ai_bytes ?ai" using that by (auto simp: ai_bytes_def)
    ultimately show "var ?ai + of_nat j \<notin> ai_bytes (arguments p ! l)" by blast
  qed
  then have "load m' (var ?ai) ?n = load ?m (var ?ai) ?n" by (rule load_cong)
  also have "\<dots> = take_bit (8 * ?n) (of_int i)"
    using checkedD(4) [of ?ai] Cons.prems(1) k by (intro load_store) (auto simp: registry_ok_def)
  finally have first: "load m' (var ?ai) ?n = take_bit (8 * ?n) (of_int i)" .
  have "m' y = m y" if "\<forall>j \<in> insert k (fst ` set xs). y \<notin> ai_bytes (arguments p ! j)" for y
  proof -
    have "?m y = m y" using that by (intro store_other) (auto simp: ai_bytes_def)
    then show ?thesis using frame that by simp
  qed
  moreover have "parse_args L p m None (render at (x # xs)) = Returns (p', m')"
    unfolding x using parse_setting [OF Cons.prems(1,2) ok] r(1) by simp
  ultimately show ?case using r(2) first len unfolding x by (force simp: set_found_fields)
qed

section \<open>Properties\<close>

text \<open>A library without floating point numbers, for examples.\<close>

definition no_floats :: libc where
  "no_floats = \<lparr>strtof = \<lambda>_. (0, 0), strtod = \<lambda>_. (0, 0), print_f = \<lambda>_. [], print_lf = \<lambda>_. [], cstr = \<lambda>_. []\<rparr>"

text \<open>The parser that the constructor makes, with the arguments \<open>-h\<close> and \<open>-v\<close>.\<close>

definition fresh_parser :: "u64 \<Rightarrow> argument_parser" where
  "fresh_parser verbose = \<lparr>nreq_remaining = 0, arguments =
     [\<lparr>short_argument = ''-h'', long_argument = Some ''--help'', help_message = ''Print Usage'', var_name = ''N/A'',
        var = 0, var_size = 0, arg_type = HelpT, required = False, argument_found = False\<rparr>,
      \<lparr>short_argument = ''-v'', long_argument = Some ''--verbose'', help_message = ''Set Verbosity'', var_name = ''verbose'',
        var = verbose, var_size = 4, arg_type = IntT, required = False, argument_found = False\<rparr>]\<rparr>"

lemma parser_ctor:
  assumes "verbose \<noteq> 0" and "verbose \<le> max_address"
  shows "argument_parser L m verbose = Returns (fresh_parser verbose)"
proof -
  have check: "check_argument ''-help'' = SUCCESS_PARSE" "check_argument ''-verbose'' = SUCCESS_PARSE"
    by (simp_all add: check_argument_def invalid_argument_char_def not_letter_def not_number_def schar_def)
  then show ?thesis
    using assms by (simp add: argument_parser_def fresh_parser_def add_argument_def preprocess_argument_def check_var_def
        not_less [symmetric] check_type_def drop_leading_dashes_def verify_unique_def has_name_def)
qed

lemma fresh_parser_ok:
  assumes "verbose \<noteq> 0" and "verbose \<le> max_address"
  shows "registry_ok (fresh_parser verbose)" "printable (fresh_parser verbose)"
  using assms by (auto simp: registry_ok_def printable_def fresh_parser_def checked_def holds_pointer_def missing_def clash_def
      has_name_def less_Suc_eq)







end
