(* ===== verification/Linked_Lists.thy ===== *)
theory Linked_Lists
  imports Prelude
begin

text \<open>
  Doubly linked lists as their neighbour functions: \<open>dl nx pv p h xs\<close> says that the nodes
  \<open>xs\<close> are linked from the head \<open>h\<close> by \<open>nx\<close> and back by \<open>pv\<close>, with \<open>p\<close> before the first and 0
  behind the last. Linking a node at the head and unlinking a node change the functions at the
  neighbours only.
\<close>

fun dl :: "(u64 \<Rightarrow> u64) \<Rightarrow> (u64 \<Rightarrow> u64) \<Rightarrow> u64 \<Rightarrow> u64 \<Rightarrow> u64 list \<Rightarrow> bool" where
  "dl nx pv p h [] \<longleftrightarrow> h = 0"
| "dl nx pv p h (x # xs) \<longleftrightarrow> h = x \<and> x \<noteq> 0 \<and> pv x = p \<and> dl nx pv x (nx x) xs"

lemma dl_cong: "(\<And>x. x \<in> set xs \<Longrightarrow> nx x = nx' x \<and> pv x = pv' x) \<Longrightarrow> dl nx pv p h xs = dl nx' pv' p h xs"
  by (induction xs arbitrary: p h) auto

lemma dl_nonzero: "dl nx pv p h xs \<Longrightarrow> 0 \<notin> set xs"
  by (induction xs arbitrary: p h) auto

lemma dl_head: "dl nx pv p h xs \<Longrightarrow> h = (if xs = [] then 0 else hd xs)"
  by (cases xs) auto

lemma dl_unique: "dl nx pv p h xs \<Longrightarrow> dl nx pv q h ys \<Longrightarrow> xs = ys"
proof (induction xs arbitrary: p q h ys)
  case Nil
  then show ?case by (cases ys) auto
next
  case (Cons x xs)
  then show ?case by (cases ys) auto
qed

lemma dl_mid:
  "dl nx pv p h (xs @ x # ys) \<Longrightarrow> pv x = (if xs = [] then p else last xs) \<and> nx x = (if ys = [] then 0 else hd ys)
     \<and> h = (if xs = [] then x else hd xs)"
proof (induction xs arbitrary: p h)
  case Nil
  then show ?case using dl_head [of nx pv x "nx x" ys] by simp
next
  case (Cons a xs)
  then show ?case using Cons.IH [of a "nx a"] by auto
qed

lemma dl_push:
  assumes "dl nx pv 0 h xs" and "b \<noteq> 0" and "b \<notin> set xs" and "pv b = 0" and "distinct xs"
  shows "dl (nx(b := h)) (if h = 0 then pv else pv(h := b)) 0 b (b # xs)"
proof (cases xs)
  case Nil
  then show ?thesis using assms by simp
next
  case (Cons x ys)
  have "dl (nx(b := h)) (pv(x := b)) x (nx x) ys = dl nx pv x (nx x) ys"
    using assms(3,5) Cons by (intro dl_cong) auto
  then show ?thesis using assms Cons by auto
qed

lemma dl_unlink:
  assumes "dl nx pv p h (xs @ x # ys)" and "distinct (xs @ x # ys)"
  shows "dl (if xs = [] then nx else nx(last xs := nx x)) (if ys = [] then pv else pv(hd ys := pv x)) p (if xs = [] then nx x else h) (xs @ ys)"
  using assms
proof (induction xs arbitrary: p h)
  case Nil
  show ?case
  proof (cases ys)
    case (Cons y zs)
    have "dl nx (pv(y := p)) y (nx y) zs = dl nx pv y (nx y) zs" using Nil.prems(2) Cons by (intro dl_cong) auto
    then show ?thesis using Nil.prems Cons by (simp add: fun_upd_def)
  qed (use Nil in simp)
next
  case (Cons a xs)
  let ?nx = "nx(last (a # xs) := nx x)" and ?pv = "if ys = [] then pv else pv(hd ys := pv x)"
  have a: "h = a" "a \<noteq> 0" "pv a = p" "dl nx pv a (nx a) (xs @ x # ys)" using Cons.prems(1) by auto
  have tail: "dl (if xs = [] then nx else nx(last xs := nx x)) ?pv a (if xs = [] then nx x else nx a) (xs @ ys)"
    using Cons.IH [OF a(4)] Cons.prems(2) by simp
  have "dl ?nx ?pv a (?nx a) (xs @ ys)"
  proof (cases "xs = []")
    case True
    have "dl ?nx ?pv a (nx x) ys = dl nx ?pv a (nx x) ys" using Cons.prems(2) True by (intro dl_cong) auto
    then show ?thesis using True tail by simp
  next
    case False
    have "last xs \<noteq> a" using Cons.prems(2) False by (auto dest: last_in_set)
    then show ?thesis using False tail by simp
  qed
  moreover have "?pv a = p" using a(3) Cons.prems(2) by (cases ys) auto
  ultimately have "dl ?nx ?pv p h (a # xs @ ys)" using a(1,2) by (simp only: dl.simps simp_thms)
  then show ?case by (simp only: append_Cons list.distinct if_False)
qed

end
