(* ===== verification/Block_List.thy ===== *)
theory Block_List
  imports Bits Linked_Lists
begin

text \<open>
  The block list of \<open>src/lib/container/block_list.h\<close>, the container the allocator tests keep
  their regions in: objects live in blocks of 64 slots, and two doubly linked lists thread the
  blocks, one for iteration and one of the blocks with a free slot. The heap maps addresses to
  blocks; \<open>calloc\<close> and \<open>free\<close> add and remove blocks, and an access through a null pointer or to a
  freed block is a fault.
\<close>

section \<open>Blocks\<close>

text \<open>The nodes of a block; the index of a node is its position, and \<open>None\<close> is memory no object was built in.\<close>

record 'a node_block =
  node_slots :: u64
  next_iter :: u64
  prev_iter :: u64
  next_available :: u64
  prev_available :: u64
  nodes :: "'a option list"

record 'a block_list =
  iter_list :: u64
  available_list :: u64
  blocks :: "u64 \<Rightarrow> 'a node_block option"

text \<open>The address of a node and the way back; \<open>sz\<close> is the size of a node.\<close>

definition node_addr :: "u64 \<Rightarrow> u64 \<Rightarrow> nat \<Rightarrow> u64" where
  "node_addr sz b i = b + 40 + of_nat i * sz"

definition get_block :: "u64 \<Rightarrow> u64 \<Rightarrow> nat \<Rightarrow> u64" where
  "get_block sz n idx = n - (40 + of_nat idx * sz)"

definition drop_mask :: "nat \<Rightarrow> u64" where
  "drop_mask idx = push_bit idx 1"

definition blk :: "u64 \<Rightarrow> 'a block_list \<Rightarrow> 'a node_block result" where
  "blk b st = (if b = 0 then Inl Null_Deref else case blocks st b of None \<Rightarrow> Inl Out_Of_Bounds | Some k \<Rightarrow> Inr k)"

definition set_blk :: "u64 \<Rightarrow> ('a node_block \<Rightarrow> 'a node_block) \<Rightarrow> 'a block_list \<Rightarrow> 'a block_list result" where
  "set_blk b f st = bind_res (blk b st) (\<lambda>k. Inr (st\<lparr>blocks := (blocks st)(b \<mapsto> f k)\<rparr>))"

text \<open>\<open>new (nodes + idx) node(obj, idx)\<close>\<close>

definition set_node :: "nat \<Rightarrow> 'a \<Rightarrow> 'a node_block \<Rightarrow> 'a node_block" where
  "set_node idx obj k = k\<lparr>nodes := (nodes k)[idx := Some obj]\<rparr>"

definition zero_block :: "'a node_block" where
  "zero_block = \<lparr>node_slots = 0, next_iter = 0, prev_iter = 0, next_available = 0, prev_available = 0, nodes = replicate 64 None\<rparr>"

text \<open>\<open>node_block::insert\<close> of the block at \<open>b\<close>: the address of the node with the flag that the block is full in bit 0.\<close>

definition blk_insert :: "u64 \<Rightarrow> u64 \<Rightarrow> 'a \<Rightarrow> 'a block_list \<Rightarrow> (u64 \<times> 'a block_list) result" where
  "blk_insert sz b obj st =
     bind_res (blk b st) (\<lambda>k.
       let idx = unat (find_first_one (node_slots k)); slots = node_slots k AND (node_slots k - 1)
       in if idx \<ge> 64 then Inl Out_Of_Bounds
          else bind_res (set_blk b (\<lambda>k. set_node idx obj (k\<lparr>node_slots := slots\<rparr>)) st) (\<lambda>st'.
                 Inr (node_addr sz b idx OR (if slots = 0 then 1 else 0), st')))"

definition blk_init :: "u64 \<Rightarrow> 'a block_list \<Rightarrow> 'a block_list result" where
  "blk_init b st = set_blk b (\<lambda>k. k\<lparr>node_slots := NOT 1\<rparr>) st"

definition blk_drop :: "u64 \<Rightarrow> u64 \<Rightarrow> 'a block_list \<Rightarrow> (u64 \<times> 'a block_list) result" where
  "blk_drop b m st =
     bind_res (blk b st) (\<lambda>k.
     bind_res (set_blk b (\<lambda>k. k\<lparr>node_slots := node_slots k OR m\<rparr>) st) (\<lambda>st'. Inr (node_slots k OR m, st')))"

section \<open>Links\<close>

definition zero :: "'a block_list \<Rightarrow> 'a block_list" where
  "zero st = st\<lparr>iter_list := 0, available_list := 0\<rparr>"

definition link_available :: "u64 \<Rightarrow> 'a block_list \<Rightarrow> 'a block_list result" where
  "link_available b st =
     bind_res (set_blk b (\<lambda>k. k\<lparr>next_available := available_list st\<rparr>) st) (\<lambda>st1.
     bind_res (if available_list st1 \<noteq> 0 then set_blk (available_list st1) (\<lambda>k. k\<lparr>prev_available := b\<rparr>) st1 else Inr st1) (\<lambda>st2.
       Inr (st2\<lparr>available_list := b\<rparr>)))"

definition unlink_available :: "u64 \<Rightarrow> 'a block_list \<Rightarrow> 'a block_list result" where
  "unlink_available b st =
     bind_res (blk b st) (\<lambda>k.
     bind_res (if next_available k \<noteq> 0 then set_blk (next_available k) (\<lambda>n. n\<lparr>prev_available := prev_available k\<rparr>) st else Inr st) (\<lambda>st1.
       if prev_available k \<noteq> 0 then set_blk (prev_available k) (\<lambda>n. n\<lparr>next_available := next_available k\<rparr>) st1
       else Inr (st1\<lparr>available_list := next_available k\<rparr>)))"

definition link_block :: "u64 \<Rightarrow> 'a block_list \<Rightarrow> 'a block_list result" where
  "link_block b st =
     bind_res (set_blk b (\<lambda>k. k\<lparr>next_iter := iter_list st\<rparr>) st) (\<lambda>st1.
     bind_res (if iter_list st1 \<noteq> 0 then set_blk (iter_list st1) (\<lambda>k. k\<lparr>prev_iter := b\<rparr>) st1 else Inr st1) (\<lambda>st2.
       Inr (st2\<lparr>iter_list := b\<rparr>)))"

definition unlink_block :: "u64 \<Rightarrow> 'a block_list \<Rightarrow> 'a block_list result" where
  "unlink_block b st =
     bind_res (blk b st) (\<lambda>k.
     bind_res (if next_iter k \<noteq> 0 then set_blk (next_iter k) (\<lambda>n. n\<lparr>prev_iter := prev_iter k\<rparr>) st else Inr st) (\<lambda>st1.
       if prev_iter k \<noteq> 0 then set_blk (prev_iter k) (\<lambda>n. n\<lparr>next_iter := next_iter k\<rparr>) st1
       else Inr (st1\<lparr>iter_list := next_iter k\<rparr>)))"

section \<open>Insertion and removal\<close>

text \<open>\<open>_insert\<close>; \<open>fresh\<close> is what \<open>calloc\<close> returns when it is called.\<close>

definition insert_new :: "u64 \<Rightarrow> u64 \<Rightarrow> 'a \<Rightarrow> 'a block_list \<Rightarrow> (u64 \<times> 'a block_list) result" where
  "insert_new sz fresh obj st =
     bind_res (blk_init fresh (st\<lparr>blocks := (blocks st)(fresh \<mapsto> zero_block)\<rparr>)) (\<lambda>st1.
     bind_res (set_blk fresh (set_node 0 obj) st1) (\<lambda>st2.
     bind_res (link_block fresh st2) (\<lambda>st3.
     bind_res (link_available fresh st3) (\<lambda>st4. Inr (node_addr sz fresh 0, st4)))))"

definition insert_spare :: "u64 \<Rightarrow> 'a \<Rightarrow> 'a block_list \<Rightarrow> (u64 \<times> 'a block_list) result" where
  "insert_spare sz obj st =
     (let b = available_list st
      in bind_res (blk b st) (\<lambda>k.
         if node_slots k \<noteq> NOT 0 then Inl Assert_Failed
         else bind_res (set_blk b (set_node 0 obj) st) (\<lambda>st1.
              bind_res (blk_init b st1) (\<lambda>st2.
              bind_res (set_blk b (\<lambda>k. k\<lparr>next_iter := 0, prev_iter := 0\<rparr>) (st2\<lparr>iter_list := b\<rparr>)) (\<lambda>st3.
                Inr (node_addr sz b 0, st3))))))"

text \<open>The list of available blocks without its first one, which has become full.\<close>

definition advance_available :: "'a block_list \<Rightarrow> 'a block_list result" where
  "advance_available st =
     bind_res (blk (available_list st) st) (\<lambda>k.
     let st1 = st\<lparr>available_list := next_available k\<rparr>
     in if available_list st1 \<noteq> 0 then set_blk (available_list st1) (\<lambda>k. k\<lparr>prev_available := 0\<rparr>) st1 else Inr st1)"

definition insert_available :: "u64 \<Rightarrow> 'a \<Rightarrow> 'a block_list \<Rightarrow> (u64 \<times> 'a block_list) result" where
  "insert_available sz obj st =
     (let b = available_list st
      in bind_res (blk_insert sz b obj st) (\<lambda>(ret, st1).
         if ret AND 1 \<noteq> 0 then bind_res (advance_available st1) (\<lambda>st2. Inr (ret XOR 1, st2)) else Inr (ret, st1)))"

definition bl_insert :: "u64 \<Rightarrow> u64 \<Rightarrow> 'a \<Rightarrow> 'a block_list \<Rightarrow> (u64 \<times> 'a block_list) result" where
  "bl_insert sz fresh obj st =
     (if available_list st = 0 then insert_new sz fresh obj st
      else if iter_list st = 0 then insert_spare sz obj st
      else insert_available sz obj st)"

definition head :: "u64 \<Rightarrow> 'a block_list \<Rightarrow> u64 result" where
  "head sz st = bind_res (blk (iter_list st) st) (\<lambda>k. Inr (node_addr sz (iter_list st) (unat (find_first_one (NOT (node_slots k))))))"

definition free_block :: "u64 \<Rightarrow> 'a block_list \<Rightarrow> 'a block_list" where
  "free_block b st = st\<lparr>blocks := (blocks st)(b := None)\<rparr>"

definition pop :: "u64 \<Rightarrow> 'a block_list \<Rightarrow> (u64 \<times> 'a block_list) result" where
  "pop sz st =
     (let b = iter_list st
      in bind_res (blk b st) (\<lambda>k.
         let slots = NOT (node_slots k); n = node_addr sz b (unat (find_first_one slots))
         in bind_res (if slots = NOT 0 then link_available b st else Inr st) (\<lambda>st1.
            let slots' = slots AND (slots - 1)
            in if slots' = 0
               then bind_res (unlink_block b st1) (\<lambda>st2.
                    bind_res (blk (available_list st2) st2) (\<lambda>a.
                    if next_available a \<noteq> 0
                    then bind_res (unlink_available b st2) (\<lambda>st3. Inr (n, free_block b st3))
                    else bind_res (set_blk b (\<lambda>k. k\<lparr>node_slots := NOT slots'\<rparr>) st2) (\<lambda>st3. Inr (n, st3))))
               else bind_res (set_blk b (\<lambda>k. k\<lparr>node_slots := NOT slots'\<rparr>) st1) (\<lambda>st2. Inr (n, st2)))))"

text \<open>What \<open>remove\<close> and \<open>remove_batch\<close> do after the slots \<open>m\<close> of a block were dropped.\<close>

definition after_drop :: "u64 \<Rightarrow> u64 \<Rightarrow> u64 \<Rightarrow> 'a block_list \<Rightarrow> 'a block_list result" where
  "after_drop b m ret st =
     (if ret = m then link_available b st
      else if ret = NOT 0
      then bind_res (unlink_block b st) (\<lambda>st1.
           bind_res (blk (available_list st1) st1) (\<lambda>a.
           if next_available a \<noteq> 0 then bind_res (unlink_available b st1) (\<lambda>st2. Inr (free_block b st2))
           else Inr st1))
      else Inr st)"

definition remove_batch :: "u64 \<Rightarrow> u64 \<Rightarrow> 'a block_list \<Rightarrow> 'a block_list result" where
  "remove_batch b m st = bind_res (blk_drop b m st) (\<lambda>(ret, st1). after_drop b m ret st1)"

text \<open>\<open>n\<close> is the address of a node and \<open>idx\<close> the index stored in it.\<close>

definition remove :: "u64 \<Rightarrow> u64 \<Rightarrow> nat \<Rightarrow> 'a block_list \<Rightarrow> 'a block_list result" where
  "remove sz n idx st =
     (let b = get_block sz n idx
      in bind_res (blk_drop b (drop_mask idx) st) (\<lambda>(ret, st1). after_drop b (drop_mask idx) ret st1))"

section \<open>Iteration\<close>

record node_iterator =
  it_block :: u64
  cur_node_slots :: u64

definition nbegin :: "'a block_list \<Rightarrow> node_iterator result" where
  "nbegin st = (if iter_list st = 0 then Inr \<lparr>it_block = 0, cur_node_slots = 0\<rparr>
     else bind_res (blk (iter_list st) st) (\<lambda>k. Inr \<lparr>it_block = iter_list st, cur_node_slots = NOT (node_slots k)\<rparr>))"

definition it_get :: "u64 \<Rightarrow> node_iterator \<Rightarrow> u64" where
  "it_get sz it = node_addr sz (it_block it) (unat (find_first_one (cur_node_slots it)))"

definition it_end :: "node_iterator \<Rightarrow> bool" where
  "it_end it \<longleftrightarrow> it_block it = 0"

definition it_next :: "'a block_list \<Rightarrow> node_iterator \<Rightarrow> node_iterator result" where
  "it_next st it =
     (let slots = cur_node_slots it AND (cur_node_slots it - 1)
      in if slots = 0
         then bind_res (blk (it_block it) st) (\<lambda>k.
              if next_iter k \<noteq> 0 then bind_res (blk (next_iter k) st) (\<lambda>k'. Inr \<lparr>it_block = next_iter k, cur_node_slots = NOT (node_slots k')\<rparr>)
              else Inr \<lparr>it_block = 0, cur_node_slots = slots\<rparr>)
         else Inr (it\<lparr>cur_node_slots := slots\<rparr>))"

text \<open>The addresses an iteration visits.\<close>

partial_function (option) visits :: "u64 \<Rightarrow> 'a block_list \<Rightarrow> node_iterator \<Rightarrow> u64 list result option" where
  "visits sz st it =
     (if it_end it then Some (Inr [])
      else case it_next st it of
             Inl e \<Rightarrow> Some (Inl e)
           | Inr it' \<Rightarrow> Option.bind (visits sz st it') (\<lambda>r. Some (bind_res r (\<lambda>xs. Inr (it_get sz it # xs)))))"

text \<open>The two loops of \<open>check\<close>, over the available blocks and over the iteration list.\<close>

definition back_link :: "('a node_block \<Rightarrow> u64) \<Rightarrow> ('a node_block \<Rightarrow> u64) \<Rightarrow> 'a block_list \<Rightarrow> u64 \<Rightarrow> 'a node_block \<Rightarrow> unit result" where
  "back_link nx pv st p k =
     (if nx k \<noteq> 0 then bind_res (blk (nx k) st) (\<lambda>n. if pv n = p then Inr () else Inl Assert_Failed) else Inr ())"

partial_function (option) check_available :: "'a block_list \<Rightarrow> u64 \<Rightarrow> u32 \<Rightarrow> u32 result option" where
  "check_available st tmp count =
     (if tmp = 0 then Some (Inr count)
      else case blk tmp st of
             Inl e \<Rightarrow> Some (Inl e)
           | Inr k \<Rightarrow> if node_slots k = 0 then Some (Inl Assert_Failed)
                     else case back_link next_available prev_available st tmp k of
                            Inl e \<Rightarrow> Some (Inl e) | Inr _ \<Rightarrow> check_available st (next_available k) (count + 1))"

partial_function (option) check_iter :: "'a block_list \<Rightarrow> u64 \<Rightarrow> u32 \<Rightarrow> u32 result option" where
  "check_iter st tmp count =
     (if tmp = 0 then Some (Inr count)
      else case blk tmp st of
             Inl e \<Rightarrow> Some (Inl e)
           | Inr k \<Rightarrow> case back_link next_iter prev_iter st tmp k of
                        Inl e \<Rightarrow> Some (Inl e) | Inr _ \<Rightarrow> check_iter st (next_iter k) (if node_slots k \<noteq> 0 then count - 1 else count))"

definition check :: "'a block_list \<Rightarrow> unit result option" where
  "check st =
     Option.bind (check_available st (available_list st) 0) (\<lambda>r. case r of Inl e \<Rightarrow> Some (Inl e)
       | Inr count \<Rightarrow> Option.bind (check_iter st (iter_list st) count) (\<lambda>r. case r of Inl e \<Rightarrow> Some (Inl e)
           | Inr count' \<Rightarrow> Some (if count' = 0 \<or> count' = 1 then Inr () else Inl Assert_Failed)))"

section \<open>The linked lists\<close>

text \<open>
  Both lists have the same operations. The contract: linking a block that has no predecessor puts it
  at the head, unlinking a block takes it out, and neither changes anything but the links of its list.
\<close>

locale block_links =
  fixes hd_of :: "'a block_list \<Rightarrow> u64" and nx pv :: "'a block_list \<Rightarrow> u64 \<Rightarrow> u64" and rest :: "'a block_list \<Rightarrow> 'r"
    and link unlink :: "u64 \<Rightarrow> 'a block_list \<Rightarrow> 'a block_list result"
  assumes link_eq: "b \<noteq> 0 \<Longrightarrow> b \<in> dom (blocks st) \<Longrightarrow> hd_of st = 0 \<or> hd_of st \<in> dom (blocks st) \<Longrightarrow> hd_of st \<noteq> b \<Longrightarrow>
      \<exists>st'. link b st = Inr st' \<and> hd_of st' = b \<and> nx st' = (nx st)(b := hd_of st)
        \<and> pv st' = (if hd_of st = 0 then pv st else (pv st)(hd_of st := b)) \<and> rest st' = rest st \<and> dom (blocks st') = dom (blocks st)"
    and unlink_eq: "b \<noteq> 0 \<Longrightarrow> b \<in> dom (blocks st) \<Longrightarrow> nx st b = 0 \<or> nx st b \<in> dom (blocks st) \<Longrightarrow> pv st b = 0 \<or> pv st b \<in> dom (blocks st) \<Longrightarrow>
      nx st b \<noteq> b \<Longrightarrow> pv st b \<noteq> b \<Longrightarrow>
      \<exists>st'. unlink b st = Inr st' \<and> hd_of st' = (if pv st b = 0 then nx st b else hd_of st)
        \<and> nx st' = (if pv st b = 0 then nx st else (nx st)(pv st b := nx st b))
        \<and> pv st' = (if nx st b = 0 then pv st else (pv st)(nx st b := pv st b)) \<and> rest st' = rest st \<and> dom (blocks st') = dom (blocks st)"
begin

definition linked :: "'a block_list \<Rightarrow> u64 list \<Rightarrow> bool" where
  "linked st xs \<longleftrightarrow> dl (nx st) (pv st) 0 (hd_of st) xs \<and> distinct xs \<and> set xs \<subseteq> dom (blocks st)"

lemma link_ok:
  assumes "linked st xs" and "b \<noteq> 0" and "b \<in> dom (blocks st)" and "b \<notin> set xs" and "pv st b = 0"
  shows "\<exists>st'. link b st = Inr st' \<and> linked st' (b # xs) \<and> rest st' = rest st \<and> dom (blocks st') = dom (blocks st)
    \<and> (\<forall>x. x \<notin> set (b # xs) \<longrightarrow> nx st' x = nx st x \<and> pv st' x = pv st x)"
proof -
  have d: "dl (nx st) (pv st) 0 (hd_of st) xs" "distinct xs" "set xs \<subseteq> dom (blocks st)" using assms(1) by (simp_all add: linked_def)
  have h: "hd_of st = 0 \<and> xs = [] \<or> hd_of st \<in> set xs" using dl_head [OF d(1)] by auto
  then have "hd_of st = 0 \<or> hd_of st \<in> dom (blocks st)" "hd_of st \<noteq> b" using d(3) assms(2,4) by auto
  then obtain st' where st': "link b st = Inr st'" "hd_of st' = b" "nx st' = (nx st)(b := hd_of st)"
      "pv st' = (if hd_of st = 0 then pv st else (pv st)(hd_of st := b))" "rest st' = rest st" "dom (blocks st') = dom (blocks st)"
    using link_eq [OF assms(2,3)] by blast
  have "linked st' (b # xs)"
    unfolding linked_def st'(2-4,6) using dl_push [OF d(1) assms(2,4,5) d(2)] d assms by simp
  then show ?thesis using st' h by auto
qed

lemma unlink_ok:
  assumes "linked st (xs @ b # ys)"
  shows "\<exists>st'. unlink b st = Inr st' \<and> linked st' (xs @ ys) \<and> rest st' = rest st \<and> dom (blocks st') = dom (blocks st)
    \<and> (\<forall>x. x \<notin> set (xs @ ys) \<longrightarrow> nx st' x = nx st x \<and> pv st' x = pv st x)"
proof -
  have d: "dl (nx st) (pv st) 0 (hd_of st) (xs @ b # ys)" "distinct (xs @ b # ys)" "set (xs @ b # ys) \<subseteq> dom (blocks st)"
    using assms by (simp_all add: linked_def)
  have z: "0 \<notin> set (xs @ b # ys)" by (rule dl_nonzero [OF d(1)])
  have m: "pv st b = (if xs = [] then 0 else last xs)" "nx st b = (if ys = [] then 0 else hd ys)" using dl_mid [OF d(1)] by auto
  have g: "x \<noteq> 0 \<and> x \<noteq> b \<and> x \<in> dom (blocks st)" if "x \<in> set xs \<union> set ys" for x using that z d(2,3) by auto
  have l: "last xs \<noteq> 0" "last xs \<noteq> b" "last xs \<in> dom (blocks st)" if "xs \<noteq> []" using g [of "last xs"] that by simp_all
  have r: "hd ys \<noteq> 0" "hd ys \<noteq> b" "hd ys \<in> dom (blocks st)" if "ys \<noteq> []" using g [of "hd ys"] that by simp_all
  have "b \<noteq> 0" "b \<in> dom (blocks st)" "nx st b = 0 \<or> nx st b \<in> dom (blocks st)" "pv st b = 0 \<or> pv st b \<in> dom (blocks st)" "nx st b \<noteq> b" "pv st b \<noteq> b"
    using z d(3) m l r by auto
  from unlink_eq [OF this] obtain st' where st': "unlink b st = Inr st'" "hd_of st' = (if pv st b = 0 then nx st b else hd_of st)"
      "nx st' = (if pv st b = 0 then nx st else (nx st)(pv st b := nx st b))"
      "pv st' = (if nx st b = 0 then pv st else (pv st)(nx st b := pv st b))" "rest st' = rest st" "dom (blocks st') = dom (blocks st)"
    by blast
  have c: "(pv st b = 0) = (xs = [])" "(nx st b = 0) = (ys = [])" using m l r by auto
  have n: "nx st' = (if xs = [] then nx st else (nx st)(last xs := nx st b))" "pv st' = (if ys = [] then pv st else (pv st)(hd ys := pv st b))"
      "hd_of st' = (if xs = [] then nx st b else hd_of st)"
    unfolding st'(2-4) c using m by auto
  have "linked st' (xs @ ys)" unfolding linked_def n st'(6) using dl_unlink [OF d(1,2)] d(2,3) by auto
  moreover have "nx st' x = nx st x \<and> pv st' x = pv st x" if "x \<notin> set (xs @ ys)" for x
  proof -
    have "xs \<noteq> [] \<Longrightarrow> x \<noteq> last xs" "ys \<noteq> [] \<Longrightarrow> x \<noteq> hd ys" using that by auto
    then show ?thesis unfolding n by simp
  qed
  ultimately show ?thesis using st' by blast
qed

end

text \<open>The links of a state, and what the links of the other list leave alone.\<close>

definition fld :: "('a node_block \<Rightarrow> u64) \<Rightarrow> 'a block_list \<Rightarrow> u64 \<Rightarrow> u64" where
  "fld f st b = (case blocks st b of None \<Rightarrow> 0 | Some k \<Rightarrow> f k)"

definition body :: "'a block_list \<Rightarrow> u64 \<Rightarrow> (u64 \<times> 'a option list) option" where
  "body st b = map_option (\<lambda>k. (node_slots k, nodes k)) (blocks st b)"

abbreviation iter_part :: "'a block_list \<Rightarrow> u64 \<times> (u64 \<Rightarrow> u64) \<times> (u64 \<Rightarrow> u64) \<times> (u64 \<Rightarrow> (u64 \<times> 'a option list) option)" where
  "iter_part st \<equiv> (iter_list st, fld next_iter st, fld prev_iter st, body st)"

abbreviation avail_part :: "'a block_list \<Rightarrow> u64 \<times> (u64 \<Rightarrow> u64) \<times> (u64 \<Rightarrow> u64) \<times> (u64 \<Rightarrow> (u64 \<times> 'a option list) option)" where
  "avail_part st \<equiv> (available_list st, fld next_available st, fld prev_available st, body st)"

lemma set_blk_ok: "b \<noteq> 0 \<Longrightarrow> blocks st b = Some k \<Longrightarrow> set_blk b f st = Inr (st\<lparr>blocks := (blocks st)(b \<mapsto> f k)\<rparr>)"
  by (simp add: set_blk_def blk_def)

lemma blk_ok: "b \<noteq> 0 \<Longrightarrow> blocks st b = Some k \<Longrightarrow> blk b st = Inr k"
  by (simp add: blk_def)

lemmas links_simps = fld_def body_def fun_eq_iff

lemma link_available_eq:
  assumes "b \<noteq> 0" and "blocks st b = Some k" and "available_list st \<noteq> b"
  shows "available_list st = 0 \<Longrightarrow> link_available b st = Inr (st\<lparr>blocks := (blocks st)(b \<mapsto> k\<lparr>next_available := 0\<rparr>), available_list := b\<rparr>)"
    and "available_list st \<noteq> 0 \<Longrightarrow> blocks st (available_list st) = Some n \<Longrightarrow> link_available b st
      = Inr (st\<lparr>blocks := (blocks st)(b \<mapsto> k\<lparr>next_available := available_list st\<rparr>, available_list st \<mapsto> n\<lparr>prev_available := b\<rparr>), available_list := b\<rparr>)"
  using assms by (simp_all add: link_available_def set_blk_ok del: bind_res_Inr_iff)

lemma unlink_available_eq:
  assumes "b \<noteq> 0" and "blocks st b = Some k"
  shows "unlink_available b st = bind_res (if next_available k \<noteq> 0 then set_blk (next_available k) (\<lambda>n. n\<lparr>prev_available := prev_available k\<rparr>) st else Inr st) (\<lambda>st1.
       if prev_available k \<noteq> 0 then set_blk (prev_available k) (\<lambda>n. n\<lparr>next_available := next_available k\<rparr>) st1 else Inr (st1\<lparr>available_list := next_available k\<rparr>))"
  using assms by (simp add: unlink_available_def blk_ok del: bind_res_Inr_iff)

interpretation av: block_links available_list "fld next_available" "fld prev_available" iter_part link_available unlink_available
proof
  fix b :: u64 and st :: "'a block_list"
  assume b: "b \<noteq> 0" "b \<in> dom (blocks st)" "available_list st = 0 \<or> available_list st \<in> dom (blocks st)" "available_list st \<noteq> b"
  obtain k where k: "blocks st b = Some k" using b(2) by auto
  show "\<exists>st'. link_available b st = Inr st' \<and> available_list st' = b \<and> fld next_available st' = (fld next_available st)(b := available_list st)
      \<and> fld prev_available st' = (if available_list st = 0 then fld prev_available st else (fld prev_available st)(available_list st := b))
      \<and> iter_part st' = iter_part st \<and> dom (blocks st') = dom (blocks st)"
  proof (cases "available_list st = 0")
    case True
    then show ?thesis using k by (simp only: link_available_eq(1) [OF b(1) k b(4) True]) (auto simp: links_simps)
  next
    case False
    then obtain n where n: "blocks st (available_list st) = Some n" using b(3) by auto
    show ?thesis using k n False b(4) by (simp only: link_available_eq(2) [OF b(1) k b(4) False n]) (auto simp: links_simps)
  qed
next
  fix b :: u64 and st :: "'a block_list"
  let ?n = "fld next_available st b" and ?p = "fld prev_available st b"
  assume b: "b \<noteq> 0" "b \<in> dom (blocks st)" "?n = 0 \<or> ?n \<in> dom (blocks st)" "?p = 0 \<or> ?p \<in> dom (blocks st)" "?n \<noteq> b" "?p \<noteq> b"
  obtain k where k: "blocks st b = Some k" using b(2) by auto
  have np: "?n = next_available k" "?p = prev_available k" by (simp_all add: fld_def k)
  show "\<exists>st'. unlink_available b st = Inr st' \<and> available_list st' = (if ?p = 0 then ?n else available_list st)
      \<and> fld next_available st' = (if ?p = 0 then fld next_available st else (fld next_available st)(?p := ?n))
      \<and> fld prev_available st' = (if ?n = 0 then fld prev_available st else (fld prev_available st)(?n := ?p))
      \<and> iter_part st' = iter_part st \<and> dom (blocks st') = dom (blocks st)"
    using b(3-6) k unfolding np unlink_available_eq [OF b(1) k]
    by (cases "next_available k = 0"; cases "prev_available k = 0"; cases "next_available k = prev_available k") (auto simp: links_simps set_blk_ok)
qed

lemma link_block_eq:
  assumes "b \<noteq> 0" and "blocks st b = Some k" and "iter_list st \<noteq> b"
  shows "iter_list st = 0 \<Longrightarrow> link_block b st = Inr (st\<lparr>blocks := (blocks st)(b \<mapsto> k\<lparr>next_iter := 0\<rparr>), iter_list := b\<rparr>)"
    and "iter_list st \<noteq> 0 \<Longrightarrow> blocks st (iter_list st) = Some n \<Longrightarrow> link_block b st
      = Inr (st\<lparr>blocks := (blocks st)(b \<mapsto> k\<lparr>next_iter := iter_list st\<rparr>, iter_list st \<mapsto> n\<lparr>prev_iter := b\<rparr>), iter_list := b\<rparr>)"
  using assms by (simp_all add: link_block_def set_blk_ok del: bind_res_Inr_iff)

lemma unlink_block_eq:
  assumes "b \<noteq> 0" and "blocks st b = Some k"
  shows "unlink_block b st = bind_res (if next_iter k \<noteq> 0 then set_blk (next_iter k) (\<lambda>n. n\<lparr>prev_iter := prev_iter k\<rparr>) st else Inr st) (\<lambda>st1.
       if prev_iter k \<noteq> 0 then set_blk (prev_iter k) (\<lambda>n. n\<lparr>next_iter := next_iter k\<rparr>) st1 else Inr (st1\<lparr>iter_list := next_iter k\<rparr>))"
  using assms by (simp add: unlink_block_def blk_ok del: bind_res_Inr_iff)

interpretation it: block_links iter_list "fld next_iter" "fld prev_iter" avail_part link_block unlink_block
proof
  fix b :: u64 and st :: "'a block_list"
  assume b: "b \<noteq> 0" "b \<in> dom (blocks st)" "iter_list st = 0 \<or> iter_list st \<in> dom (blocks st)" "iter_list st \<noteq> b"
  obtain k where k: "blocks st b = Some k" using b(2) by auto
  show "\<exists>st'. link_block b st = Inr st' \<and> iter_list st' = b \<and> fld next_iter st' = (fld next_iter st)(b := iter_list st)
      \<and> fld prev_iter st' = (if iter_list st = 0 then fld prev_iter st else (fld prev_iter st)(iter_list st := b))
      \<and> avail_part st' = avail_part st \<and> dom (blocks st') = dom (blocks st)"
  proof (cases "iter_list st = 0")
    case True
    then show ?thesis using k by (simp only: link_block_eq(1) [OF b(1) k b(4) True]) (auto simp: links_simps)
  next
    case False
    then obtain n where n: "blocks st (iter_list st) = Some n" using b(3) by auto
    show ?thesis using k n False b(4) by (simp only: link_block_eq(2) [OF b(1) k b(4) False n]) (auto simp: links_simps)
  qed
next
  fix b :: u64 and st :: "'a block_list"
  let ?n = "fld next_iter st b" and ?p = "fld prev_iter st b"
  assume b: "b \<noteq> 0" "b \<in> dom (blocks st)" "?n = 0 \<or> ?n \<in> dom (blocks st)" "?p = 0 \<or> ?p \<in> dom (blocks st)" "?n \<noteq> b" "?p \<noteq> b"
  obtain k where k: "blocks st b = Some k" using b(2) by auto
  have np: "?n = next_iter k" "?p = prev_iter k" by (simp_all add: fld_def k)
  show "\<exists>st'. unlink_block b st = Inr st' \<and> iter_list st' = (if ?p = 0 then ?n else iter_list st)
      \<and> fld next_iter st' = (if ?p = 0 then fld next_iter st else (fld next_iter st)(?p := ?n))
      \<and> fld prev_iter st' = (if ?n = 0 then fld prev_iter st else (fld prev_iter st)(?n := ?p))
      \<and> avail_part st' = avail_part st \<and> dom (blocks st') = dom (blocks st)"
    using b(3-6) k unfolding np unlink_block_eq [OF b(1) k]
    by (cases "next_iter k = 0"; cases "prev_iter k = 0"; cases "next_iter k = prev_iter k") (auto simp: links_simps set_blk_ok)
qed

section \<open>The invariant\<close>

definition slots :: "'a block_list \<Rightarrow> u64 \<Rightarrow> u64" where
  "slots st b = (case body st b of None \<Rightarrow> 0 | Some (s, n) \<Rightarrow> s)"

definition objs :: "'a block_list \<Rightarrow> u64 \<Rightarrow> 'a option list" where
  "objs st b = (case body st b of None \<Rightarrow> [] | Some (s, n) \<Rightarrow> n)"

definition live :: "'a block_list \<Rightarrow> u64 \<Rightarrow> nat \<Rightarrow> bool" where
  "live st b i \<longleftrightarrow> i < 64 \<and> \<not> bit (slots st b) i"

text \<open>
  The blocks \<open>I\<close> of the iteration list hold an object each, those of them with a free slot are the list \<open>A\<close>, and only
  when the list is empty there may be a spare block on \<open>A\<close>, with no object in it.
\<close>

definition blk_inv :: "'a block_list \<Rightarrow> u64 list \<Rightarrow> u64 \<Rightarrow> bool" where
  "blk_inv st A b \<longleftrightarrow> slots st b \<noteq> NOT 0 \<and> (b \<in> set A \<longleftrightarrow> slots st b \<noteq> 0) \<and> (slots st b = 0 \<longrightarrow> fld prev_available st b = 0)
     \<and> (\<forall>i. live st b i \<longrightarrow> objs st b ! i \<noteq> None)"

definition bl_inv :: "'a block_list \<Rightarrow> u64 list \<Rightarrow> u64 list \<Rightarrow> bool" where
  "bl_inv st I A \<longleftrightarrow> it.linked st I \<and> av.linked st A \<and> dom (blocks st) = set I \<union> set A
     \<and> (\<forall>b \<in> dom (blocks st). even b \<and> length (objs st b) = 64) \<and> (\<forall>b \<in> set I. blk_inv st A b)
     \<and> (\<forall>b \<in> set A - set I. I = [] \<and> A = [b] \<and> slots st b = NOT 0)"

text \<open>The objects that an iteration reaches, by block and slot.\<close>

definition content :: "'a block_list \<Rightarrow> u64 list \<Rightarrow> u64 \<times> nat \<Rightarrow> 'a option" where
  "content st I p = (case p of (b, i) \<Rightarrow> if b \<in> set I \<and> live st b i then objs st b ! i else None)"

lemma it_linked_cong:
  "iter_list st' = iter_list st \<Longrightarrow> fld next_iter st' = fld next_iter st \<Longrightarrow> fld prev_iter st' = fld prev_iter st \<Longrightarrow>
     dom (blocks st') = dom (blocks st) \<Longrightarrow> it.linked st' I = it.linked st I"
  by (simp add: it.linked_def)

lemma av_linked_cong:
  "available_list st' = available_list st \<Longrightarrow> fld next_available st' = fld next_available st \<Longrightarrow>
     fld prev_available st' = fld prev_available st \<Longrightarrow> dom (blocks st') = dom (blocks st) \<Longrightarrow> av.linked st' A = av.linked st A"
  by (simp add: av.linked_def)

text \<open>A change of the body of one block.\<close>

definition same_links :: "'a block_list \<Rightarrow> 'a block_list \<Rightarrow> bool" where
  "same_links st st' \<longleftrightarrow> iter_list st' = iter_list st \<and> available_list st' = available_list st
     \<and> fld next_iter st' = fld next_iter st \<and> fld prev_iter st' = fld prev_iter st
     \<and> fld next_available st' = fld next_available st \<and> fld prev_available st' = fld prev_available st
     \<and> dom (blocks st') = dom (blocks st)"

lemma same_links_linked:
  "same_links st st' \<Longrightarrow> it.linked st' I = it.linked st I" "same_links st st' \<Longrightarrow> av.linked st' A = av.linked st A"
  by (simp_all add: same_links_def it.linked_def av.linked_def)

lemma set_body:
  assumes "b \<noteq> 0" and "b \<in> dom (blocks st)"
    and "\<And>k. next_iter (f k) = next_iter k \<and> prev_iter (f k) = prev_iter k \<and> next_available (f k) = next_available k
      \<and> prev_available (f k) = prev_available k"
    and "\<And>k. blocks st b = Some k \<Longrightarrow> node_slots (f k) = s \<and> nodes (f k) = ns"
  shows "\<exists>st'. set_blk b f st = Inr st' \<and> same_links st st' \<and> body st' = (body st)(b \<mapsto> (s, ns))"
proof -
  obtain k where k: "blocks st b = Some k" using assms(2) by auto
  show ?thesis using k assms(3) assms(4) [OF k]
    by (simp add: set_blk_ok [OF assms(1) k]) (auto simp: same_links_def links_simps)
qed

lemma dom_blk: "b \<in> dom (blocks st) \<Longrightarrow> b \<noteq> 0 \<Longrightarrow> \<exists>k. blk b st = Inr k \<and> blocks st b = Some k \<and> node_slots k = slots st b \<and> nodes k = objs st b
    \<and> next_available k = fld next_available st b \<and> next_iter k = fld next_iter st b"
  by (auto simp: blk_def slots_def objs_def links_simps)

lemma slots_upd: "body st' = (body st)(b \<mapsto> (s, ns)) \<Longrightarrow> slots st' = (slots st)(b := s) \<and> objs st' = (objs st)(b := ns)"
  by (auto simp: slots_def objs_def fun_eq_iff)

lemma body_slots: "body st' = body st \<Longrightarrow> slots st' = slots st \<and> objs st' = objs st"
  by (auto simp: slots_def objs_def fun_eq_iff)

section \<open>Addresses\<close>

lemma get_block_node: "get_block sz (node_addr sz b i) i = b"
  by (simp add: get_block_def node_addr_def)

lemma node_addr_even: "even b \<Longrightarrow> even sz \<Longrightarrow> even (node_addr sz b i)"
  by (simp add: node_addr_def)

lemma tag_bit: "even (a :: u64) \<Longrightarrow> (a OR 1) AND 1 \<noteq> 0 \<and> (a OR 1) XOR 1 = a \<and> a AND 1 = 0"
proof (intro conjI)
  assume a: "even a"
  show "(a OR 1) AND 1 \<noteq> 0" by (simp add: bit.conj_disj_distrib2)
  show "a AND 1 = 0" using a by (simp add: and_one_eq even_iff_mod_2_eq_zero)
  show "(a OR 1) XOR 1 = a" using a by (intro bit_word_eqI) (auto simp: bit_simps bit_1_iff bit_0)
qed

section \<open>Insertion\<close>

lemma bl_invD:
  assumes "bl_inv st I A"
  shows "it.linked st I" "av.linked st A" "dom (blocks st) = set I \<union> set A" "b \<in> dom (blocks st) \<Longrightarrow> even b"
    "b \<in> dom (blocks st) \<Longrightarrow> length (objs st b) = 64" "b \<in> set I \<Longrightarrow> blk_inv st A b"
    "b \<in> set A \<Longrightarrow> b \<notin> set I \<Longrightarrow> I = [] \<and> A = [b] \<and> slots st b = NOT 0" "distinct I" "distinct A" "b \<in> dom (blocks st) \<Longrightarrow> b \<noteq> 0"
proof -
  have l: "it.linked st I" "av.linked st A" "dom (blocks st) = set I \<union> set A" using assms by (simp_all add: bl_inv_def)
  show "b \<noteq> 0" if "b \<in> dom (blocks st)"
    using that l dl_nonzero [of _ _ _ _ I] dl_nonzero [of _ _ _ _ A] unfolding it.linked_def av.linked_def by (metis Un_iff)
qed (use assms in \<open>auto simp: bl_inv_def it.linked_def av.linked_def\<close>)

lemma avail_sub: "bl_inv st I A \<Longrightarrow> I \<noteq> [] \<Longrightarrow> set A \<subseteq> set I"
  by (auto simp: bl_inv_def)

lemma avail_head: "av.linked st A \<Longrightarrow> available_list st = (if A = [] then 0 else hd A)"
  by (auto simp: av.linked_def dest: dl_head)

lemma iter_head: "it.linked st I \<Longrightarrow> iter_list st = (if I = [] then 0 else hd I)"
  by (auto simp: it.linked_def dest: dl_head)

text \<open>Taking the first block off the list of available ones, as an insertion does that fills it.\<close>

lemma advance_available_ok:
  assumes "av.linked st (b # A)"
  shows "\<exists>st'. advance_available st = Inr st' \<and> av.linked st' A \<and> iter_part st' = iter_part st \<and> dom (blocks st') = dom (blocks st)
    \<and> (\<forall>x. x \<notin> set A \<longrightarrow> fld prev_available st' x = fld prev_available st x)"
proof -
  have b: "b \<noteq> 0" "b \<in> dom (blocks st)" "available_list st = b" using assms by (auto simp: av.linked_def)
  obtain k0 where k0: "blk b st = Inr k0" "next_available k0 = fld next_available st b" using dom_blk [OF b(2,1)] by auto
  show ?thesis
  proof (cases A)
    case Nil
    then have "advance_available st = Inr (st\<lparr>available_list := 0\<rparr>)" using assms k0 b(3) by (simp add: advance_available_def av.linked_def)
    then show ?thesis using assms Nil by (auto simp: av.linked_def links_simps)
  next
    case (Cons a xs)
    have d: "dl (fld next_available st) (fld prev_available st) b a (a # xs)" "a \<noteq> 0" "a \<in> dom (blocks st)" "distinct (a # xs)"
        "set (a # xs) \<subseteq> dom (blocks st)" "fld next_available st b = a"
      using assms Cons by (auto simp: av.linked_def)
    obtain k where k: "blocks st a = Some k" using d(3) by auto
    let ?st = "st\<lparr>available_list := a, blocks := (blocks st)(a \<mapsto> k\<lparr>prev_available := 0\<rparr>)\<rparr>"
    have s: "advance_available st = Inr ?st" using k d(2,6) k0 b(3) by (simp add: advance_available_def set_blk_ok Let_def)
    have f: "fld next_available ?st = fld next_available st" "fld prev_available ?st = (fld prev_available st)(a := 0)"
      using k by (auto simp: links_simps)
    have "dl (fld next_available st) ((fld prev_available st)(a := 0)) a (fld next_available st a) xs"
      using d(1,4) by (subst dl_cong [of xs _ "fld next_available st" _ "fld prev_available st"]) auto
    then have "av.linked ?st A" unfolding av.linked_def f using d Cons k by (auto simp: fun_upd_def)
    then show ?thesis using s k Cons by (intro exI [of _ ?st]) (auto simp: f links_simps)
  qed
qed

lemma ctz_slot:
  assumes "(s :: u64) \<noteq> 0"
  shows "unat (find_first_one s) = ctz s" "ctz s < 64" "bit s (ctz s)"
  using ctz_props [OF assms] by (simp_all add: find_first_one_def)

text \<open>An object put into slot \<open>i\<close> of block \<open>b\<close>.\<close>

lemma body_insert:
  assumes body: "body st' = (body st)(b \<mapsto> (s', (objs st b)[i := Some obj]))" and "i < 64" and len: "length (objs st b) = 64"
    and "bit (slots st b) i" and s': "\<And>j. bit s' j \<longleftrightarrow> bit (slots st b) j \<and> j \<noteq> i" and "b \<in> set I"
  shows "content st I (b, i) = None" "content st' I = (content st I)((b, i) \<mapsto> obj)" "s' \<noteq> NOT 0"
    "(\<forall>j. live st b j \<longrightarrow> objs st b ! j \<noteq> None) \<Longrightarrow> (\<forall>j. live st' b j \<longrightarrow> objs st' b ! j \<noteq> None)"
    "c \<noteq> b \<Longrightarrow> slots st' c = slots st c \<and> objs st' c = objs st c" "slots st' b = s'" "length (objs st' b) = 64"
proof -
  have u: "slots st' = (slots st)(b := s')" "objs st' = (objs st)(b := (objs st b)[i := Some obj])" using slots_upd [OF body] by auto
  show "content st I (b, i) = None" using assms(4) by (simp add: content_def live_def)
  have "bit (NOT 0 :: u64) i" using assms(2) by (simp add: bit_not_iff)
  then show "s' \<noteq> NOT 0" using s' [of i] by auto
  show "content st' I = (content st I)((b, i) \<mapsto> obj)"
  proof
    fix x :: "u64 \<times> nat" obtain c j where x: "x = (c, j)" by fastforce
    show "content st' I x = ((content st I)((b, i) \<mapsto> obj)) x"
      using assms(2,6) len by (cases "c = b"; cases "j = i") (simp_all add: x content_def live_def u s')
  qed
  show "\<forall>j. live st' b j \<longrightarrow> objs st' b ! j \<noteq> None" if "\<forall>j. live st b j \<longrightarrow> objs st b ! j \<noteq> None"
    using that assms(2) len by (simp add: live_def u s' nth_list_update)
  show "c \<noteq> b \<Longrightarrow> slots st' c = slots st c \<and> objs st' c = objs st c" by (simp add: u)
  show "slots st' b = s'" "length (objs st' b) = 64" using len by (simp_all add: u)
qed

lemma blk_inv_other:
  assumes "blk_inv st A c" and "slots st' c = slots st c" and "objs st' c = objs st c" and "c \<in> set A' \<longleftrightarrow> c \<in> set A"
    and "c \<notin> set A \<Longrightarrow> fld prev_available st' c = fld prev_available st c"
  shows "blk_inv st' A' c"
  using assms by (auto simp: blk_inv_def live_def)

lemma insert_available_ok:
  assumes inv: "bl_inv st I (b # A)" and "I \<noteq> []" and sz: "even sz"
  shows "\<exists>st' A' i. insert_available sz obj st = Inr (node_addr sz b i, st') \<and> bl_inv st' I A' \<and> b \<in> set I \<and> i < 64
    \<and> content st I (b, i) = None \<and> content st' I = (content st I)((b, i) \<mapsto> obj)"
proof -
  note d = bl_invD [OF inv]
  have b: "b \<in> set I" "b \<in> dom (blocks st)" "b \<noteq> 0" "even b" using d(3) d(4,7,10) [of b] assms(2) by auto
  have av: "available_list st = b" using avail_head [OF d(2)] by simp
  define s where "s = slots st b"
  have s0: "s \<noteq> 0" using d(6) [OF b(1)] by (simp add: blk_inv_def s_def)
  define i where "i = ctz s"
  define s' where "s' = s AND (s - 1)"
  have i: "i < 64" "bit s i" "unat (find_first_one s) = i" using ctz_slot [OF s0] by (simp_all add: i_def)
  have s': "bit s' j \<longleftrightarrow> bit s j \<and> j \<noteq> i" for j by (simp add: s'_def i_def bit_blsr)
  obtain k where k: "blk b st = Inr k" "blocks st b = Some k" "node_slots k = s" "nodes k = objs st b"
    using dom_blk [OF b(2,3)] by (auto simp: s_def)
  obtain st1 where st1: "set_blk b (\<lambda>k. set_node i obj (k\<lparr>node_slots := s'\<rparr>)) st = Inr st1" "same_links st st1"
      "body st1 = (body st)(b \<mapsto> (s', (objs st b)[i := Some obj]))"
    using set_body [OF b(3,2), of "\<lambda>k. set_node i obj (k\<lparr>node_slots := s'\<rparr>)" s' "(objs st b)[i := Some obj]"] k by (auto simp: set_node_def)
  have ins: "blk_insert sz b obj st = Inr (node_addr sz b i OR (if s' = 0 then 1 else 0), st1)"
    using k(1,3) i st1(1) by (simp add: blk_insert_def Let_def s'_def)
  note u = body_insert [OF st1(3) i(1) d(5) [OF b(2)] i(2) [unfolded s_def] s' [unfolded s_def] b(1)]
  have bi: "blk_inv st (b # A) c" if "c \<in> set I" for c by (rule d(6) [OF that])
  have dom1: "dom (blocks st1) = set I \<union> set (b # A)" using st1(2) d(3) by (simp add: same_links_def)
  have wf: "even c \<and> length (objs st1 c) = 64" if "c \<in> dom (blocks st1)" for c
    using that d(4,5) [of c] u(5) [of c] u(7) st1(2) by (cases "c = b") (auto simp: same_links_def)
  have pv: "fld prev_available st1 = fld prev_available st" using st1(2) by (simp add: same_links_def)
  have sub: "set (b # A) \<subseteq> set I" using d(7) assms(2) by blast
  have even_addr: "even (node_addr sz b i)" by (rule node_addr_even [OF b(4) sz])
  show ?thesis
  proof (cases "s' = 0")
    case False
    have "blk_inv st1 (b # A) c" if c: "c \<in> set I" for c
    proof (cases "c = b")
      case True
      then show ?thesis using bi [OF c] u(3,4,6) False by (auto simp: blk_inv_def)
    next
      case False
      then show ?thesis using u(5) [OF False] pv by (intro blk_inv_other [OF bi [OF c]]) simp_all
    qed
    then have "bl_inv st1 I (b # A)" unfolding bl_inv_def using dom1 wf sub d(1,2) same_links_linked [OF st1(2)] by auto
    moreover have "insert_available sz obj st = Inr (node_addr sz b i, st1)"
      using ins False tag_bit [OF even_addr] by (simp add: insert_available_def av del: bind_res_Inr_iff)
    ultimately show ?thesis using u(1,2) b(1) i(1) by blast
  next
    case True
    have l1: "av.linked st1 (b # A)" using d(2) same_links_linked(2) [OF st1(2)] by simp
    obtain st2 where st2: "advance_available st1 = Inr st2" "av.linked st2 A" "iter_part st2 = iter_part st1" "dom (blocks st2) = dom (blocks st1)"
        "\<forall>x. x \<notin> set A \<longrightarrow> fld prev_available st2 x = fld prev_available st1 x"
      using advance_available_ok [OF l1] by blast
    have so: "slots st2 = slots st1" "objs st2 = objs st1" using body_slots [of st2 st1] st2(3) by auto
    have bA: "b \<notin> set A" using d(9) by simp
    have "blk_inv st2 A c" if c: "c \<in> set I" for c
    proof (cases "c = b")
      case cb: True
      have "fld prev_available st b = 0" using d(2) by (simp add: av.linked_def)
      then show ?thesis using bi [OF c] u(3,4,6) True cb bA st2(5) pv by (auto simp: blk_inv_def so live_def)
    next
      case False
      then show ?thesis using u(5) [OF False] pv st2(5) by (intro blk_inv_other [OF bi [OF c]]) (simp_all add: so)
    qed
    moreover have "it.linked st2 I" using d(1) same_links_linked(1) [OF st1(2)] st2(3,4) it_linked_cong [of st2 st1] by auto
    moreover have "dom (blocks st2) = set I \<union> set A" using dom1 st2(4) b(1) by auto
    moreover have "even c \<and> length (objs st2 c) = 64" if "c \<in> dom (blocks st2)" for c using wf that by (simp add: so st2(4))
    ultimately have "bl_inv st2 I A" unfolding bl_inv_def using st2(2) sub by auto
    moreover have "insert_available sz obj st = Inr (node_addr sz b i, st2)"
      using ins True tag_bit [OF even_addr] av st2(1) by (simp add: insert_available_def del: bind_res_Inr_iff)
    moreover have "content st2 I = content st1 I" by (simp add: content_def live_def so fun_eq_iff)
    ultimately show ?thesis using u(1,2) b(1) i(1) by metis
  qed
qed

lemma same_links_trans: "same_links st st1 \<Longrightarrow> same_links st1 st2 \<Longrightarrow> same_links st st2"
  by (simp add: same_links_def)

lemma bit_not_one: "bit (NOT 1 :: u64) j \<longleftrightarrow> j < 64 \<and> j \<noteq> 0"
  by (auto simp: bit_not_iff bit_1_iff)

lemma not_one_neq: "NOT (1 :: u64) \<noteq> NOT 0" "NOT (1 :: u64) \<noteq> 0"
  by simp_all

lemma set_node_ok:
  assumes "b \<noteq> 0" and "b \<in> dom (blocks st)"
  shows "\<exists>st'. set_blk b (set_node i obj) st = Inr st' \<and> same_links st st' \<and> body st' = (body st)(b \<mapsto> (slots st b, (objs st b)[i := Some obj]))"
  by (rule set_body [OF assms]) (auto simp: set_node_def slots_def objs_def body_def)

lemma blk_init_ok:
  assumes "b \<noteq> 0" and "b \<in> dom (blocks st)"
  shows "\<exists>st'. blk_init b st = Inr st' \<and> same_links st st' \<and> body st' = (body st)(b \<mapsto> (NOT 1, objs st b))"
  unfolding blk_init_def by (rule set_body [OF assms]) (auto simp: objs_def body_def)

text \<open>A block whose only object is in slot 0.\<close>

lemma single_block:
  assumes "slots st b = NOT 1" and "objs st b = ns[0 := Some obj]" and "length ns = 64" and "fld prev_available st b = 0" and "b \<in> set A"
  shows "blk_inv st A b" "live st b j \<longleftrightarrow> j = 0" "objs st b ! 0 = Some obj"
  using assms not_one_neq by (auto simp: blk_inv_def live_def bit_not_one)

lemma insert_new_ok:
  assumes inv: "bl_inv st I []" and f: "fresh \<noteq> 0" "fresh \<notin> dom (blocks st)" "even fresh"
  shows "\<exists>st'. insert_new sz fresh obj st = Inr (node_addr sz fresh 0, st') \<and> bl_inv st' (fresh # I) [fresh]
    \<and> content st I (fresh, 0) = None \<and> content st' (fresh # I) = (content st I)((fresh, 0) \<mapsto> obj)"
proof -
  note d = bl_invD [OF inv]
  let ?st0 = "st\<lparr>blocks := (blocks st)(fresh \<mapsto> zero_block)\<rparr>"
  let ?ns = "replicate 64 (None :: 'a option)"
  have none: "blocks st fresh = None" using f(2) by auto
  have l0: "iter_list ?st0 = iter_list st" "available_list ?st0 = available_list st" "fld next_iter ?st0 = fld next_iter st"
      "fld prev_iter ?st0 = fld prev_iter st" "fld prev_available ?st0 = fld prev_available st" "dom (blocks ?st0) = insert fresh (dom (blocks st))"
      "body ?st0 = (body st)(fresh \<mapsto> (0, ?ns))"
    using none by (auto simp: links_simps zero_block_def)
  have z: "fld prev_iter st fresh = 0" "fld prev_available st fresh = 0" using none by (simp_all add: fld_def)
  have dom0: "fresh \<in> dom (blocks ?st0)" by simp
  obtain st1 where st1: "blk_init fresh ?st0 = Inr st1" "same_links ?st0 st1" "body st1 = (body ?st0)(fresh \<mapsto> (NOT 1, objs ?st0 fresh))"
    using blk_init_ok [OF f(1) dom0] by blast
  have dom1: "fresh \<in> dom (blocks st1)" using st1(2) by (simp add: same_links_def)
  obtain st2 where st2: "set_blk fresh (set_node 0 obj) st1 = Inr st2" "same_links st1 st2"
      "body st2 = (body st1)(fresh \<mapsto> (slots st1 fresh, (objs st1 fresh)[0 := Some obj]))"
    using set_node_ok [OF f(1) dom1] by blast
  have ns: "objs ?st0 fresh = ?ns" using slots_upd [OF l0(7)] by simp
  have b2: "body st2 = (body st)(fresh \<mapsto> (NOT 1, ?ns[0 := Some obj]))" using st2(3) st1(3) l0(7) slots_upd [OF st1(3)] by (simp add: ns)
  note sl = same_links_trans [OF st1(2) st2(2)]
  have dom2: "dom (blocks st2) = insert fresh (set I)" using sl l0(6) d(3) by (simp add: same_links_def)
  have it2: "it.linked st2 I" using d(1) sl l0 dom2 by (auto simp: it.linked_def same_links_def)
  have pv2: "fld prev_iter st2 fresh = 0" "fld prev_available st2 = fld prev_available st" "available_list st2 = 0"
    using sl l0 z avail_head [OF d(2)] by (simp_all add: same_links_def)
  have nf: "fresh \<notin> set I" using f(2) d(3) by simp
  obtain st3 where st3: "link_block fresh st2 = Inr st3" "it.linked st3 (fresh # I)" "avail_part st3 = avail_part st2" "dom (blocks st3) = dom (blocks st2)"
    using it.link_ok [OF it2 f(1) _ nf pv2(1)] dom2 by auto
  have av3: "av.linked st3 []" using st3(3) pv2(3) by (simp add: av.linked_def)
  have pv3: "fld prev_available st3 = fld prev_available st" using st3(3) pv2 by simp
  obtain st4 where st4: "link_available fresh st3 = Inr st4" "av.linked st4 [fresh]" "iter_part st4 = iter_part st3" "dom (blocks st4) = dom (blocks st3)"
      "\<forall>x. x \<noteq> fresh \<longrightarrow> fld prev_available st4 x = fld prev_available st3 x"
    using av.link_ok [OF av3 f(1)] dom2 st3(4) pv3 z by auto
  have b4: "body st4 = (body st)(fresh \<mapsto> (NOT 1, ?ns[0 := Some obj]))" using st4(3) st3(3) b2 by simp
  note u = slots_upd [OF b4]
  have one: "slots st4 fresh = NOT 1" "objs st4 fresh = ?ns[0 := Some obj]" "length ?ns = 64" "fld prev_available st4 fresh = 0" "fresh \<in> set [fresh]"
    using u st4(2) by (simp_all add: av.linked_def)
  note new = single_block [OF one]
  have "blk_inv st4 [fresh] c" if "c \<in> set I" for c
    using u st4(5) pv3 nf that by (intro blk_inv_other [OF d(6) [OF that]]) auto
  moreover have "it.linked st4 (fresh # I)" using st3(2) st4(3,4) it_linked_cong [of st4 st3] by auto
  moreover have "even c \<and> length (objs st4 c) = 64" if "c \<in> insert fresh (set I)" for c using that u d(3-5) f(3) by auto
  ultimately have "bl_inv st4 (fresh # I) [fresh]" unfolding bl_inv_def using st4(2,4) st3(4) dom2 new(1) by auto
  moreover have "content st4 (fresh # I) = (content st I)((fresh, 0) \<mapsto> obj)"
    using u nf new(2,3) by (auto simp: fun_eq_iff content_def live_def)
  moreover have "insert_new sz fresh obj st = Inr (node_addr sz fresh 0, st4)"
    using st1(1) st2(1) st3(1) st4(1) by (simp add: insert_new_def del: bind_res_Inr_iff)
  ultimately show ?thesis using nf by (auto simp: content_def)
qed

lemma insert_spare_ok:
  assumes inv: "bl_inv st [] [b]"
  shows "\<exists>st'. insert_spare sz obj st = Inr (node_addr sz b 0, st') \<and> bl_inv st' [b] [b] \<and> content st' [b] = [(b, 0) \<mapsto> obj]"
proof -
  note d = bl_invD [OF inv]
  have b: "b \<noteq> 0" "b \<in> dom (blocks st)" "even b" "slots st b = NOT 0" "available_list st = b" "length (objs st b) = 64"
    using d(3) d(4,5,7,10) [of b] avail_head [OF d(2)] by auto
  obtain k where k: "blk b st = Inr k" "node_slots k = NOT 0" using dom_blk [OF b(2,1)] b(4) by auto
  obtain st1 where st1: "set_blk b (set_node 0 obj) st = Inr st1" "same_links st st1" "body st1 = (body st)(b \<mapsto> (slots st b, (objs st b)[0 := Some obj]))"
    using set_node_ok [OF b(1,2)] by blast
  have dom1: "b \<in> dom (blocks st1)" using st1(2) b(2) by (simp add: same_links_def)
  obtain st2 where st2: "blk_init b st1 = Inr st2" "same_links st1 st2" "body st2 = (body st1)(b \<mapsto> (NOT 1, objs st1 b))"
    using blk_init_ok [OF b(1) dom1] by blast
  have b2: "body st2 = (body st)(b \<mapsto> (NOT 1, (objs st b)[0 := Some obj]))" using st2(3) st1(3) slots_upd [OF st1(3)] by simp
  obtain k2 where k2: "blocks st2 b = Some k2" using st2(2) dom1 by (auto simp: same_links_def)
  let ?st3 = "st2\<lparr>iter_list := b, blocks := (blocks st2)(b \<mapsto> k2\<lparr>next_iter := 0, prev_iter := 0\<rparr>)\<rparr>"
  have st3: "set_blk b (\<lambda>k. k\<lparr>next_iter := 0, prev_iter := 0\<rparr>) (st2\<lparr>iter_list := b\<rparr>) = Inr ?st3" using k2 b(1) by (simp add: set_blk_ok)
  have e3: "fld next_available ?st3 = fld next_available st2" "fld prev_available ?st3 = fld prev_available st2" "body ?st3 = body st2" "dom (blocks ?st3) = dom (blocks st2)"
    using k2 by (auto simp: links_simps)
  have l3: "available_list ?st3 = available_list st" "fld next_available ?st3 = fld next_available st" "fld prev_available ?st3 = fld prev_available st"
      "dom (blocks ?st3) = dom (blocks st)" "body ?st3 = (body st)(b \<mapsto> (NOT 1, (objs st b)[0 := Some obj]))"
    using same_links_trans [OF st1(2) st2(2)] b2 unfolding e3 by (simp_all add: same_links_def)
  note u = slots_upd [OF l3(5)]
  have "it.linked ?st3 [b]" using b(1) by (simp add: it.linked_def fld_def)
  moreover have av3: "av.linked ?st3 [b]" using d(2) l3 by (simp add: av.linked_def)
  moreover have one: "slots ?st3 b = NOT 1" "objs ?st3 b = (objs st b)[0 := Some obj]" "fld prev_available ?st3 b = 0" "b \<in> set [b]"
    using u av3 by (simp_all add: av.linked_def)
  note new = single_block [OF one(1,2) b(6) one(3,4)]
  ultimately have "bl_inv ?st3 [b] [b]" unfolding bl_inv_def using l3(4) d(3) b(3,6) u new(1) by auto
  moreover have "content ?st3 [b] = [(b, 0) \<mapsto> obj]" using new(2,3) by (auto simp: fun_eq_iff content_def)
  moreover have "insert_spare sz obj st = Inr (node_addr sz b 0, ?st3)"
    using k(1,2) b(5) st1(1) st2(1) st3 by (simp add: insert_spare_def Let_def del: bind_res_Inr_iff)
  ultimately show ?thesis by blast
qed

text \<open>C32: on a list in a consistent state, with the block \<open>calloc\<close> would return unused, \<open>insert\<close> succeeds in each of its three
  cases, keeps the state consistent, puts the object into a slot that was free and leaves every other object where it was.\<close>

theorem bl_insert_ok:
  assumes inv: "bl_inv st I A" and sz: "even sz" and f: "fresh \<noteq> 0" "fresh \<notin> dom (blocks st)" "even fresh"
  shows "\<exists>b i st' I' A'. bl_insert sz fresh obj st = Inr (node_addr sz b i, st') \<and> bl_inv st' I' A' \<and> content st I (b, i) = None
    \<and> content st' I' = (content st I)((b, i) \<mapsto> obj)"
proof (cases A)
  case Nil
  then have "bl_insert sz fresh obj st = insert_new sz fresh obj st" using avail_head [OF bl_invD(2) [OF inv]] by (simp add: bl_insert_def)
  then show ?thesis using insert_new_ok [OF inv [unfolded Nil] f, of sz obj] by metis
next
  case (Cons b A')
  have b: "b \<noteq> 0" using bl_invD(3) [OF inv] bl_invD(10) [OF inv, of b] Cons by auto
  show ?thesis
  proof (cases "I = []")
    case True
    have A: "A = [b]" using bl_invD(7) [OF inv, of b] Cons True by simp
    have "bl_insert sz fresh obj st = insert_spare sz obj st"
      using b avail_head [OF bl_invD(2) [OF inv]] iter_head [OF bl_invD(1) [OF inv]] A True by (simp add: bl_insert_def)
    moreover have "content st I = Map.empty" by (auto simp: content_def True)
    ultimately show ?thesis using insert_spare_ok [OF inv [unfolded A True], of sz obj] by (metis (no_types, lifting))
  next
    case False
    have "iter_list st \<noteq> 0" using iter_head [OF bl_invD(1) [OF inv]] bl_invD(3) [OF inv] bl_invD(10) [OF inv, of "hd I"] False by auto
    then have "bl_insert sz fresh obj st = insert_available sz obj st"
      using b avail_head [OF bl_invD(2) [OF inv]] Cons by (simp add: bl_insert_def)
    then show ?thesis using insert_available_ok [OF inv [unfolded Cons] False sz, of obj] by metis
  qed
qed

theorem bl_insert_ok_witness:
  "bl_inv (\<lparr>iter_list = 0, available_list = 0, blocks = Map.empty\<rparr> :: nat block_list) [] []
    \<and> (\<exists>b i st' I' A'. bl_insert 16 4096 (7 :: nat) \<lparr>iter_list = 0, available_list = 0, blocks = Map.empty\<rparr> = Inr (node_addr 16 b i, st')
    \<and> bl_inv st' I' A' \<and> content st' I' = [(b, i) \<mapsto> 7])"
proof -
  let ?st = "\<lparr>iter_list = 0, available_list = 0, blocks = Map.empty\<rparr> :: nat block_list"
  have "bl_inv ?st [] []" by (simp add: bl_inv_def it.linked_def av.linked_def)
  moreover have "content ?st [] = Map.empty" by (auto simp: content_def)
  ultimately show ?thesis using bl_insert_ok [of ?st "[]" "[]" 16 4096 7] by simp
qed

section \<open>Removal\<close>

lemma bit_drop_mask: "i < 64 \<Longrightarrow> bit (s OR drop_mask i :: u64) j \<longleftrightarrow> bit s j \<or> j = i"
  by (auto simp: bit_or_iff drop_mask_def bit_exp_iff)

lemma drop_mask_neq: "drop_mask i \<noteq> NOT 0"
proof
  assume e: "drop_mask i = NOT 0"
  have "bit (drop_mask i) j" if "j < 64" for j using that by (simp add: e bit_not_iff)
  from this [of 0] this [of 1] show False by (auto simp: drop_mask_def bit_exp_iff)
qed

lemma blk_drop_ok:
  assumes "b \<noteq> 0" and "b \<in> dom (blocks st)"
  shows "\<exists>st'. blk_drop b m st = Inr (slots st b OR m, st') \<and> same_links st st' \<and> body st' = (body st)(b \<mapsto> (slots st b OR m, objs st b))"
proof -
  obtain k where k: "blk b st = Inr k" "node_slots k = slots st b" using dom_blk [OF assms(2,1)] by auto
  have "\<exists>st'. set_blk b (\<lambda>k. k\<lparr>node_slots := node_slots k OR m\<rparr>) st = Inr st' \<and> same_links st st'
      \<and> body st' = (body st)(b \<mapsto> (slots st b OR m, objs st b))"
    by (rule set_body [OF assms]) (auto simp: slots_def objs_def body_def)
  then show ?thesis using k by (auto simp: blk_drop_def)
qed

text \<open>An object taken out of slot \<open>i\<close> of block \<open>b\<close>.\<close>

lemma body_remove:
  assumes body: "body st' = (body st)(b \<mapsto> (slots st b OR drop_mask i, objs st b))" and i: "i < 64"
  shows "content st' I = (content st I)((b, i) := None)" "live st' b j \<longleftrightarrow> live st b j \<and> j \<noteq> i" "objs st' = objs st"
    "slots st' b = slots st b OR drop_mask i" "c \<noteq> b \<Longrightarrow> slots st' c = slots st c"
proof -
  have u: "slots st' = (slots st)(b := slots st b OR drop_mask i)" "objs st' = objs st" using slots_upd [OF body] by auto
  show l: "live st' b j \<longleftrightarrow> live st b j \<and> j \<noteq> i" for j using bit_drop_mask [OF i] by (auto simp: live_def u)
  show "content st' I = (content st I)((b, i) := None)"
  proof
    fix x :: "u64 \<times> nat" obtain c j where x: "x = (c, j)" by fastforce
    show "content st' I x = ((content st I)((b, i) := None)) x"
    proof (cases "c = b")
      case True
      then show ?thesis using l by (simp add: x content_def u)
    next
      case False
      then show ?thesis by (simp add: x content_def live_def u)
    qed
  qed
  show "objs st' = objs st" "slots st' b = slots st b OR drop_mask i" "c \<noteq> b \<Longrightarrow> slots st' c = slots st c" by (simp_all add: u)
qed

text \<open>The block was full: it joins the available ones.\<close>

lemma remove_full:
  assumes inv: "bl_inv st I A" and b: "b \<in> set I" and full: "slots st b = 0" and i: "i < 64"
    and same: "same_links st st1" and body: "body st1 = (body st)(b \<mapsto> (slots st b OR drop_mask i, objs st b))"
  shows "\<exists>st'. after_drop b (drop_mask i) (slots st b OR drop_mask i) st1 = Inr st' \<and> bl_inv st' I (b # A)
    \<and> content st' I = (content st I)((b, i) := None)"
proof -
  note d = bl_invD [OF inv] and u = body_remove [OF body i]
  have bd: "b \<in> dom (blocks st)" "b \<noteq> 0" using d(3,10) b by auto
  have k: "b \<notin> set A" "fld prev_available st b = 0" using d(6) [OF b] full by (auto simp: blk_inv_def)
  have s: "av.linked st1 A" "dom (blocks st1) = dom (blocks st)" "fld prev_available st1 = fld prev_available st"
    using same d(2) same_links_linked(2) [OF same] by (simp_all add: same_links_def)
  obtain st' where st': "link_available b st1 = Inr st'" "av.linked st' (b # A)" "iter_part st' = iter_part st1" "dom (blocks st') = dom (blocks st1)"
      "\<forall>x. x \<notin> set (b # A) \<longrightarrow> fld prev_available st' x = fld prev_available st1 x"
    using av.link_ok [OF s(1) bd(2) _ k(1)] bd(1) k(2) s by auto
  have so: "slots st' = slots st1" "objs st' = objs st1" using body_slots [of st' st1] st'(3) by auto
  have "blk_inv st' (b # A) c" if c: "c \<in> set I" for c
  proof (cases "c = b")
    case True
    then show ?thesis using d(6) [OF b] u(2,3,4) full drop_mask_neq [of i] i by (auto simp: blk_inv_def so live_def drop_mask_def)
  next
    case False
    then show ?thesis using u(3,5) st'(5) s(3) by (intro blk_inv_other [OF d(6) [OF c]]) (simp_all add: so)
  qed
  moreover have "it.linked st' I" using d(1) same_links_linked(1) [OF same] st'(3,4) it_linked_cong [of st' st1] by auto
  moreover have "even c \<and> length (objs st' c) = 64" if "c \<in> dom (blocks st')" for c
    using that d(4,5) [of c] by (simp add: so u(3) st'(4) s(2))
  moreover have "set A \<subseteq> set I" using b by (intro avail_sub [OF inv]) auto
  ultimately have "bl_inv st' I (b # A)" unfolding bl_inv_def using st'(2,4) s(2) d(3) b by auto
  moreover have "content st' I = content st1 I" by (simp add: content_def live_def so fun_eq_iff)
  ultimately show ?thesis using st'(1) u(1) full by (auto simp: after_drop_def)
qed

text \<open>Other objects are left in the block, and it had a free slot before.\<close>

lemma remove_other:
  assumes inv: "bl_inv st I A" and b: "b \<in> set I" and s0: "slots st b \<noteq> 0" "slots st b OR drop_mask i \<noteq> NOT 0" and i: "live st b i"
    and same: "same_links st st1" and body: "body st1 = (body st)(b \<mapsto> (slots st b OR drop_mask i, objs st b))"
  shows "after_drop b (drop_mask i) (slots st b OR drop_mask i) st1 = Inr st1 \<and> bl_inv st1 I A \<and> content st1 I = (content st I)((b, i) := None)"
proof -
  have i': "i < 64" "\<not> bit (slots st b) i" using i by (simp_all add: live_def)
  note d = bl_invD [OF inv] and u = body_remove [OF body i'(1)]
  have nz: "slots st b OR drop_mask i \<noteq> 0" using bit_drop_mask [OF i'(1), of "slots st b" i] by auto
  have "slots st b OR drop_mask i \<noteq> drop_mask i"
  proof
    assume e: "slots st b OR drop_mask i = drop_mask i"
    have "bit (slots st b) j \<Longrightarrow> j = i" for j
      using arg_cong [OF e, of "\<lambda>w. bit w j"] by (simp add: bit_or_iff drop_mask_def bit_exp_iff)
    then have "\<not> bit (slots st b) j" for j using i'(2) by auto
    then have "slots st b = 0" by (intro bit_word_eqI) simp
    then show False using s0(1) by simp
  qed
  then have "after_drop b (drop_mask i) (slots st b OR drop_mask i) st1 = Inr st1" using s0(2) by (simp add: after_drop_def)
  moreover have "blk_inv st1 A c" if c: "c \<in> set I" for c
  proof (cases "c = b")
    case True
    then show ?thesis using d(6) [OF b] u(2,3,4) s0 nz by (auto simp: blk_inv_def)
  next
    case False
    then show ?thesis using u(3,5) same by (intro blk_inv_other [OF d(6) [OF c]]) (simp_all add: same_links_def)
  qed
  moreover have "even c \<and> length (objs st1 c) = 64" if "c \<in> dom (blocks st1)" for c
    using that d(4,5) [of c] same by (simp add: u(3) same_links_def)
  moreover have "set A \<subseteq> set I" using b by (intro avail_sub [OF inv]) auto
  ultimately show ?thesis unfolding bl_inv_def using u(1) d(1-3) same_links_linked [OF same] same by (auto simp: same_links_def)
qed

text \<open>The block is empty now: it leaves the iteration list.\<close>

lemma unlink_empty:
  assumes inv: "bl_inv st I A" and b: "b \<in> set I" and same: "same_links st st1"
  shows "\<exists>xs ys st2. I = xs @ b # ys \<and> unlink_block b st1 = Inr st2 \<and> it.linked st2 (xs @ ys) \<and> av.linked st2 A
    \<and> avail_part st2 = avail_part st1 \<and> dom (blocks st2) = dom (blocks st) \<and> set (xs @ ys) = set I - {b}"
proof -
  note d = bl_invD [OF inv]
  obtain xs ys where I: "I = xs @ b # ys" using b by (meson split_list)
  have l: "it.linked st1 (xs @ b # ys)" using d(1) same_links_linked(1) [OF same] I by simp
  obtain st2 where st2: "unlink_block b st1 = Inr st2" "it.linked st2 (xs @ ys)" "avail_part st2 = avail_part st1" "dom (blocks st2) = dom (blocks st1)"
    using it.unlink_ok [OF l] by blast
  have "av.linked st2 A" using st2(3,4) d(2) same_links_linked(2) [OF same] av_linked_cong [of st2 st1] by auto
  moreover have "set (xs @ ys) = set I - {b}" using d(8) I by auto
  ultimately show ?thesis using I st2 same by (auto simp: same_links_def)
qed

lemma free_block_simps:
  "fld f (free_block b st) = (fld f st)(b := 0)" "body (free_block b st) = (body st)(b := None)"
  "dom (blocks (free_block b st)) = dom (blocks st) - {b}" "iter_list (free_block b st) = iter_list st"
  "available_list (free_block b st) = available_list st"
  by (auto simp: free_block_def links_simps)

lemma free_block_linked:
  assumes "b \<notin> set xs"
  shows "it.linked st xs \<Longrightarrow> it.linked (free_block b st) xs" "av.linked st xs \<Longrightarrow> av.linked (free_block b st) xs"
proof -
  have c: "dl ((fld f st)(b := 0)) ((fld g st)(b := 0)) p h xs = dl (fld f st) (fld g st) p h xs" for f g p h
    using assms by (intro dl_cong) auto
  show "it.linked st xs \<Longrightarrow> it.linked (free_block b st) xs" "av.linked st xs \<Longrightarrow> av.linked (free_block b st) xs"
    using assms by (auto simp: it.linked_def av.linked_def free_block_simps c)
qed

lemma two_available:
  assumes "av.linked st A" and "b \<in> set A" and "A \<noteq> [b]"
  shows "\<exists>k. blk (available_list st) st = Inr k \<and> next_available k \<noteq> 0"
proof -
  obtain a a' as where A: "A = a # a' # as" using assms(2,3) by (cases A; cases "tl A") auto
  then have "a \<in> dom (blocks st)" "a \<noteq> 0" "available_list st = a" "fld next_available st a = a'" "a' \<noteq> 0"
    using assms(1) by (auto simp: av.linked_def)
  then show ?thesis using dom_blk [of a st] by auto
qed

lemma remove_emptied:
  assumes inv: "bl_inv st I A" and b: "b \<in> set I" and s0: "slots st b \<noteq> 0" "slots st b OR drop_mask i = NOT 0" and i: "i < 64"
    and same: "same_links st st1" and body: "body st1 = (body st)(b \<mapsto> (slots st b OR drop_mask i, objs st b))" and two: "A \<noteq> [b]"
  shows "\<exists>st' I' A'. after_drop b (drop_mask i) (slots st b OR drop_mask i) st1 = Inr st' \<and> bl_inv st' I' A'
    \<and> content st' I' = (content st I)((b, i) := None)"
proof -
  note d = bl_invD [OF inv] and u = body_remove [OF body i]
  obtain xs ys st2 where st2: "I = xs @ b # ys" "unlink_block b st1 = Inr st2" "it.linked st2 (xs @ ys)" "av.linked st2 A"
      "avail_part st2 = avail_part st1" "dom (blocks st2) = dom (blocks st)" "set (xs @ ys) = set I - {b}"
    using unlink_empty [OF inv b same] by blast
  have bA: "b \<in> set A" using d(6) [OF b] s0(1) by (simp add: blk_inv_def)
  obtain ka where ka: "blk (available_list st2) st2 = Inr ka" "next_available ka \<noteq> 0" using two_available [OF st2(4) bA two] by blast
  obtain us vs where A: "A = us @ b # vs" using bA by (meson split_list)
  obtain st3 where st3: "unlink_available b st2 = Inr st3" "av.linked st3 (us @ vs)" "iter_part st3 = iter_part st2" "dom (blocks st3) = dom (blocks st2)"
      "\<forall>x. x \<notin> set (us @ vs) \<longrightarrow> fld prev_available st3 x = fld prev_available st2 x"
    using av.unlink_ok [of st2 us b vs] st2(4) A by auto
  have it3: "it.linked st3 (xs @ ys)" using st2(3) st3(3,4) it_linked_cong [of st3 st2] by auto
  let ?st = "free_block b st3"
  have nb: "b \<notin> set (xs @ ys)" "b \<notin> set (us @ vs)" "set (us @ vs) = set A - {b}" using st2(7) d(9) A by auto
  have bd: "body ?st = (body st1)(b := None)" using st3(3) st2(5) by (simp add: free_block_simps)
  have so: "slots ?st c = slots st1 c" "objs ?st c = objs st1 c" if "c \<noteq> b" for c using that by (simp_all add: slots_def objs_def bd)
  have pv: "fld prev_available ?st c = fld prev_available st c" if "c \<noteq> b" "c \<notin> set A" for c
  proof -
    have "c \<notin> set (us @ vs)" using that nb(3) by simp
    then show ?thesis using that st3(5) st2(5) same by (simp add: free_block_simps same_links_def)
  qed
  have "blk_inv ?st (us @ vs) c" if c: "c \<in> set (xs @ ys)" for c
  proof -
    have n: "c \<noteq> b" "c \<in> set I" using c st2(7) by auto
    show ?thesis using so [OF n(1)] u(3,5) n(1) pv [OF n(1)] nb(3) by (intro blk_inv_other [OF d(6) [OF n(2)]]) auto
  qed
  moreover have "set (us @ vs) \<subseteq> set (xs @ ys)" using avail_sub [OF inv] st2(1,7) nb(3) by auto
  moreover have "even c \<and> length (objs ?st c) = 64" if "c \<in> dom (blocks ?st)" for c
    using that d(4,5) [of c] so(2) [of c] u(3) by (simp add: free_block_simps st3(4) st2(6))
  moreover have "dom (blocks ?st) = set (xs @ ys) \<union> set (us @ vs)" using d(3) st2(6,7) st3(4) nb(3) by (auto simp: free_block_simps)
  ultimately have "bl_inv ?st (xs @ ys) (us @ vs)"
    unfolding bl_inv_def using free_block_linked(1) [OF nb(1) it3] free_block_linked(2) [OF nb(2) st3(2)] by auto
  moreover have "content ?st (xs @ ys) = (content st I)((b, i) := None)"
  proof
    fix x :: "u64 \<times> nat" obtain c j where x: "x = (c, j)" by fastforce
    have none: "\<not> live st1 b j" using u(4) s0(2) by (simp add: live_def bit_not_iff)
    have "content ?st (xs @ ys) x = content st1 I x"
      unfolding x content_def prod.case st2(7) using so [of c] none by (cases "c = b") (auto simp: live_def)
    then show "content ?st (xs @ ys) x = ((content st I)((b, i) := None)) x" by (simp add: u(1))
  qed
  moreover have "after_drop b (drop_mask i) (slots st b OR drop_mask i) st1 = Inr ?st"
    using s0(2) drop_mask_neq [of i] st2(2) ka st3(1) by (auto simp: after_drop_def)
  ultimately show ?thesis by blast
qed

text \<open>The only object of the only block.\<close>

lemma remove_last:
  assumes inv: "bl_inv st [b] [b]" and s0: "slots st b OR drop_mask i = NOT 0" and i: "i < 64"
    and same: "same_links st st1" and body: "body st1 = (body st)(b \<mapsto> (slots st b OR drop_mask i, objs st b))"
  shows "\<exists>st'. after_drop b (drop_mask i) (slots st b OR drop_mask i) st1 = Inr st' \<and> bl_inv st' [] [b]
    \<and> content st' [] = (content st [b])((b, i) := None)"
proof -
  note d = bl_invD [OF inv] and u = body_remove [OF body i]
  obtain xs ys st2 where st2: "[b] = xs @ b # ys" "unlink_block b st1 = Inr st2" "it.linked st2 (xs @ ys)" "av.linked st2 [b]"
      "avail_part st2 = avail_part st1" "dom (blocks st2) = dom (blocks st)"
    using unlink_empty [OF inv list.set_intros(1) same] by blast
  have e: "xs = []" "ys = []" using st2(1) by (auto simp: Cons_eq_append_conv)
  have so: "slots st2 = slots st1" "objs st2 = objs st1" using body_slots [of st2 st1] st2(5) by auto
  have b: "b \<in> dom (blocks st2)" "b \<noteq> 0" "available_list st2 = b" "fld next_available st2 b = 0" using st2(4) by (auto simp: av.linked_def)
  have "bl_inv st2 [] [b]"
    unfolding bl_inv_def using st2(3,4,6) e d(3) d(4,5) [of b] u(3,4) s0 by (simp add: so)
  moreover have "content st2 [] = (content st [b])((b, i) := None)"
  proof -
    have none: "content st1 [b] = Map.empty" using u(4) s0 by (auto simp: content_def live_def bit_not_iff fun_eq_iff)
    show ?thesis using u(1) [of "[b]"] none by (auto simp: content_def fun_eq_iff)
  qed
  moreover have "after_drop b (drop_mask i) (slots st b OR drop_mask i) st1 = Inr st2"
    using s0 drop_mask_neq [of i] st2(2) dom_blk [OF b(1,2)] b(3,4) by (auto simp: after_drop_def)
  ultimately show ?thesis by blast
qed

text \<open>A list with one block, and objects in its slots 0 and 2.\<close>

definition two_objects :: "bool block_list" where
  "two_objects = \<lparr>iter_list = 4096, available_list = 4096,
     blocks = [4096 \<mapsto> zero_block\<lparr>node_slots := NOT 5, nodes := replicate 64 (Some True)\<rparr>]\<rparr>"

lemma two_objects_simps:
  "slots two_objects 4096 = NOT 5" "objs two_objects 4096 = replicate 64 (Some True)" "dom (blocks two_objects) = {4096}"
  "fld next_iter two_objects 4096 = 0" "fld prev_iter two_objects 4096 = 0" "fld next_available two_objects 4096 = 0"
  "fld prev_available two_objects 4096 = 0" "iter_list two_objects = 4096" "available_list two_objects = 4096"
  by (simp_all add: two_objects_def slots_def objs_def body_def fld_def zero_block_def)

lemma two_objects_live: "live two_objects 4096 j \<longleftrightarrow> j = 0 \<or> j = 2"
  unfolding live_def two_objects_simps(1) by (cases j; cases "j - 1"; cases "j - 2") (auto simp: bit_not_iff bit_numeral_iff)

lemma two_objects_inv: "bl_inv two_objects [4096] [4096]"
proof -
  have "blk_inv two_objects [4096] 4096" unfolding blk_inv_def two_objects_live by (auto simp: two_objects_simps)
  then show ?thesis by (simp add: bl_inv_def it.linked_def av.linked_def two_objects_simps)
qed



section \<open>Iteration\<close>

text \<open>The addresses of the live nodes of the blocks \<open>I\<close>, in order.\<close>

definition node_addrs :: "u64 \<Rightarrow> 'a block_list \<Rightarrow> u64 list \<Rightarrow> u64 list" where
  "node_addrs sz st I = concat (map (\<lambda>b. map (node_addr sz b) (filter (live st b) [0..<64])) I)"

lemma ones_step:
  assumes "(c :: u64) \<noteq> 0"
  shows "filter (bit c) [0..<64] = ctz c # filter (bit (c AND (c - 1))) [0..<64]"
proof -
  have k: "ctz c < 64" "bit c (ctz c)" "\<And>j. j < ctz c \<Longrightarrow> \<not> bit c j" using ctz_props [OF assms] by auto
  have s: "[0..<64] = [0..<ctz c] @ ctz c # [Suc (ctz c)..<64]" using k(1) upt_add_eq_append [of 0 "ctz c" "64 - ctz c"] by (simp add: upt_conv_Cons)
  have "filter (bit c) [0..<ctz c] = []" "filter (bit (c AND (c - 1))) [0..<ctz c] = []" using k(3) by (auto simp: filter_empty_conv bit_blsr)
  moreover have "filter (bit (c AND (c - 1))) [Suc (ctz c)..<64] = filter (bit c) [Suc (ctz c)..<64]" by (intro filter_cong) (auto simp: bit_blsr)
  ultimately show ?thesis using k(2) unfolding s by (simp add: bit_blsr)
qed

lemma visits_end: "visits sz st \<lparr>it_block = 0, cur_node_slots = c\<rparr> = Some (Inr [])"
  by (simp add: visits.simps it_end_def)

text \<open>The iterator at the block after \<open>b\<close>.\<close>

definition after_block :: "'a block_list \<Rightarrow> u64 \<Rightarrow> node_iterator" where
  "after_block st b = (let n = fld next_iter st b in \<lparr>it_block = n, cur_node_slots = (if n = 0 then 0 else NOT (slots st n))\<rparr>)"

lemma visits_block:
  assumes b: "b \<noteq> 0" "b \<in> dom (blocks st)" "fld next_iter st b = 0 \<or> fld next_iter st b \<in> dom (blocks st)"
    and rest: "visits sz st (after_block st b) = Some (Inr ys)" and "c \<noteq> 0"
  shows "visits sz st \<lparr>it_block = b, cur_node_slots = c\<rparr> = Some (Inr (map (node_addr sz b) (filter (bit c) [0..<64]) @ ys))"
  using \<open>c \<noteq> 0\<close>
proof (induction "unat c" arbitrary: c rule: less_induct)
  case less
  let ?it = "\<lparr>it_block = b, cur_node_slots = c\<rparr>" and ?c = "c AND (c - 1)"
  have get: "it_get sz ?it = node_addr sz b (ctz c)" using ctz_slot(1) [OF less.prems] by (simp add: it_get_def)
  have v: "visits sz st ?it = Option.bind (visits sz st it') (\<lambda>r. Some (bind_res r (\<lambda>xs. Inr (it_get sz ?it # xs))))" if "it_next st ?it = Inr it'" for it'
    using that b(1) by (subst visits.simps) (simp add: it_end_def)
  show ?case
  proof (cases "?c = 0")
    case True
    obtain k where k: "blk b st = Inr k" "next_iter k = fld next_iter st b" using dom_blk [OF b(2,1)] by auto
    have "it_next st ?it = Inr (after_block st b)"
    proof (cases "fld next_iter st b = 0")
      case n: True
      then show ?thesis using k True by (simp add: it_next_def after_block_def Let_def)
    next
      case False
      then obtain k' where "blk (fld next_iter st b) st = Inr k'" "node_slots k' = slots st (fld next_iter st b)" using dom_blk b(3) by blast
      then show ?thesis using k True False by (simp add: it_next_def after_block_def Let_def)
    qed
    from v [OF this] show ?thesis using rest True ones_step [OF less.prems] by (simp add: get)
  next
    case False
    have "it_next st ?it = Inr \<lparr>it_block = b, cur_node_slots = ?c\<rparr>" using False by (simp add: it_next_def)
    from v [OF this] show ?thesis using less.hyps [OF blsr_less [OF less.prems] False] ones_step [OF less.prems] by (simp add: get)
  qed
qed

lemma not_full_iff: "(s :: u64) \<noteq> NOT 0 \<longleftrightarrow> NOT s \<noteq> 0"
  by (metis bit.double_compl)

lemma visits_list:
  assumes "dl (fld next_iter st) (fld prev_iter st) p h I" and "set I \<subseteq> dom (blocks st)" and "\<forall>b \<in> set I. slots st b \<noteq> NOT 0"
  shows "visits sz st \<lparr>it_block = h, cur_node_slots = (if h = 0 then 0 else NOT (slots st h))\<rparr> = Some (Inr (node_addrs sz st I))"
  using assms
proof (induction I arbitrary: p h)
  case Nil
  then show ?case by (simp add: visits_end node_addrs_def)
next
  case (Cons b I)
  have h: "h = b" "b \<noteq> 0" "b \<in> dom (blocks st)" "dl (fld next_iter st) (fld prev_iter st) b (fld next_iter st b) I" using Cons.prems by auto
  have n: "fld next_iter st b = 0 \<or> fld next_iter st b \<in> dom (blocks st)" using dl_head [OF h(4)] Cons.prems(2) by (cases I) auto
  have r: "visits sz st (after_block st b) = Some (Inr (node_addrs sz st I))"
    using Cons.IH [OF h(4)] Cons.prems(2,3) by (simp add: after_block_def Let_def)
  have "filter (bit (NOT (slots st b))) [0..<64] = filter (live st b) [0..<64]" by (intro filter_cong) (auto simp: live_def bit_not_iff)
  then show ?case using visits_block [OF h(2,3) n r, of "NOT (slots st b)"] h Cons.prems(3) not_full_iff by (simp add: node_addrs_def)
qed

lemma iterate_linked:
  assumes "it.linked st I" and "\<forall>b \<in> set I. slots st b \<noteq> NOT 0"
  shows "\<exists>it. nbegin st = Inr it \<and> visits sz st it = Some (Inr (node_addrs sz st I))"
proof -
  have d: "dl (fld next_iter st) (fld prev_iter st) 0 (iter_list st) I" "set I \<subseteq> dom (blocks st)" using assms(1) by (simp_all add: it.linked_def)
  note v = visits_list [OF d assms(2), of sz]
  show ?thesis
  proof (cases "iter_list st = 0")
    case True
    then show ?thesis using v by (simp add: nbegin_def)
  next
    case False
    then have "iter_list st \<in> dom (blocks st)" using iter_head [OF assms(1)] d(2) by (cases I) auto
    then obtain k where "blk (iter_list st) st = Inr k" "node_slots k = slots st (iter_list st)" using dom_blk False by blast
    then show ?thesis using v False by (simp add: nbegin_def)
  qed
qed

text \<open>C34: an iteration over a consistent list ends without a fault and visits every live object exactly once, in the order of
  the blocks and of the slots in a block.\<close>

theorem iteration_visits_all:
  assumes inv: "bl_inv st I A"
  shows "\<exists>it. nbegin st = Inr it \<and> visits sz st it = Some (Inr (node_addrs sz st I))"
  using iterate_linked [OF bl_invD(1) [OF inv]] bl_invD(6) [OF inv] by (simp add: blk_inv_def)

theorem iteration_visits_all_witness:
  "\<exists>it. nbegin two_objects = Inr it \<and> visits 16 two_objects it = Some (Inr [4136, 4168])"
proof -
  have "live two_objects 4096 = (\<lambda>j. j = 0 \<or> j = 2)" by (simp add: two_objects_live fun_eq_iff)
  moreover have "filter (\<lambda>j. j = 0 \<or> j = 2) [0..<64] = [0, 2 :: nat]" by code_simp
  ultimately have "node_addrs 16 two_objects [4096] = [4136, 4168]" by (simp add: node_addrs_def node_addr_def)
  then show ?thesis using iteration_visits_all [OF two_objects_inv, of 16] by simp
qed

section \<open>The stranded block\<close>

lemma all_ones: "find_first_one (NOT 0 :: u64) = 0" "(NOT 0 :: u64) AND (NOT 0 - 1) = NOT 1"
  by code_simp+

lemma insert_stranded:
  assumes b: "b \<in> dom (blocks st)" "b \<noteq> 0" "even b" "even sz" "available_list st = b" "iter_list st \<noteq> 0" and s: "slots st b = NOT 0"
  shows "\<exists>st'. bl_insert sz fresh obj st = Inr (node_addr sz b 0, st') \<and> same_links st st' \<and> body st' = (body st)(b \<mapsto> (NOT 1, (objs st b)[0 := Some obj]))"
proof -
  obtain k where k: "blk b st = Inr k" "blocks st b = Some k" "node_slots k = NOT 0" "nodes k = objs st b" using dom_blk [OF b(1,2)] s by auto
  have "\<exists>st'. set_blk b (\<lambda>k. set_node 0 obj (k\<lparr>node_slots := NOT 1\<rparr>)) st = Inr st' \<and> same_links st st'
      \<and> body st' = (body st)(b \<mapsto> (NOT 1, (objs st b)[0 := Some obj]))"
    by (rule set_body [OF b(2,1)]) (use k in \<open>auto simp: set_node_def\<close>)
  then obtain st' where st': "set_blk b (\<lambda>k. set_node 0 obj (k\<lparr>node_slots := NOT 1\<rparr>)) st = Inr st'" "same_links st st'"
      "body st' = (body st)(b \<mapsto> (NOT 1, (objs st b)[0 := Some obj]))"
    by blast
  have "blk_insert sz b obj st = Inr (node_addr sz b 0 OR (if NOT (1 :: u64) = 0 then 1 else 0), st')"
    unfolding blk_insert_def k(1) bind_res.simps k(3) all_ones Let_def using st'(1) by simp
  then have "blk_insert sz b obj st = Inr (node_addr sz b 0, st')" by simp
  moreover have "node_addr sz b 0 AND 1 = 0" using tag_bit [OF node_addr_even [OF b(3,4)]] by blast
  ultimately have "bl_insert sz fresh obj st = Inr (node_addr sz b 0, st')" using b(2,5,6) by (simp add: bl_insert_def insert_available_def)
  then show ?thesis using st'(2,3) by blast
qed

text \<open>C35: an object can get lost. When the last object of the only available block is removed while other blocks are full, the
  block leaves the iteration list but stays available; the next object is put into it, and an iteration does not visit it.\<close>

theorem remove_strands_block:
  assumes inv: "bl_inv st I [b]" and b: "b \<in> set I" "I \<noteq> [b]" and last: "\<forall>j. live st b j \<longleftrightarrow> j = i" and "even sz"
  shows "\<exists>st1 st2 it. remove sz (node_addr sz b i) i st = Inr st1 \<and> bl_insert sz fresh obj st1 = Inr (node_addr sz b 0, st2)
    \<and> nbegin st2 = Inr it \<and> visits sz st2 it = Some (Inr (node_addrs sz st (remove1 b I)))"
proof -
  note d = bl_invD [OF inv]
  have i: "i < 64" using last by (auto simp: live_def)
  have bd: "b \<noteq> 0" "b \<in> dom (blocks st)" "even b" using d(3) d(4,10) [of b] b by auto
  obtain st0 where st0: "blk_drop b (drop_mask i) st = Inr (slots st b OR drop_mask i, st0)" "same_links st st0"
      "body st0 = (body st)(b \<mapsto> (slots st b OR drop_mask i, objs st b))"
    using blk_drop_ok [OF bd(1,2)] by blast
  note u = body_remove [OF st0(3) i]
  have full: "slots st b OR drop_mask i = NOT 0"
    using last bit_drop_mask [OF i] by (intro bit_word_eqI) (auto simp: live_def bit_not_iff)
  obtain xs ys st1 where st1: "I = xs @ b # ys" "unlink_block b st0 = Inr st1" "it.linked st1 (xs @ ys)" "av.linked st1 [b]"
      "avail_part st1 = avail_part st0" "dom (blocks st1) = dom (blocks st)" "set (xs @ ys) = set I - {b}"
    using unlink_empty [OF inv b(1) st0(2)] by blast
  have so: "slots st1 = slots st0" "objs st1 = objs st0" using body_slots [of st1 st0] st1(5) by auto
  have b1: "b \<in> dom (blocks st1)" "available_list st1 = b" "fld next_available st1 b = 0" using st1(4) by (auto simp: av.linked_def)
  have ne: "xs @ ys \<noteq> []" using b(2) st1(1) by auto
  then have "iter_list st1 \<noteq> 0" using iter_head [OF st1(3)] dl_nonzero [of _ _ _ _ "xs @ ys"] st1(3) unfolding it.linked_def by (metis hd_in_set)
  moreover have "slots st1 b = NOT 0" using u(4) full by (simp add: so)
  ultimately obtain st2 where st2: "bl_insert sz fresh obj st1 = Inr (node_addr sz b 0, st2)" "same_links st1 st2"
      "body st2 = (body st1)(b \<mapsto> (NOT 1, (objs st1 b)[0 := Some obj]))"
    using insert_stranded [OF b1(1) bd(1,3) \<open>even sz\<close> b1(2)] by blast
  have s2: "slots st2 c = slots st c" if "c \<noteq> b" for c using that u(5) slots_upd [OF st2(3)] by (simp add: so)
  have rm: "remove1 b I = xs @ ys" using d(8) st1(1) by (simp add: remove1_append)
  have "\<forall>c \<in> set (xs @ ys). slots st2 c \<noteq> NOT 0" using s2 d(6) st1(7) by (auto simp: blk_inv_def)
  moreover have "it.linked st2 (xs @ ys)" using st1(3) same_links_linked(1) [OF st2(2)] by simp
  ultimately obtain it where it: "nbegin st2 = Inr it" "visits sz st2 it = Some (Inr (node_addrs sz st2 (xs @ ys)))"
    using iterate_linked by blast
  have "live st2 c = live st c" if "c \<in> set (xs @ ys)" for c
  proof -
    have "c \<noteq> b" using that st1(7) by blast
    then show ?thesis by (simp add: live_def s2 fun_eq_iff)
  qed
  then have "node_addrs sz st2 (xs @ ys) = node_addrs sz st (xs @ ys)" unfolding node_addrs_def by (metis (no_types, lifting) map_cong)
  moreover have "remove sz (node_addr sz b i) i st = Inr st1"
    using st0(1) full drop_mask_neq [of i] st1(2) dom_blk [OF b1(1) bd(1)] b1 by (auto simp: remove_def get_block_node after_drop_def)
  ultimately show ?thesis using st2(1) it rm by metis
qed

text \<open>A full block and one with a single object, in slot 5.\<close>

definition full_and_one :: "bool block_list" where
  "full_and_one = \<lparr>iter_list = 8192, available_list = 4096,
     blocks = [8192 \<mapsto> zero_block\<lparr>next_iter := 4096, nodes := replicate 64 (Some True)\<rparr>,
               4096 \<mapsto> zero_block\<lparr>node_slots := NOT 32, prev_iter := 8192, nodes := replicate 64 (Some False)\<rparr>]\<rparr>"

lemma full_and_one_simps:
  "slots full_and_one 4096 = NOT 32" "slots full_and_one 8192 = 0" "objs full_and_one 4096 = replicate 64 (Some False)"
  "objs full_and_one 8192 = replicate 64 (Some True)" "dom (blocks full_and_one) = {4096, 8192}"
  "fld next_iter full_and_one 4096 = 0" "fld prev_iter full_and_one 4096 = 8192" "fld next_iter full_and_one 8192 = 4096" "fld prev_iter full_and_one 8192 = 0"
  "fld next_available full_and_one 4096 = 0" "fld prev_available full_and_one 4096 = 0" "fld prev_available full_and_one 8192 = 0"
  "iter_list full_and_one = 8192" "available_list full_and_one = 4096"
  by (auto simp: full_and_one_def slots_def objs_def body_def fld_def zero_block_def)

lemma full_and_one_live: "live full_and_one 4096 j \<longleftrightarrow> j = 5" "live full_and_one 8192 j \<longleftrightarrow> j < 64"
proof -
  have "bit (32 :: u64) j \<longleftrightarrow> j = 5" using bit_exp_iff [where ?'a = "64 word", of 5 j] by auto
  then show "live full_and_one 4096 j \<longleftrightarrow> j = 5" unfolding live_def full_and_one_simps bit_not_iff by auto
  show "live full_and_one 8192 j \<longleftrightarrow> j < 64" unfolding live_def full_and_one_simps by simp
qed

theorem remove_strands_block_witness:
  "\<exists>st1 st2 it. remove 16 (node_addr 16 4096 5) 5 full_and_one = Inr st1 \<and> bl_insert 16 12288 True st1 = Inr (node_addr 16 4096 0, st2)
    \<and> nbegin st2 = Inr it \<and> visits 16 st2 it = Some (Inr (node_addrs 16 full_and_one [8192]))"
proof -
  have "blk_inv full_and_one [4096] 4096" "blk_inv full_and_one [4096] 8192"
    unfolding blk_inv_def full_and_one_live by (auto simp: full_and_one_simps)
  then have "bl_inv full_and_one [8192, 4096] [4096]"
    by (auto simp: bl_inv_def it.linked_def av.linked_def full_and_one_simps)
  from remove_strands_block [OF this, of 5 16 12288 True] show ?thesis by (simp add: full_and_one_live)
qed

section \<open>The self test\<close>

lemma back_link_ok:
  assumes "dl (fld nx st) (fld pv st) b (nx k) xs" and "set xs \<subseteq> dom (blocks st)"
  shows "back_link nx pv st b k = Inr ()"
proof (cases xs)
  case Nil
  then show ?thesis using assms(1) by (simp add: back_link_def)
next
  case (Cons a as)
  then have a: "nx k = a" "a \<noteq> 0" "fld pv st a = b" "a \<in> dom (blocks st)" using assms by auto
  then show ?thesis by (auto simp: back_link_def blk_def fld_def)
qed

lemma check_available_ok:
  assumes "dl (fld next_available st) (fld prev_available st) p h A" and "set A \<subseteq> dom (blocks st)" and "\<forall>b \<in> set A. slots st b \<noteq> 0"
  shows "check_available st h c = Some (Inr (c + of_nat (length A)))"
  using assms
proof (induction A arbitrary: p h c)
  case Nil
  then show ?case by (simp add: check_available.simps)
next
  case (Cons b A)
  have h: "h = b" "b \<noteq> 0" "b \<in> dom (blocks st)" "slots st b \<noteq> 0" "dl (fld next_available st) (fld prev_available st) b (fld next_available st b) A"
    using Cons.prems by auto
  obtain k where k: "blk b st = Inr k" "node_slots k = slots st b" "next_available k = fld next_available st b" using dom_blk [OF h(3,2)] by auto
  have "back_link next_available prev_available st b k = Inr ()" using h(5) k(3) Cons.prems(2) by (intro back_link_ok [of _ _ _ _ _ A]) auto
  then have "check_available st h c = check_available st (fld next_available st b) (c + 1)"
    using h k by (subst check_available.simps) simp
  then show ?case using Cons.IH [OF h(5)] Cons.prems(2,3) by simp
qed

lemma check_iter_ok:
  assumes "dl (fld next_iter st) (fld prev_iter st) p h I" and "set I \<subseteq> dom (blocks st)"
  shows "check_iter st h c = Some (Inr (c - of_nat (length (filter (\<lambda>b. slots st b \<noteq> 0) I))))"
  using assms
proof (induction I arbitrary: p h c)
  case Nil
  then show ?case by (simp add: check_iter.simps)
next
  case (Cons b I)
  have h: "h = b" "b \<noteq> 0" "b \<in> dom (blocks st)" "dl (fld next_iter st) (fld prev_iter st) b (fld next_iter st b) I" using Cons.prems by auto
  obtain k where k: "blk b st = Inr k" "node_slots k = slots st b" "next_iter k = fld next_iter st b" using dom_blk [OF h(3,2)] by auto
  have "back_link next_iter prev_iter st b k = Inr ()" using h(4) k(3) Cons.prems(2) by (intro back_link_ok [of _ _ _ _ _ I]) auto
  then have "check_iter st h c = check_iter st (fld next_iter st b) (if slots st b \<noteq> 0 then c - 1 else c)"
    using h k by (subst check_iter.simps) simp
  then show ?case using Cons.IH [OF h(4)] Cons.prems(2) by simp
qed

text \<open>A list in a consistent state passes its own test, which counts the available blocks against those of the iteration list.\<close>

lemma check_passes:
  assumes inv: "bl_inv st I A"
  shows "check st = Some (Inr ())"
proof -
  note d = bl_invD [OF inv]
  have dA: "dl (fld next_available st) (fld prev_available st) 0 (available_list st) A" "set A \<subseteq> dom (blocks st)" using d(2) by (auto simp: av.linked_def)
  have dI: "dl (fld next_iter st) (fld prev_iter st) 0 (iter_list st) I" "set I \<subseteq> dom (blocks st)" using d(1) by (auto simp: it.linked_def)
  have s: "\<forall>b \<in> set A. slots st b \<noteq> 0"
  proof
    fix b assume b: "b \<in> set A"
    show "slots st b \<noteq> 0"
    proof (cases "b \<in> set I")
      case True
      then show ?thesis using d(6) [OF True] b by (simp add: blk_inv_def)
    next
      case False
      then show ?thesis using d(7) [OF b False] by simp
    qed
  qed
  have "of_nat (length A) - of_nat (length (filter (\<lambda>b. slots st b \<noteq> 0) I)) = (0 :: u32)
      \<or> of_nat (length A) - of_nat (length (filter (\<lambda>b. slots st b \<noteq> 0) I)) = (1 :: u32)"
  proof (cases "I = []")
    case True
    then have "A = [] \<or> A = [hd A]" using d(7) [of "hd A"] by (cases A) simp_all
    then have "length A = 0 \<or> length A = 1" by (metis length_Cons list.size(3) One_nat_def)
    then show ?thesis using True by auto
  next
    case False
    have "set (filter (\<lambda>b. slots st b \<noteq> 0) I) = set A" using d(6) avail_sub [OF inv False] by (auto simp: blk_inv_def)
    then have "length (filter (\<lambda>b. slots st b \<noteq> 0) I) = length A" using d(8,9) by (metis distinct_card distinct_filter)
    then show ?thesis by simp
  qed
  then show ?thesis using check_available_ok [OF dA s] check_iter_ok [OF dI] by (auto simp: check_def)
qed

end
