(* ===== verification/Huge_Pages.thy ===== *)
theory Huge_Pages
  imports Size_Map
begin

text \<open>
  Huge pages of the vendored tcmalloc: \<open>src/tcmalloc-src/tcmalloc/huge_pages.h\<close>. A \<open>HugePage\<close> is
  the number of an aligned page of 2 MiB, a \<open>HugeLength\<close> a number of such pages, both 64 bits wide;
  a \<open>HugeRange\<close> is a run of them. The comparisons and sums of the header are those of words; the
  differences carry its assertions.
\<close>

section \<open>Pages and lengths\<close>

type_synonym huge_page = u64
type_synonym huge_length = u64

definition kHugePageShift :: nat where "kHugePageShift = 21"
definition kHugePageSize :: u64 where "kHugePageSize = push_bit kHugePageShift 1"

definition kPagesPerHugePage :: "page_config \<Rightarrow> u64" where
  "kPagesPerHugePage cfg = push_bit (kHugePageShift - kPageShift cfg) 1"

definition page_start_addr :: "huge_page \<Rightarrow> u64" where
  "page_start_addr pn = push_bit kHugePageShift pn"

definition first_page :: "page_config \<Rightarrow> huge_page \<Rightarrow> u64" where
  "first_page cfg pn = push_bit (kHugePageShift - kPageShift cfg) pn"

definition in_bytes :: "huge_length \<Rightarrow> u64" where
  "in_bytes n = n * kHugePageSize"

definition in_mib :: "huge_length \<Rightarrow> u64" where
  "in_mib n = n * (kHugePageSize div 1024 div 1024)"

definition in_pages :: "page_config \<Rightarrow> huge_length \<Rightarrow> u64" where
  "in_pages cfg n = n * kPagesPerHugePage cfg"

definition HLFromBytes :: "u64 \<Rightarrow> huge_length" where
  "HLFromBytes bytes = bytes div kHugePageSize"

definition HLFromPages :: "page_config \<Rightarrow> u64 \<Rightarrow> huge_length" where
  "HLFromPages cfg np = (np + kPagesPerHugePage cfg - 1) div kPagesPerHugePage cfg"

text \<open>The differences: of two pages, of a page and a length, and of two lengths.\<close>

definition hp_minus :: "u64 \<Rightarrow> u64 \<Rightarrow> u64 result" where
  "hp_minus lhs rhs = (if lhs \<ge> rhs then Inr (lhs - rhs) else Inl Assert_Failed)"

definition overflows :: "huge_length \<Rightarrow> bool" where
  "overflows n \<longleftrightarrow> n > HLFromBytes (- 1)"

definition HugePageContaining :: "page_config \<Rightarrow> u64 \<Rightarrow> huge_page" where
  "HugePageContaining cfg p = drop_bit (kHugePageShift - kPageShift cfg) p"

definition HugePageContaining_addr :: "page_config \<Rightarrow> u64 \<Rightarrow> huge_page" where
  "HugePageContaining_addr cfg p = HugePageContaining cfg (drop_bit (kPageShift cfg) p)"

section \<open>Ranges\<close>

record huge_range =
  hr_start :: huge_page
  hr_len :: huge_length

definition hr_start_addr :: "huge_range \<Rightarrow> u64" where
  "hr_start_addr r = page_start_addr (hr_start r)"

definition hr_end_addr :: "huge_range \<Rightarrow> u64" where
  "hr_end_addr r = page_start_addr (hr_start r + hr_len r)"

definition byte_len :: "huge_range \<Rightarrow> u64" where
  "byte_len r = hr_end_addr r - hr_start_addr r"

definition hr_valid :: "huge_range \<Rightarrow> bool" where
  "hr_valid r \<longleftrightarrow> hr_start_addr r \<noteq> 0"

definition contains :: "huge_range \<Rightarrow> huge_page \<Rightarrow> bool" where
  "contains r p \<longleftrightarrow> p \<ge> hr_start r \<and> p - hr_start r < hr_len r"

definition contains_page :: "page_config \<Rightarrow> huge_range \<Rightarrow> u64 \<Rightarrow> bool" where
  "contains_page cfg r p \<longleftrightarrow> contains r (HugePageContaining cfg p)"

definition contains_range :: "huge_range \<Rightarrow> huge_range \<Rightarrow> bool" where
  "contains_range r s \<longleftrightarrow> hr_start s \<ge> hr_start r \<and> hr_start s + hr_len s \<le> hr_start r + hr_len r"

definition intersects :: "huge_range \<Rightarrow> huge_range \<Rightarrow> bool" where
  "intersects r s \<longleftrightarrow> contains s (hr_start r) \<or> contains r (hr_start s)"

definition precedes :: "huge_range \<Rightarrow> huge_range \<Rightarrow> bool" where
  "precedes r s \<longleftrightarrow> hr_end_addr r = hr_start_addr s"

definition Nil_range :: "page_config \<Rightarrow> huge_range" where
  "Nil_range cfg = \<lparr>hr_start = HugePageContaining_addr cfg 0, hr_len = 0\<rparr>"

definition Make_range :: "huge_page \<Rightarrow> huge_length \<Rightarrow> huge_range" where
  "Make_range p n = \<lparr>hr_start = p, hr_len = n\<rparr>"

definition Join :: "huge_range \<Rightarrow> huge_range \<Rightarrow> huge_range result" where
  "Join a b = (if precedes a b then Inr \<lparr>hr_start = hr_start a, hr_len = hr_len a + hr_len b\<rparr> else Inl Assert_Failed)"

definition Split :: "page_config \<Rightarrow> huge_range \<Rightarrow> huge_length \<Rightarrow> (huge_range \<times> huge_range) result" where
  "Split cfg r n =
     (if \<not> hr_len r \<ge> n then Inl Assert_Failed
      else if hr_len r > n
      then bind_res (hp_minus (hr_len r) n) (\<lambda>m. Inr (Make_range (hr_start r) n, Make_range (hr_start r + n) m))
      else Inr (r, Nil_range cfg))"

section \<open>Ranges as sets of pages\<close>

text \<open>A range of the address space: not empty, and its end has an address.\<close>

definition range_ok :: "huge_range \<Rightarrow> bool" where
  "range_ok r \<longleftrightarrow> hr_len r \<noteq> 0 \<and> unat (hr_start r) + unat (hr_len r) < 2 ^ 43"

definition r_end :: "huge_range \<Rightarrow> nat" where
  "r_end r = unat (hr_start r) + unat (hr_len r)"

definition pages_of :: "huge_range \<Rightarrow> nat set" where
  "pages_of r = {unat (hr_start r) ..< r_end r}"

lemma range_okD:
  assumes "range_ok r"
  shows "unat (hr_start r) < r_end r" "r_end r < 2 ^ 43" "unat (hr_start r + hr_len r) = r_end r" "0 < unat (hr_len r)"
proof -
  show l: "r_end r < 2 ^ 43" "0 < unat (hr_len r)" using assms by (simp_all add: range_ok_def r_end_def unat_gt_0)
  then show "unat (hr_start r) < r_end r" by (simp add: r_end_def)
  show "unat (hr_start r + hr_len r) = r_end r" using l(1) by (simp add: unat_word_ariths r_end_def)
qed

lemma pages_nonempty: "range_ok r \<Longrightarrow> pages_of r \<noteq> {} \<and> unat (hr_start r) \<in> pages_of r"
  using range_okD(1) by (auto simp: pages_of_def)

lemma unat_page_addr: "unat p < 2 ^ 43 \<Longrightarrow> unat (page_start_addr p) = unat p * 2 ^ 21"
  by (simp add: page_start_addr_def kHugePageShift_def push_bit_eq_mult unat_word_ariths)

lemma contains_iff: "range_ok r \<Longrightarrow> contains r p \<longleftrightarrow> unat p \<in> pages_of r"
  unfolding contains_def pages_of_def r_end_def
  by (auto simp: word_le_nat_alt word_less_nat_alt unat_sub)

lemma precedes_iff:
  assumes "range_ok r" and "range_ok s"
  shows "precedes r s \<longleftrightarrow> r_end r = unat (hr_start s)"
proof -
  note a = range_okD [OF assms(1)] and b = range_okD [OF assms(2)]
  have "unat (hr_end_addr r) = r_end r * 2 ^ 21" "unat (hr_start_addr s) = unat (hr_start s) * 2 ^ 21"
    using a b unat_page_addr [of "hr_start r + hr_len r"] unat_page_addr [of "hr_start s"] by (simp_all add: hr_end_addr_def hr_start_addr_def)
  then show ?thesis unfolding precedes_def word_unat_eq_iff by simp
qed

lemma intersects_iff:
  assumes "range_ok r" and "range_ok s"
  shows "intersects r s \<longleftrightarrow> pages_of r \<inter> pages_of s \<noteq> {}"
proof
  assume "intersects r s"
  then show "pages_of r \<inter> pages_of s \<noteq> {}"
    using pages_nonempty [OF assms(1)] pages_nonempty [OF assms(2)] unfolding intersects_def contains_iff [OF assms(1)] contains_iff [OF assms(2)] by blast
next
  assume "pages_of r \<inter> pages_of s \<noteq> {}"
  then show "intersects r s"
    unfolding intersects_def contains_iff [OF assms(1)] contains_iff [OF assms(2)]
    using range_okD(1) [OF assms(1)] range_okD(1) [OF assms(2)] by (auto simp: pages_of_def)
qed

lemma Join_ok:
  assumes "range_ok a" and "range_ok b" and "r_end a = unat (hr_start b)"
  shows "\<exists>c. Join a b = Inr c \<and> range_ok c \<and> hr_start c = hr_start a \<and> r_end c = r_end b \<and> pages_of c = pages_of a \<union> pages_of b"
proof -
  note x = range_okD [OF assms(1)] and y = range_okD [OF assms(2)]
  have p: "precedes a b" using precedes_iff [OF assms(1,2)] assms(3) by simp
  have s: "unat (hr_len a + hr_len b) = unat (hr_len a) + unat (hr_len b)"
    using x y assms(3) by (simp add: unat_word_ariths r_end_def)
  let ?c = "\<lparr>hr_start = hr_start a, hr_len = hr_len a + hr_len b\<rparr>"
  have e: "r_end ?c = r_end b" using s assms(3) by (simp add: r_end_def)
  have "range_ok ?c" using s x y e by (auto simp: range_ok_def r_end_def unat_eq_0 [symmetric] simp del: unat_eq_0)
  moreover have "pages_of ?c = pages_of a \<union> pages_of b" unfolding pages_of_def e using x(1) y(1) assms(3) by auto
  ultimately show ?thesis using p e by (simp add: Join_def)
qed

text \<open>Splitting off the first \<open>n\<close> pages.\<close>

lemma Split_ok:
  assumes "range_ok r" and "0 < n" and "n < hr_len r"
  shows "\<exists>a b. Split cfg r n = Inr (a, b) \<and> range_ok a \<and> range_ok b \<and> hr_len a = n \<and> pages_of a \<union> pages_of b = pages_of r
    \<and> pages_of a \<inter> pages_of b = {}"
proof -
  note x = range_okD [OF assms(1)]
  have n: "unat n < unat (hr_len r)" "0 < unat n" using assms(2,3) by (simp_all add: word_less_nat_alt)
  have m: "unat (hr_len r - n) = unat (hr_len r) - unat n" "unat (hr_start r + n) = unat (hr_start r) + unat n"
    using n x(2) by (simp_all add: unat_sub word_le_nat_alt unat_word_ariths r_end_def)
  have "Split cfg r n = Inr (Make_range (hr_start r) n, Make_range (hr_start r + n) (hr_len r - n))"
    using assms(3) by (simp add: Split_def hp_minus_def)
  moreover have "range_ok (Make_range (hr_start r) n)" "range_ok (Make_range (hr_start r + n) (hr_len r - n))"
    using n m x(2) assms(2) by (auto simp: range_ok_def Make_range_def r_end_def)
  moreover have "pages_of (Make_range (hr_start r) n) \<union> pages_of (Make_range (hr_start r + n) (hr_len r - n)) = pages_of r"
      "pages_of (Make_range (hr_start r) n) \<inter> pages_of (Make_range (hr_start r + n) (hr_len r - n)) = {}"
    using n m by (auto simp: pages_of_def r_end_def Make_range_def)
  ultimately show ?thesis by (intro exI conjI) (auto simp: Make_range_def)
qed

end
