(* ===== verification/Huge_Address_Map.thy ===== *)
theory Huge_Address_Map
  imports Huge_Pages
begin

text \<open>
  The set of free huge pages of the vendored tcmalloc: \<open>src/tcmalloc-src/tcmalloc/huge_address_map.h\<close>
  and \<open>huge_address_map.cc\<close>, a treap of disjoint ranges ordered by address, in which every node knows
  the longest range of its subtree. The nodes reachable from \<open>hm_root\<close> are a tree whose nodes carry their address;
  a \<open>Node *\<close> is such an address, 0 the null pointer, and the chain of \<open>parent_\<close> pointers of a node is
  its list of frames, the innermost first. The clock, \<open>rand_r\<close>, the allocator of metadata and the average of
  times (in floating point) are parameters.
\<close>

section \<open>Nodes\<close>

record map_node =
  n_range :: huge_range
  n_prio :: int
  n_longest :: huge_length
  n_when :: int

datatype treap = Null | Node treap u64 map_node treap

text \<open>The parent of a subtree, with its other child, and whether the subtree is its left or its right child.\<close>

datatype frame = In_Left u64 map_node treap | In_Right treap u64 map_node

record huge_address_map =
  hm_root :: treap
  used_nodes :: u64
  total_size :: huge_length
  freelist :: "u64 list"
  freelist_size :: u64
  total_nodes :: u64
  hm_seed :: u32

text \<open>What a call gets from outside: the time, the next priority, the address of new metadata, and the average of two times.\<close>

record map_env =
  Now :: int
  rand_r :: "u32 \<Rightarrow> int \<times> u32"
  meta :: u64
  merge_when :: "huge_range \<Rightarrow> int \<Rightarrow> huge_range \<Rightarrow> int \<Rightarrow> int"

fun longest_of :: "treap \<Rightarrow> huge_length" where
  "longest_of Null = 0"
| "longest_of (Node l a d r) = n_longest d"

fun plug :: "frame list \<Rightarrow> treap \<Rightarrow> treap" where
  "plug [] t = t"
| "plug (In_Left a d r # fs) t = plug fs (Node t a d r)"
| "plug (In_Right l a d # fs) t = plug fs (Node l a d t)"

text \<open>The subtree at an address, with its frames: what a dereference of the pointer reads.\<close>

fun path_to :: "u64 \<Rightarrow> frame list \<Rightarrow> treap \<Rightarrow> (frame list \<times> treap \<times> map_node \<times> treap) option" where
  "path_to a fs Null = None"
| "path_to a fs (Node l x d r) =
     (if x = a then Some (fs, l, d, r)
      else case path_to a (In_Left x d r # fs) l of Some p \<Rightarrow> Some p | None \<Rightarrow> path_to a (In_Right l x d # fs) r)"

definition at :: "u64 \<Rightarrow> treap \<Rightarrow> (frame list \<times> treap \<times> map_node \<times> treap) result" where
  "at a t = (if a = 0 then Inl Null_Deref else case path_to a [] t of None \<Rightarrow> Inl Out_Of_Bounds | Some p \<Rightarrow> Inr p)"

section \<open>Traversal\<close>

fun leftmost :: "treap \<Rightarrow> u64" where
  "leftmost Null = 0"
| "leftmost (Node l a d r) = (if l = Null then a else leftmost l)"

fun climb :: "frame list \<Rightarrow> u64" where
  "climb [] = 0"
| "climb (In_Left a d r # fs) = a"
| "climb (In_Right l a d # fs) = climb fs"

definition next_node :: "u64 \<Rightarrow> treap \<Rightarrow> u64 result" where
  "next_node a t = bind_res (at a t) (\<lambda>(fs, l, d, r). Inr (if r \<noteq> Null then leftmost r else climb fs))"

definition first_node :: "huge_address_map \<Rightarrow> u64" where
  "first_node m = leftmost (hm_root m)"

definition nranges :: "huge_address_map \<Rightarrow> u64" where "nranges m = used_nodes m"
definition total_mapped :: "huge_address_map \<Rightarrow> huge_length" where "total_mapped m = total_size m"

fun pred_loop :: "huge_page \<Rightarrow> treap \<Rightarrow> u64 \<Rightarrow> u64" where
  "pred_loop p Null best = best"
| "pred_loop p (Node l a d r) best =
     (if contains (n_range d) p then a
      else if p < hr_start (n_range d) then pred_loop p l best
      else pred_loop p r a)"

definition Predecessor :: "huge_page \<Rightarrow> huge_address_map \<Rightarrow> u64" where
  "Predecessor p m = pred_loop p (hm_root m) 0"

text \<open>\<open>Node::Check\<close> adds to the counts of nodes and pages.\<close>

fun check_node :: "treap \<Rightarrow> u64 \<times> huge_length \<Rightarrow> (u64 \<times> huge_length) result" where
  "check_node Null c = Inr c"
| "check_node (Node l a d r) c =
     bind_res (case l of Null \<Rightarrow> Inr (hr_len (n_range d), fst c + 1, snd c + hr_len (n_range d))
       | Node ll b e lr \<Rightarrow>
           if hr_start (n_range e) < hr_start (n_range d) \<and> hr_end_addr (n_range e) < hr_start_addr (n_range d) \<and> n_prio e \<le> n_prio d
           then bind_res (check_node l (fst c + 1, snd c + hr_len (n_range d))) (\<lambda>c'.
                  Inr (max (hr_len (n_range d)) (n_longest e), c'))
           else Inl Assert_Failed) (\<lambda>(longest, c1).
     bind_res (case r of Null \<Rightarrow> Inr (longest, c1)
       | Node rl b e rr \<Rightarrow>
           if hr_start (n_range e) > hr_start (n_range d) \<and> hr_start_addr (n_range e) > hr_end_addr (n_range d) \<and> n_prio e \<le> n_prio d
           then bind_res (check_node r c1) (\<lambda>c'. Inr (max longest (n_longest e), c'))
           else Inl Assert_Failed) (\<lambda>(longest', c2).
     if n_longest d = longest' then Inr c2 else Inl Assert_Failed))"

definition Check :: "huge_address_map \<Rightarrow> unit result" where
  "Check m = bind_res (check_node (hm_root m) (0, 0)) (\<lambda>(nodes, size).
     if nodes = nranges m \<and> size = total_mapped m \<and> total_nodes m = used_nodes m + freelist_size m then Inr () else Inl Assert_Failed)"

section \<open>The longest ranges\<close>

definition fix_node :: "treap \<Rightarrow> u64 \<Rightarrow> map_node \<Rightarrow> treap \<Rightarrow> treap" where
  "fix_node l a d r = Node l a (d\<lparr>n_longest := max (max (longest_of l) (longest_of r)) (hr_len (n_range d))\<rparr>) r"

text \<open>\<open>FixLongest\<close> of the parents of a subtree, up to the root.\<close>

fun fix_up :: "frame list \<Rightarrow> treap \<Rightarrow> treap" where
  "fix_up [] t = t"
| "fix_up (In_Left a d r # fs) t = fix_up fs (fix_node t a d r)"
| "fix_up (In_Right l a d # fs) t = fix_up fs (fix_node l a d t)"

text \<open>The same, with the hole left open.\<close>

fun fix_frames :: "frame list \<Rightarrow> treap \<Rightarrow> frame list" where
  "fix_frames [] t = []"
| "fix_frames (In_Left a d r # fs) t =
     In_Left a (d\<lparr>n_longest := max (max (longest_of t) (longest_of r)) (hr_len (n_range d))\<rparr>) r # fix_frames fs (fix_node t a d r)"
| "fix_frames (In_Right l a d # fs) t =
     In_Right l a (d\<lparr>n_longest := max (max (longest_of l) (longest_of t)) (hr_len (n_range d))\<rparr>) # fix_frames fs (fix_node l a d t)"

section \<open>Nodes in and out of use\<close>

definition Put :: "u64 \<Rightarrow> huge_address_map \<Rightarrow> huge_address_map" where
  "Put a m = m\<lparr>freelist_size := freelist_size m + 1, used_nodes := used_nodes m - 1, freelist := a # freelist m\<rparr>"

definition Get :: "map_env \<Rightarrow> huge_range \<Rightarrow> huge_address_map \<Rightarrow> (u64 \<times> map_node \<times> huge_address_map) result" where
  "Get env r m =
     (if (freelist m = []) \<noteq> (freelist_size m = 0) then Inl Assert_Failed
      else let (prio, seed) = rand_r env (hm_seed m);
               d = \<lparr>n_range = r, n_prio = prio, n_longest = 0, n_when = Now env\<rparr>;
               m1 = m\<lparr>used_nodes := used_nodes m + 1, hm_seed := seed\<rparr>
           in if freelist_size m1 = 0 then Inr (meta env, d, m1\<lparr>total_nodes := total_nodes m1 + 1\<rparr>)
              else Inr (hd (freelist m1), d, m1\<lparr>freelist_size := freelist_size m1 - 1, freelist := tl (freelist m1)\<rparr>))"

section \<open>Removal\<close>

fun reorder_maybe :: "treap \<Rightarrow> treap \<Rightarrow> treap \<times> treap" where
  "reorder_maybe t Null = (t, Null)"
| "reorder_maybe Null (Node bl b e br) = (Node bl b e br, Null)"
| "reorder_maybe (Node lt a d rt) (Node bl b e br) =
     (if n_prio d < n_prio e then (Node bl b e br, Node lt a d rt) else (Node lt a d rt, Node bl b e br))"

lemma reorder_size: "reorder_maybe t b = (x, y) \<Longrightarrow> size x + size y = size t + size b"
  by (cases t; cases b) (auto split: if_splits)

text \<open>The loop that merges two treaps: \<open>top\<close> has the higher priority.\<close>

function glue :: "treap \<Rightarrow> treap \<Rightarrow> treap" where
  "glue t b = (case reorder_maybe t b of
       (Node lt a d rt, Node bl x e br) \<Rightarrow>
         let d' = d\<lparr>n_longest := max (n_longest d) (n_longest e)\<rparr>
         in if hr_start (n_range e) < hr_start (n_range d) then Node (glue lt (Node bl x e br)) a d' rt
            else Node lt a d' (glue rt (Node bl x e br))
     | (tp, Null) \<Rightarrow> tp
     | (Null, bt) \<Rightarrow> Null)"
  by pat_completeness auto
termination
  by (relation "measure (\<lambda>(t, b). size t + size b)") (auto dest!: reorder_size [OF sym])

declare glue.simps [simp del]

text \<open>\<open>*link = t\<close>, where the link is the child of the parent that its address order gives.\<close>

fun set_link :: "frame \<Rightarrow> huge_range \<Rightarrow> treap \<Rightarrow> treap \<Rightarrow> treap" where
  "set_link (In_Left a d r) n old t = (if hr_start (n_range d) > hr_start n then Node t a d r else Node old a d t)"
| "set_link (In_Right l a d) n old t = (if hr_start (n_range d) > hr_start n then Node t a d old else Node l a d t)"

definition Remove :: "u64 \<Rightarrow> huge_address_map \<Rightarrow> huge_address_map result" where
  "Remove n m =
     bind_res (at n (hm_root m)) (\<lambda>(fs, l, d, r).
     bind_res (hp_minus (total_size m) (hr_len (n_range d))) (\<lambda>size.
     let old = Node l n (d\<lparr>n_longest := max (longest_of l) (longest_of r)\<rparr>) r;
         root = (case fix_frames fs old of
                   [] \<Rightarrow> glue l r
                 | f # fs' \<Rightarrow> plug fs' (set_link f (n_range d) old (glue l r)))
     in Inr (Put n (m\<lparr>total_size := size, hm_root := root\<rparr>))))"

section \<open>Insertion\<close>

text \<open>A change of the node at an address, followed by \<open>FixLongest\<close>.\<close>

definition update_fix :: "u64 \<Rightarrow> (map_node \<Rightarrow> map_node result) \<Rightarrow> huge_address_map \<Rightarrow> huge_address_map result" where
  "update_fix a f m = bind_res (at a (hm_root m)) (\<lambda>(fs, l, d, r).
     bind_res (f d) (\<lambda>d'. Inr (m\<lparr>hm_root := fix_up fs (fix_node l a d' r)\<rparr>)))"

definition Merge :: "map_env \<Rightarrow> u64 \<Rightarrow> huge_range \<Rightarrow> u64 \<Rightarrow> huge_address_map \<Rightarrow> huge_address_map result" where
  "Merge env b r a m =
     (if a = 0
      then update_fix b (\<lambda>d. bind_res (Join (n_range d) r) (\<lambda>j.
             Inr (d\<lparr>n_when := merge_when env (n_range d) (n_when d) r (Now env), n_range := j\<rparr>))) m
      else if b = 0
      then update_fix a (\<lambda>d. bind_res (Join r (n_range d)) (\<lambda>j.
             Inr (d\<lparr>n_when := merge_when env r (Now env) (n_range d) (n_when d), n_range := j\<rparr>))) m
      else bind_res (at a (hm_root m)) (\<lambda>(_, _, da, _).
           bind_res (at b (hm_root m)) (\<lambda>(_, _, db, _).
           bind_res (Join r (n_range da)) (\<lambda>partial.
           let partial_when = merge_when env r (Now env) (n_range da) (n_when da)
           in bind_res (Join (n_range db) partial) (\<lambda>full.
              let full_when = merge_when env (n_range db) (n_when db) partial partial_when
              in bind_res (Remove a (m\<lparr>total_size := total_size m + hr_len (n_range da)\<rparr>))
                   (update_fix b (\<lambda>d. Inr (d\<lparr>n_range := full, n_when := full_when\<rparr>))))))))"

text \<open>The walk down to the first node of lower priority.\<close>

fun descend :: "int \<Rightarrow> huge_range \<Rightarrow> frame list \<Rightarrow> treap \<Rightarrow> frame list \<times> treap" where
  "descend prio r fs Null = (fs, Null)"
| "descend prio r fs (Node lt a d rt) =
     (if n_prio d \<ge> prio
      then let d' = d\<lparr>n_longest := max (n_longest d) (hr_len r)\<rparr>
           in if hr_start (n_range d) < hr_start r then descend prio r (In_Right lt a d' # fs) rt
              else descend prio r (In_Left a d' rt # fs) lt
      else (fs, Node lt a d rt))"

text \<open>
  The loop that splits a treap at \<open>p\<close> into the nodes before and after, with the longest ranges of the
  nodes on both paths fixed.
\<close>

fun split_treap :: "huge_page \<Rightarrow> treap \<Rightarrow> treap \<times> treap" where
  "split_treap p Null = (Null, Null)"
| "split_treap p (Node l a d r) =
     (if hr_start (n_range d) < p
      then let (less, more) = split_treap p r in (fix_node l a d less, more)
      else let (less, more) = split_treap p l in (less, fix_node more a d r))"

definition add_node :: "u64 \<Rightarrow> map_node \<Rightarrow> treap \<Rightarrow> treap" where
  "add_node n d t =
     (let (fs, curr) = descend (n_prio d) (n_range d) [] t
      in if curr = Null then plug fs (Node Null n (d\<lparr>n_longest := hr_len (n_range d)\<rparr>) Null)
         else let (less, more) = split_treap (hr_start (n_range d)) curr
              in fix_up fs (fix_node less n d more))"

text \<open>The range at a node, if there is one.\<close>

definition range_at :: "u64 \<Rightarrow> huge_address_map \<Rightarrow> huge_range option result" where
  "range_at a m = (if a = 0 then Inr None else bind_res (at a (hm_root m)) (\<lambda>(_, _, d, _). Inr (Some (n_range d))))"

definition Insert :: "map_env \<Rightarrow> huge_range \<Rightarrow> huge_address_map \<Rightarrow> huge_address_map result" where
  "Insert env r m0 =
     (let m = m0\<lparr>total_size := total_size m0 + hr_len r\<rparr>; before = Predecessor (hr_start r) m
      in bind_res (range_at before m) (\<lambda>rb.
         if (case rb of None \<Rightarrow> False | Some b \<Rightarrow> intersects b r) then Inl Assert_Failed
         else bind_res (if before \<noteq> 0 then next_node before (hm_root m) else Inr (first_node m)) (\<lambda>after.
              bind_res (range_at after m) (\<lambda>ra.
              if (case ra of None \<Rightarrow> False | Some a \<Rightarrow> intersects a r) then Inl Assert_Failed
              else let joins_b = (case rb of None \<Rightarrow> False | Some b \<Rightarrow> precedes b r);
                       joins_a = (case ra of None \<Rightarrow> False | Some a \<Rightarrow> precedes r a)
                   in if joins_b then Merge env before r (if joins_a then after else 0) m
                      else if joins_a then Merge env 0 r after m
                      else bind_res (Get env r m) (\<lambda>(n, d, m'). Inr (m'\<lparr>hm_root := add_node n d (hm_root m')\<rparr>))))))"

end
