(* ===== verification/Huge_Map_Invariant.thy ===== *)
theory Huge_Map_Invariant
  imports Huge_Address_Map
begin

text \<open>
  The treap of huge ranges represents a set of pages. Each operation is related to the list of nodes in
  address order, which an insertion or removal changes at one place; the ranges of the list do not even
  touch, the priorities form a heap, and the longest range of every subtree is exact.
\<close>

section \<open>Nodes in address order\<close>

type_synonym item = "u64 \<times> huge_range \<times> int"

abbreviation rg :: "item \<Rightarrow> huge_range" where "rg x \<equiv> fst (snd x)"
abbreviation prio :: "item \<Rightarrow> int" where "prio x \<equiv> snd (snd x)"

fun shape :: "treap \<Rightarrow> item list" where
  "shape Null = []"
| "shape (Node l a d r) = shape l @ (a, n_range d, n_prio d) # shape r"

fun before_hole :: "frame list \<Rightarrow> item list" where
  "before_hole [] = []"
| "before_hole (In_Left a d r # fs) = before_hole fs"
| "before_hole (In_Right l a d # fs) = before_hole fs @ shape l @ [(a, n_range d, n_prio d)]"

fun after_hole :: "frame list \<Rightarrow> item list" where
  "after_hole [] = []"
| "after_hole (In_Left a d r # fs) = (a, n_range d, n_prio d) # shape r @ after_hole fs"
| "after_hole (In_Right l a d # fs) = after_hole fs"

lemma shape_plug: "shape (plug fs t) = before_hole fs @ shape t @ after_hole fs"
  by (induction fs t rule: plug.induct) simp_all

lemma shape_fix_node [simp]: "shape (fix_node l a d r) = shape l @ (a, n_range d, n_prio d) # shape r"
  by (simp add: fix_node_def)

lemma shape_fix_up: "shape (fix_up fs t) = before_hole fs @ shape t @ after_hole fs"
  by (induction fs t rule: fix_up.induct) simp_all

lemma hole_fix_frames: "before_hole (fix_frames fs t) = before_hole fs \<and> after_hole (fix_frames fs t) = after_hole fs"
  by (induction fs t rule: fix_frames.induct) simp_all

lemma path_to_Some: "path_to a fs t = Some (gs, l, d, r) \<Longrightarrow> plug gs (Node l a d r) = plug fs t"
  by (induction t arbitrary: fs) (auto split: if_splits option.splits)

lemma path_to_None: "path_to a fs t = None \<longleftrightarrow> a \<notin> fst ` set (shape t)"
proof (induction t arbitrary: fs)
  case (Node l x d r)
  show ?case
  proof (cases "path_to a (In_Left x d r # fs) l")
    case None
    then show ?thesis using Node by (auto simp: image_Un)
  next
    case (Some y)
    then have "a \<in> fst ` set (shape l)" using Node.IH(1) [of "In_Left x d r # fs"] by (metis option.distinct(1))
    then show ?thesis using Some by (cases y) (auto simp: image_Un)
  qed
qed simp

lemma split_unique:
  "us @ (a, y) # vs = us' @ (a, y') # vs' \<Longrightarrow> distinct (map fst (us @ (a, y) # vs)) \<Longrightarrow> us = us' \<and> y = y' \<and> vs = vs'"
proof (induction us arbitrary: us')
  case Nil
  then show ?case by (cases us') auto
next
  case (Cons x us)
  then show ?case by (cases us') auto
qed

text \<open>A dereference of a node in the tree.\<close>

lemma at_ok:
  assumes s: "shape t = us @ (a, x, p) # vs" and "distinct (map fst (shape t))" and "a \<noteq> 0"
  shows "\<exists>fs l d r. at a t = Inr (fs, l, d, r) \<and> plug fs (Node l a d r) = t \<and> n_range d = x \<and> n_prio d = p
    \<and> us = before_hole fs @ shape l \<and> vs = shape r @ after_hole fs"
proof -
  have "a \<in> fst ` set (shape t)" using s by simp
  then obtain fs l d r where p: "path_to a [] t = Some (fs, l, d, r)" using path_to_None [of a "[]" t] by auto
  have t: "plug fs (Node l a d r) = t" using path_to_Some [OF p] by simp
  have e: "us @ (a, x, p) # vs = (before_hole fs @ shape l) @ (a, n_range d, n_prio d) # shape r @ after_hole fs"
    using s shape_plug [of fs "Node l a d r"] by (simp add: t)
  have "us = before_hole fs @ shape l \<and> (x, p) = (n_range d, n_prio d) \<and> vs = shape r @ after_hole fs"
    using split_unique [OF e] assms(2) unfolding s by blast
  then show ?thesis using p t assms(3) by (simp add: at_def)
qed

section \<open>Neighbours\<close>

definition hd_addr :: "item list \<Rightarrow> u64" where
  "hd_addr xs = (case xs of [] \<Rightarrow> 0 | x # _ \<Rightarrow> fst x)"

lemma hd_addr_simps [simp]: "hd_addr [] = 0" "hd_addr (x # xs) = fst x"
  by (simp_all add: hd_addr_def)

lemma leftmost_shape: "leftmost t = hd_addr (shape t)"
proof (induction t)
  case (Node l a d r)
  have "shape l = [] \<longleftrightarrow> l = Null" by (cases l) simp_all
  then show ?case using Node.IH(1) by (cases "shape l") simp_all
qed simp

lemma climb_after: "climb fs = hd_addr (after_hole fs)"
  by (induction fs rule: climb.induct) simp_all

lemma hd_addr_append: "hd_addr (xs @ ys) = (if xs = [] then hd_addr ys else hd_addr xs)"
  by (cases xs) simp_all

lemma next_node_ok:
  assumes "shape t = us @ (a, x, p) # vs" and "distinct (map fst (shape t))" and "a \<noteq> 0"
  shows "next_node a t = Inr (hd_addr vs)"
proof -
  obtain fs l d r where "at a t = Inr (fs, l, d, r)" "vs = shape r @ after_hole fs" using at_ok [OF assms] by blast
  moreover have "shape r = [] \<longleftrightarrow> r = Null" by (cases r) simp_all
  ultimately show ?thesis by (simp add: next_node_def hd_addr_append leftmost_shape climb_after del: bind_res_Inr_iff)
qed

section \<open>Order\<close>

definition ord :: "item list \<Rightarrow> bool" where
  "ord xs \<longleftrightarrow> sorted_wrt (\<lambda>x y. hr_start (rg x) < hr_start (rg y)) xs"

text \<open>Ranges that do not touch: at least one page lies between two of them.\<close>

definition sep :: "item list \<Rightarrow> bool" where
  "sep xs \<longleftrightarrow> sorted_wrt (\<lambda>x y. r_end (rg x) < unat (hr_start (rg y))) xs \<and> (\<forall>x \<in> set xs. range_ok (rg x))"

lemma sep_append:
  "sep (xs @ ys) \<longleftrightarrow> sep xs \<and> sep ys \<and> (\<forall>x \<in> set xs. \<forall>y \<in> set ys. r_end (rg x) < unat (hr_start (rg y)))"
  by (auto simp: sep_def sorted_wrt_append)

lemma sep_Cons: "sep (x # ys) \<longleftrightarrow> range_ok (rg x) \<and> sep ys \<and> (\<forall>y \<in> set ys. r_end (rg x) < unat (hr_start (rg y)))"
  by (auto simp: sep_def)

lemma sep_Nil [simp]: "sep []"
  by (simp add: sep_def)

lemma sep_ord: "sep xs \<Longrightarrow> ord xs"
  unfolding sep_def ord_def
proof (elim conjE, rule sorted_wrt_mono_rel [rotated])
  assume r: "\<forall>x \<in> set xs. range_ok (rg x)"
  fix x y assume "x \<in> set xs" "r_end (rg x) < unat (hr_start (rg y))"
  then show "hr_start (rg x) < hr_start (rg y)" using range_okD(1) [of "rg x"] r by (simp add: word_less_nat_alt)
qed

lemma ord_append: "ord (xs @ ys) \<longleftrightarrow> ord xs \<and> ord ys \<and> (\<forall>x \<in> set xs. \<forall>y \<in> set ys. hr_start (rg x) < hr_start (rg y))"
  by (auto simp: ord_def sorted_wrt_append)

lemma ord_Cons: "ord (x # ys) \<longleftrightarrow> ord ys \<and> (\<forall>y \<in> set ys. hr_start (rg x) < hr_start (rg y))"
  by (auto simp: ord_def)

lemma ord_Nil [simp]: "ord []"
  by (simp add: ord_def)

lemma filter_ord:
  assumes "\<forall>x \<in> set us. hr_start (rg x) < p" and "\<forall>x \<in> set vs. \<not> hr_start (rg x) < p"
  shows "filter (\<lambda>x. hr_start (rg x) < p) (us @ vs) = us" "filter (\<lambda>x. \<not> hr_start (rg x) < p) (us @ vs) = vs"
  using assms by (simp_all add: filter_id_conv filter_empty_conv)

text \<open>The list split at a page.\<close>

lemma ord_split:
  assumes "ord xs"
  obtains us vs where "xs = us @ vs" "\<forall>x \<in> set us. hr_start (rg x) \<le> p" "\<forall>x \<in> set vs. p < hr_start (rg x)"
proof -
  have "\<exists>us vs. xs = us @ vs \<and> (\<forall>x \<in> set us. hr_start (rg x) \<le> p) \<and> (\<forall>x \<in> set vs. p < hr_start (rg x))" using assms
  proof (induction xs)
    case (Cons x xs)
    then obtain us vs where u: "xs = us @ vs" "\<forall>x \<in> set us. hr_start (rg x) \<le> p" "\<forall>x \<in> set vs. p < hr_start (rg x)" by (auto simp: ord_Cons)
    show ?case
    proof (cases "hr_start (rg x) \<le> p")
      case True
      then show ?thesis using u by (intro exI [of _ "x # us"] exI [of _ vs]) auto
    next
      case False
      then have "\<forall>y \<in> set (x # xs). p < hr_start (rg y)" using Cons.prems by (auto simp: ord_Cons)
      then show ?thesis by (intro exI [of _ "[]"] exI [of _ "x # xs"]) auto
    qed
  qed simp
  then show thesis using that by blast
qed

text \<open>\<open>Predecessor\<close> is the last node that starts at or before the page.\<close>

definition last_addr :: "item list \<Rightarrow> u64 \<Rightarrow> u64" where
  "last_addr xs a = (if xs = [] then a else fst (last xs))"

lemma pred_loop_ok:
  assumes "sep (shape t)"
  shows "pred_loop p t best = last_addr (filter (\<lambda>x. hr_start (rg x) \<le> p) (shape t)) best"
  using assms
proof (induction t arbitrary: best)
  case Null
  then show ?case by (simp add: last_addr_def)
next
  case (Node l a d r)
  let ?P = "\<lambda>x. hr_start (rg x) \<le> p"
  have s: "sep (shape l)" "sep (shape r)" "range_ok (n_range d)" "\<forall>x \<in> set (shape r). r_end (n_range d) < unat (hr_start (rg x))"
    using Node.prems by (auto simp: sep_append sep_Cons)
  note d = range_okD [OF s(3)]
  consider "contains (n_range d) p" | "\<not> contains (n_range d) p" "p < hr_start (n_range d)" | "\<not> contains (n_range d) p" "\<not> p < hr_start (n_range d)" by blast
  then show ?case
  proof cases
    case 1
    then have c: "unat (hr_start (n_range d)) \<le> unat p" "unat p < r_end (n_range d)" unfolding contains_iff [OF s(3)] by (auto simp: pages_of_def)
    have "filter ?P (shape r) = []" using s(4) c(2) by (force simp: filter_empty_conv word_le_nat_alt)
    then show ?thesis using 1 c(1) by (simp add: last_addr_def word_le_nat_alt)
  next
    case 2
    have "filter ?P (shape r) = []" using s(4) 2(2) d(1) by (force simp: filter_empty_conv word_le_nat_alt word_less_nat_alt)
    moreover have "\<not> hr_start (n_range d) \<le> p" using 2(2) by simp
    ultimately show ?thesis using 2 Node.IH(1) [OF s(1)] by simp
  next
    case 3
    moreover have "hr_start (n_range d) \<le> p" using 3(2) by simp
    ultimately show ?thesis using Node.IH(2) [OF s(2)] by (simp add: last_addr_def)
  qed
qed

section \<open>Longest ranges and priorities\<close>

fun long_ok :: "treap \<Rightarrow> bool" where
  "long_ok Null \<longleftrightarrow> True"
| "long_ok (Node l a d r) \<longleftrightarrow> long_ok l \<and> long_ok r \<and> n_longest d = max (max (longest_of l) (longest_of r)) (hr_len (n_range d))"

text \<open>The frames around a subtree whose longest range is \<open>m\<close>, and the frames without regard to their own longest ranges.\<close>

fun frames_long :: "frame list \<Rightarrow> huge_length \<Rightarrow> bool" where
  "frames_long [] m \<longleftrightarrow> True"
| "frames_long (In_Left a d r # fs) m \<longleftrightarrow> long_ok r \<and> n_longest d = max (max m (longest_of r)) (hr_len (n_range d)) \<and> frames_long fs (n_longest d)"
| "frames_long (In_Right l a d # fs) m \<longleftrightarrow> long_ok l \<and> n_longest d = max (max (longest_of l) m) (hr_len (n_range d)) \<and> frames_long fs (n_longest d)"

fun sib_long :: "frame list \<Rightarrow> bool" where
  "sib_long [] \<longleftrightarrow> True"
| "sib_long (In_Left a d r # fs) \<longleftrightarrow> long_ok r \<and> sib_long fs"
| "sib_long (In_Right l a d # fs) \<longleftrightarrow> long_ok l \<and> sib_long fs"

lemma long_plug: "long_ok (plug fs t) \<longleftrightarrow> long_ok t \<and> frames_long fs (longest_of t)"
  by (induction fs t rule: plug.induct) auto

lemma frames_long_sib: "frames_long fs m \<Longrightarrow> sib_long fs"
  by (induction fs m rule: frames_long.induct) auto

lemma long_fix_node [simp]: "long_ok (fix_node l a d r) \<longleftrightarrow> long_ok l \<and> long_ok r"
  by (simp add: fix_node_def)

lemma long_fix_up: "long_ok t \<Longrightarrow> sib_long fs \<Longrightarrow> long_ok (fix_up fs t)"
  by (induction fs t rule: fix_up.induct) simp_all

lemma frames_long_fix: "sib_long fs \<Longrightarrow> frames_long (fix_frames fs t) (longest_of t)"
  by (induction fs t rule: fix_frames.induct) (simp_all add: fix_node_def)

fun heap_ok :: "treap \<Rightarrow> bool" where
  "heap_ok Null \<longleftrightarrow> True"
| "heap_ok (Node l a d r) \<longleftrightarrow> heap_ok l \<and> heap_ok r \<and> (\<forall>x \<in> set (shape l) \<union> set (shape r). prio x \<le> n_prio d)"

fun fprio :: "frame \<Rightarrow> int" where
  "fprio (In_Left a d r) = n_prio d"
| "fprio (In_Right l a d) = n_prio d"

fun fsib :: "frame \<Rightarrow> treap" where
  "fsib (In_Left a d r) = r"
| "fsib (In_Right l a d) = l"

abbreviation prios :: "treap \<Rightarrow> int set" where "prios t \<equiv> prio ` set (shape t)"

text \<open>The frames around a subtree with priorities \<open>X\<close>.\<close>

fun frames_heap :: "frame list \<Rightarrow> int set \<Rightarrow> bool" where
  "frames_heap [] X \<longleftrightarrow> True"
| "frames_heap (f # fs) X \<longleftrightarrow> heap_ok (fsib f) \<and> (\<forall>p \<in> X \<union> prios (fsib f). p \<le> fprio f) \<and> frames_heap fs (X \<union> prios (fsib f) \<union> {fprio f})"

lemma prios_Node: "prios (Node l a d r) = prios l \<union> prios r \<union> {n_prio d}"
  by auto

lemma heap_Node: "heap_ok (Node l a d r) \<longleftrightarrow> heap_ok l \<and> heap_ok r \<and> (\<forall>p \<in> prios l \<union> prios r. p \<le> n_prio d)"
  by auto

declare heap_ok.simps(2) [simp del]

lemma heap_plug: "heap_ok (plug fs t) \<longleftrightarrow> heap_ok t \<and> frames_heap fs (prios t)"
proof (induction fs t rule: plug.induct)
  case (3 l a d fs t)
  have "prios l \<union> prios t = prios t \<union> prios l" by blast
  then show ?case using 3 by (auto simp: heap_Node prios_Node simp del: shape.simps)
qed (auto simp: heap_Node prios_Node simp del: shape.simps)

text \<open>A hole can be filled with anything below the innermost frame.\<close>

lemma frames_heap_replace:
  "frames_heap fs X \<Longrightarrow> (\<And>p f fs'. p \<in> Y \<Longrightarrow> fs = f # fs' \<Longrightarrow> p \<le> fprio f) \<Longrightarrow> frames_heap fs Y"
proof (induction fs arbitrary: X Y)
  case (Cons f fs)
  let ?S = "prios (fsib f) \<union> {fprio f}"
  have y: "p \<le> fprio f" if "p \<in> Y" for p using Cons.prems(2) that by blast
  have h: "frames_heap fs (X \<union> ?S)" using Cons.prems(1) by (simp add: Un_assoc)
  have "p \<le> fprio g" if p: "p \<in> Y \<union> ?S" and g: "fs = g # gs" for p g gs
  proof -
    have b: "q \<le> fprio g" if "q \<in> ?S" for q using h that unfolding g by auto
    show ?thesis using p b [of p] y [of p] b [of "fprio f"] by auto
  qed
  then have "frames_heap fs (Y \<union> ?S)" using Cons.IH [OF h] by blast
  then show ?case using Cons.prems(1) y by (auto simp: Un_assoc)
qed simp

lemma frames_heap_bound: "frames_heap (f # fs) X \<Longrightarrow> p \<in> X \<Longrightarrow> p \<le> fprio f"
  by simp

lemma frames_heap_mono: "frames_heap fs X \<Longrightarrow> Y \<subseteq> X \<Longrightarrow> frames_heap fs Y"
  by (rule frames_heap_replace [of fs X]) (auto dest: frames_heap_bound)

lemma heap_fix_node [simp]: "heap_ok (fix_node l a d r) \<longleftrightarrow> heap_ok (Node l a d r)"
  by (simp add: fix_node_def heap_Node)

lemma prios_fix_node: "prios (fix_node l a d r) = prios l \<union> prios r \<union> {n_prio d}"
  by auto

lemma heap_fix_up: "heap_ok (fix_up fs t) \<longleftrightarrow> heap_ok t \<and> frames_heap fs (prios t)"
proof (induction fs t rule: fix_up.induct)
  case (3 l a d fs t)
  have "prios l \<union> prios t = prios t \<union> prios l" by blast
  then show ?case using 3 by (auto simp: heap_Node prios_fix_node simp del: shape_fix_node)
qed (auto simp: heap_Node prios_fix_node simp del: shape_fix_node)

lemma frames_heap_fix: "frames_heap (fix_frames fs t) X \<longleftrightarrow> frames_heap fs X"
  by (induction fs t arbitrary: X rule: fix_frames.induct) simp_all

section \<open>Adding a node\<close>

lemma split_shape:
  "ord (shape t) \<Longrightarrow> split_treap p t = (x, y) \<Longrightarrow>
     shape x = filter (\<lambda>i. hr_start (rg i) < p) (shape t) \<and> shape y = filter (\<lambda>i. \<not> hr_start (rg i) < p) (shape t)"
proof (induction t arbitrary: x y)
  case (Node l a d r)
  have o: "ord (shape l)" "ord (shape r)" using Node.prems(1) by (auto simp: ord_append ord_Cons)
  show ?case
  proof (cases "hr_start (n_range d) < p")
    case True
    obtain u v where s: "split_treap p r = (u, v)" by fastforce
    have "\<forall>i \<in> set (shape l). hr_start (rg i) < p" using Node.prems(1) True by (auto simp: ord_append intro: less_trans)
    then have "filter (\<lambda>i. hr_start (rg i) < p) (shape l) = shape l" "filter (\<lambda>i. \<not> hr_start (rg i) < p) (shape l) = []"
      by (simp_all add: filter_id_conv filter_empty_conv)
    then show ?thesis using Node.prems(2) True s Node.IH(2) [OF o(2) s] by auto
  next
    case False
    obtain u v where s: "split_treap p l = (u, v)" by fastforce
    have "\<forall>i \<in> set (shape r). \<not> hr_start (rg i) < p" using Node.prems(1) False by (auto simp: ord_append ord_Cons dest: less_trans)
    then have "filter (\<lambda>i. hr_start (rg i) < p) (shape r) = []" "filter (\<lambda>i. \<not> hr_start (rg i) < p) (shape r) = shape r"
      by (simp_all add: filter_id_conv filter_empty_conv)
    then show ?thesis using Node.prems(2) False s Node.IH(1) [OF o(1) s] by auto
  qed
qed simp

lemma split_long: "long_ok t \<Longrightarrow> split_treap p t = (x, y) \<Longrightarrow> long_ok x \<and> long_ok y"
proof (induction t arbitrary: x y)
  case (Node l a d r)
  obtain u v where s: "split_treap p r = (u, v)" by fastforce
  obtain w z where t: "split_treap p l = (w, z)" by fastforce
  have "long_ok u \<and> long_ok v" "long_ok w \<and> long_ok z" "long_ok l" "long_ok r"
    using Node.IH(1) [OF _ t] Node.IH(2) [OF _ s] Node.prems(1) by simp_all
  then show ?case using Node.prems s t by (auto simp del: long_ok.simps(2) split: if_splits)
qed simp

lemma split_set: "split_treap p t = (x, y) \<Longrightarrow> set (shape x) \<union> set (shape y) = set (shape t)"
proof (induction t arbitrary: x y)
  case (Node l a d r)
  obtain u v where s: "split_treap p r = (u, v)" by fastforce
  obtain w z where t: "split_treap p l = (w, z)" by fastforce
  show ?case using Node.prems Node.IH(1) [OF t] Node.IH(2) [OF s] s t by (auto split: if_splits)
qed simp

lemma split_heap: "heap_ok t \<Longrightarrow> split_treap p t = (x, y) \<Longrightarrow> heap_ok x \<and> heap_ok y"
proof (induction t arbitrary: x y)
  case (Node l a d r)
  obtain u v where s: "split_treap p r = (u, v)" by fastforce
  obtain w z where t: "split_treap p l = (w, z)" by fastforce
  have h: "heap_ok l" "heap_ok r" "\<forall>q \<in> prios l \<union> prios r. q \<le> n_prio d" using Node.prems(1) by (simp_all add: heap_Node)
  have "prios u \<subseteq> prios r" "prios z \<subseteq> prios l" using split_set [OF s] split_set [OF t] by (metis Un_upper1 Un_upper2 image_mono)+
  then have "\<forall>q \<in> prios l \<union> prios u. q \<le> n_prio d" "\<forall>q \<in> prios z \<union> prios r. q \<le> n_prio d" using h(3) by blast+
  then have "heap_ok (fix_node l a d u)" "heap_ok (fix_node z a d r)" using h Node.IH(1) [OF _ t] Node.IH(2) [OF _ s] by (simp_all add: heap_Node)
  then show ?case using Node.prems(2) Node.IH(1) [OF h(1) t] Node.IH(2) [OF h(2) s] s t by (auto split: if_splits)
qed simp

lemma descend_shape:
  "descend p r fs t = (gs, c) \<Longrightarrow> before_hole gs @ shape c @ after_hole gs = before_hole fs @ shape t @ after_hole fs"
  by (induction p r fs t rule: descend.induct) (auto simp: Let_def split: if_splits)

lemma descend_order:
  "descend p r fs t = (gs, c) \<Longrightarrow> ord (shape t) \<Longrightarrow> \<forall>i \<in> set (before_hole fs). hr_start (rg i) < hr_start r \<Longrightarrow>
     \<forall>i \<in> set (after_hole fs). \<not> hr_start (rg i) < hr_start r \<Longrightarrow>
     (\<forall>i \<in> set (before_hole gs). hr_start (rg i) < hr_start r) \<and> (\<forall>i \<in> set (after_hole gs). \<not> hr_start (rg i) < hr_start r)"
proof (induction p r fs t rule: descend.induct)
  case (2 p r fs lt a d rt)
  have o: "ord (shape lt)" "ord (shape rt)" "\<forall>i \<in> set (shape lt). hr_start (rg i) < hr_start (n_range d)"
      "\<forall>i \<in> set (shape rt). hr_start (n_range d) < hr_start (rg i)"
    using 2(4) by (auto simp: ord_append ord_Cons)
  consider "\<not> n_prio d \<ge> p" | "n_prio d \<ge> p" "hr_start (n_range d) < hr_start r" | "n_prio d \<ge> p" "\<not> hr_start (n_range d) < hr_start r" by blast
  then show ?case
  proof cases
    case 1
    then show ?thesis using 2 by auto
  next
    case c: 2
    let ?d = "d\<lparr>n_longest := max (n_longest d) (hr_len r)\<rparr>"
    have l: "\<forall>i \<in> set (shape lt). hr_start (rg i) < hr_start r" using o(3) c(2) by (auto intro: less_trans)
    have e: "descend p r (In_Right lt a ?d # fs) rt = (gs, c)" using 2(3) c by (simp add: Let_def)
    have b: "\<forall>i \<in> set (before_hole (In_Right lt a ?d # fs)). hr_start (rg i) < hr_start r" using l 2(5) c(2) by auto
    have "\<forall>i \<in> set (after_hole (In_Right lt a ?d # fs)). \<not> hr_start (rg i) < hr_start r" using 2(6) by (simp only: after_hole.simps)
    from 2(1) [OF c(1) refl c(2) e o(2) b this] show ?thesis .
  next
    case 3
    let ?d = "d\<lparr>n_longest := max (n_longest d) (hr_len r)\<rparr>"
    have l: "\<forall>i \<in> set (shape rt). \<not> hr_start (rg i) < hr_start r" using o(4) 3(2) by (auto dest: less_trans)
    have e: "descend p r (In_Left a ?d rt # fs) lt = (gs, c)" using 2(3) 3 by (simp add: Let_def)
    have b: "\<forall>i \<in> set (after_hole (In_Left a ?d rt # fs)). \<not> hr_start (rg i) < hr_start r" using l 2(6) 3(2) by auto
    have "\<forall>i \<in> set (before_hole (In_Left a ?d rt # fs)). hr_start (rg i) < hr_start r" using 2(5) by (simp only: before_hole.simps)
    from 2(2) [OF 3(1) refl 3(2) e o(1) this b] show ?thesis .
  qed
qed simp

lemma descend_long:
  "descend p r fs t = (gs, c) \<Longrightarrow> long_ok t \<Longrightarrow> frames_long fs (max (longest_of t) (hr_len r)) \<Longrightarrow>
     long_ok c \<and> frames_long gs (max (longest_of c) (hr_len r))"
proof (induction p r fs t rule: descend.induct)
  case (2 p r fs lt a d rt)
  let ?d = "d\<lparr>n_longest := max (n_longest d) (hr_len r)\<rparr>"
  have l: "long_ok lt" "long_ok rt" "n_longest d = max (max (longest_of lt) (longest_of rt)) (hr_len (n_range d))" using 2(4) by simp_all
  have m: "frames_long fs (n_longest ?d)" using 2(5) by simp
  consider "\<not> n_prio d \<ge> p" | "n_prio d \<ge> p" "hr_start (n_range d) < hr_start r" | "n_prio d \<ge> p" "\<not> hr_start (n_range d) < hr_start r" by blast
  then show ?case
  proof cases
    case 1
    then have "gs = fs" "c = Node lt a d rt" using 2(3) by simp_all
    then show ?thesis using 2(4,5) by simp
  next
    case c: 2
    have e: "descend p r (In_Right lt a ?d # fs) rt = (gs, c)" using 2(3) c by (simp add: Let_def)
    have "n_longest ?d = max (max (longest_of lt) (max (longest_of rt) (hr_len r))) (hr_len (n_range ?d))" using l(3) by (simp add: max.assoc max.commute max.left_commute)
    then have "frames_long (In_Right lt a ?d # fs) (max (longest_of rt) (hr_len r))" using m l(1) by (simp only: frames_long.simps)
    from 2(1) [OF c(1) refl c(2) e l(2) this] show ?thesis .
  next
    case 3
    have e: "descend p r (In_Left a ?d rt # fs) lt = (gs, c)" using 2(3) 3 by (simp add: Let_def)
    have "n_longest ?d = max (max (max (longest_of lt) (hr_len r)) (longest_of rt)) (hr_len (n_range ?d))" using l(3) by (simp add: max.assoc max.commute max.left_commute)
    then have "frames_long (In_Left a ?d rt # fs) (max (longest_of lt) (hr_len r))" using m l(2) by (simp only: frames_long.simps)
    from 2(2) [OF 3(1) refl 3(2) e l(1) this] show ?thesis .
  qed
qed simp

lemma descend_heap:
  "descend p r fs t = (gs, c) \<Longrightarrow> heap_ok t \<Longrightarrow> frames_heap fs (prios t) \<Longrightarrow> (\<forall>f fs'. fs = f # fs' \<longrightarrow> p \<le> fprio f) \<Longrightarrow>
     heap_ok c \<and> frames_heap gs (prios c) \<and> (\<forall>q \<in> prios c. q \<le> p) \<and> (\<forall>f gs'. gs = f # gs' \<longrightarrow> p \<le> fprio f)"
proof (induction p r fs t rule: descend.induct)
  case (2 p r fs lt a d rt)
  let ?d = "d\<lparr>n_longest := max (n_longest d) (hr_len r)\<rparr>"
  have h: "heap_ok lt" "heap_ok rt" "\<forall>q \<in> prios lt \<union> prios rt. q \<le> n_prio d" using 2(4) by (simp_all add: heap_Node)
  have X: "frames_heap fs (prios lt \<union> prios rt \<union> {n_prio d})" using 2(5) by (simp only: prios_Node)
  have Y: "frames_heap fs (prios rt \<union> prios lt \<union> {n_prio d})" using X by (simp only: Un_commute [of "prios rt"])
  consider "\<not> n_prio d \<ge> p" | "n_prio d \<ge> p" "hr_start (n_range d) < hr_start r" | "n_prio d \<ge> p" "\<not> hr_start (n_range d) < hr_start r" by blast
  then show ?case
  proof cases
    case 1
    have "q \<le> p" if "q \<in> prios (Node lt a d rt)" for q
    proof -
      have "q \<le> n_prio d" using that h(3) unfolding prios_Node by blast
      then show ?thesis using 1 by linarith
    qed
    moreover have "gs = fs" "c = Node lt a d rt" using 1 2(3) by simp_all
    ultimately show ?thesis using 2(4-6) by blast
  next
    case c: 2
    have e: "descend p r (In_Right lt a ?d # fs) rt = (gs, c)" using 2(3) c by (simp add: Let_def)
    have f: "frames_heap (In_Right lt a ?d # fs) (prios rt)" using Y h by (simp add: Un_commute)
    have "\<forall>f fs'. In_Right lt a ?d # fs = f # fs' \<longrightarrow> p \<le> fprio f" using c(1) by auto
    from 2(1) [OF c(1) refl c(2) e h(2) f this] show ?thesis .
  next
    case 3
    have e: "descend p r (In_Left a ?d rt # fs) lt = (gs, c)" using 2(3) 3 by (simp add: Let_def)
    have f: "frames_heap (In_Left a ?d rt # fs) (prios lt)" using X h by simp
    have "\<forall>f fs'. In_Left a ?d rt # fs = f # fs' \<longrightarrow> p \<le> fprio f" using 3(1) by auto
    from 2(2) [OF 3(1) refl 3(2) e h(1) f this] show ?thesis .
  qed
qed simp

lemma frames_heap_fill:
  assumes "frames_heap fs X" and "\<forall>f gs. fs = f # gs \<longrightarrow> p \<le> fprio f" and "\<forall>q \<in> Y. q \<le> p"
  shows "frames_heap fs Y"
  using assms(2,3) by (intro frames_heap_replace [OF assms(1)]) force

abbreviation (input) starts_before :: "huge_page \<Rightarrow> item list \<Rightarrow> item list" where
  "starts_before p xs \<equiv> filter (\<lambda>i. hr_start (rg i) < p) xs"

abbreviation (input) starts_after :: "huge_page \<Rightarrow> item list \<Rightarrow> item list" where
  "starts_after p xs \<equiv> filter (\<lambda>i. \<not> hr_start (rg i) < p) xs"

lemma add_node_ok:
  assumes "ord (shape t)" and "long_ok t" and "heap_ok t"
  shows "shape (add_node n d t) = starts_before (hr_start (n_range d)) (shape t) @ (n, n_range d, n_prio d) # starts_after (hr_start (n_range d)) (shape t)"
    "long_ok (add_node n d t)" "heap_ok (add_node n d t)"
proof -
  let ?s = "hr_start (n_range d)" and ?p = "n_prio d"
  obtain fs c where e: "descend ?p (n_range d) [] t = (fs, c)" by fastforce
  have sh: "shape t = before_hole fs @ shape c @ after_hole fs" using descend_shape [OF e] by simp
  have o: "\<forall>i \<in> set (before_hole fs). hr_start (rg i) < ?s" "\<forall>i \<in> set (after_hole fs). \<not> hr_start (rg i) < ?s"
    using descend_order [OF e assms(1)] by simp_all
  have f: "starts_before ?s (shape t) = before_hole fs @ starts_before ?s (shape c)" "starts_after ?s (shape t) = starts_after ?s (shape c) @ after_hole fs"
    unfolding sh using o by (simp_all add: filter_id_conv filter_empty_conv)
  have l: "long_ok c" "frames_long fs (max (longest_of c) (hr_len (n_range d)))" using descend_long [OF e assms(2)] by simp_all
  have h: "heap_ok c" "frames_heap fs (prios c)" "\<forall>q \<in> prios c. q \<le> ?p" "\<forall>f gs. fs = f # gs \<longrightarrow> ?p \<le> fprio f"
    using descend_heap [OF e assms(3)] by simp_all
  have "shape (add_node n d t) = starts_before ?s (shape t) @ (n, n_range d, ?p) # starts_after ?s (shape t)
      \<and> long_ok (add_node n d t) \<and> heap_ok (add_node n d t)"
  proof (cases "c = Null")
    case True
    let ?n = "Node Null n (d\<lparr>n_longest := hr_len (n_range d)\<rparr>) Null"
    have a: "add_node n d t = plug fs ?n" using e True by (simp add: add_node_def)
    have "max 0 (hr_len (n_range d)) = hr_len (n_range d)" by (simp add: max_def)
    then have "long_ok (plug fs ?n)" using l(2) True by (simp add: long_plug)
    moreover have "frames_heap fs (prios ?n)" by (rule frames_heap_fill [OF h(2,4)]) simp
    ultimately show ?thesis unfolding a using f True by (simp add: shape_plug heap_plug heap_Node)
  next
    case False
    obtain x y where s: "split_treap ?s c = (x, y)" by fastforce
    have a: "add_node n d t = fix_up fs (fix_node x n d y)" using e False s by (simp add: add_node_def)
    have "ord (shape c)" using assms(1) unfolding sh by (simp add: ord_append)
    note ss = split_shape [OF this s] and sl = split_long [OF l(1) s] and sp = split_heap [OF h(1) s] and st = split_set [OF s]
    have q: "\<forall>q \<in> prios x \<union> prios y. q \<le> ?p" using h(3) unfolding st [symmetric] by blast
    then have "\<forall>q \<in> prios (fix_node x n d y). q \<le> ?p" unfolding prios_fix_node by blast
    then have "frames_heap fs (prios (fix_node x n d y))" by (rule frames_heap_fill [OF h(2,4)])
    moreover have "heap_ok (fix_node x n d y)" using sp q by (simp only: heap_fix_node heap_Node)
    ultimately have "heap_ok (add_node n d t)" unfolding a heap_fix_up by blast
    moreover have "long_ok (add_node n d t)" unfolding a using sl frames_long_sib [OF l(2)] by (intro long_fix_up) simp_all
    moreover have "shape (add_node n d t) = before_hole fs @ (shape x @ (n, n_range d, ?p) # shape y) @ after_hole fs" unfolding a by (simp add: shape_fix_up)
    ultimately show ?thesis unfolding f using ss by simp
  qed
  then show "shape (add_node n d t) = starts_before ?s (shape t) @ (n, n_range d, ?p) # starts_after ?s (shape t)"
    "long_ok (add_node n d t)" "heap_ok (add_node n d t)" by blast+
qed

section \<open>Removing a node\<close>

lemma glue_Null: "glue t Null = t" "glue Null b = b"
  by (subst glue.simps, cases t, simp_all) (subst glue.simps, cases b, simp_all)

lemma glue_Node:
  "glue (Node lt a d rt) (Node bl x e br) =
     (if n_prio d < n_prio e
      then let e' = e\<lparr>n_longest := max (n_longest e) (n_longest d)\<rparr>
           in if hr_start (n_range d) < hr_start (n_range e) then Node (glue bl (Node lt a d rt)) x e' br
              else Node bl x e' (glue br (Node lt a d rt))
      else let d' = d\<lparr>n_longest := max (n_longest d) (n_longest e)\<rparr>
           in if hr_start (n_range e) < hr_start (n_range d) then Node (glue lt (Node bl x e br)) a d' rt
              else Node lt a d' (glue rt (Node bl x e br)))"
  by (subst glue.simps) simp

lemma glue_cases_induct [case_names Left Right Nodes]:
  assumes "\<And>b. P Null b" and "\<And>t. P t Null"
    and "\<And>lt a d rt bl x e br. P bl (Node lt a d rt) \<Longrightarrow> P br (Node lt a d rt) \<Longrightarrow> P lt (Node bl x e br) \<Longrightarrow> P rt (Node bl x e br) \<Longrightarrow>
      P (Node lt a d rt) (Node bl x e br)"
  shows "P t b"
proof (induction "size t + size b" arbitrary: t b rule: less_induct)
  case less
  show ?case
  proof (cases t)
    case t: (Node lt a d rt)
    show ?thesis
    proof (cases b)
      case b: (Node bl x e br)
      show ?thesis unfolding t b by (rule assms(3); rule less; simp add: t b)
    qed (simp add: assms(2))
  qed (simp add: assms(1))
qed

lemma glue_set: "set (shape (glue t b)) = set (shape t) \<union> set (shape b)"
  by (induction t b rule: glue_cases_induct) (auto simp: glue_Null glue_Node Let_def)

lemma glue_longest: "longest_of (glue t b) = max (longest_of t) (longest_of b)"
proof (cases t)
  case t: (Node lt a d rt)
  show ?thesis
  proof (cases b)
    case Null
    then show ?thesis by (simp add: glue_Null max_def)
  next
    case b: (Node bl x e br)
    then show ?thesis by (simp add: t glue_Node Let_def max.commute)
  qed
qed (simp add: glue_Null max_def)

lemma glue_long: "long_ok t \<Longrightarrow> long_ok b \<Longrightarrow> long_ok (glue t b)"
proof (induction t b rule: glue_cases_induct)
  case (Nodes lt a d rt bl x e br)
  let ?t = "Node lt a d rt" and ?b = "Node bl x e br"
  have l: "long_ok lt" "long_ok rt" "n_longest d = max (max (longest_of lt) (longest_of rt)) (hr_len (n_range d))" using Nodes.prems(1) by simp_all
  have k: "long_ok bl" "long_ok br" "n_longest e = max (max (longest_of bl) (longest_of br)) (hr_len (n_range e))" using Nodes.prems(2) by simp_all
  have g: "long_ok (glue bl ?t)" "long_ok (glue br ?t)" "long_ok (glue lt ?b)" "long_ok (glue rt ?b)" using Nodes l(1,2) k(1,2) by blast+
  have lg: "longest_of (glue bl ?t) = max (longest_of bl) (n_longest d)" "longest_of (glue br ?t) = max (longest_of br) (n_longest d)"
      "longest_of (glue lt ?b) = max (longest_of lt) (n_longest e)" "longest_of (glue rt ?b) = max (longest_of rt) (n_longest e)"
    by (simp_all add: glue_longest)
  have "long_ok (Node (glue bl ?t) x (e\<lparr>n_longest := max (n_longest e) (n_longest d)\<rparr>) br)"
      "long_ok (Node bl x (e\<lparr>n_longest := max (n_longest e) (n_longest d)\<rparr>) (glue br ?t))"
    unfolding long_ok.simps lg using g(1,2) k by (simp_all add: max.assoc max.commute max.left_commute)
  moreover have "long_ok (Node (glue lt ?b) a (d\<lparr>n_longest := max (n_longest d) (n_longest e)\<rparr>) rt)"
      "long_ok (Node lt a (d\<lparr>n_longest := max (n_longest d) (n_longest e)\<rparr>) (glue rt ?b))"
    unfolding long_ok.simps lg using g(3,4) l by (simp_all add: max.assoc max.commute max.left_commute)
  ultimately show ?case unfolding glue_Node Let_def by (simp only: split: if_split) blast
qed (simp_all add: glue_Null)

lemma below_le: "\<forall>p \<in> A. p \<le> (x :: int) \<Longrightarrow> x \<le> y \<Longrightarrow> \<forall>p \<in> A \<union> {x}. p \<le> y"
  by (blast intro: order_trans)

lemma glue_heap: "heap_ok t \<Longrightarrow> heap_ok b \<Longrightarrow> heap_ok (glue t b)"
proof (induction t b rule: glue_cases_induct)
  case (Nodes lt a d rt bl x e br)
  let ?t = "Node lt a d rt" and ?b = "Node bl x e br"
  have l: "heap_ok lt" "heap_ok rt" "\<forall>p \<in> prios lt \<union> prios rt. p \<le> n_prio d" using Nodes.prems(1) by (simp_all add: heap_Node)
  have k: "heap_ok bl" "heap_ok br" "\<forall>p \<in> prios bl \<union> prios br. p \<le> n_prio e" using Nodes.prems(2) by (simp_all add: heap_Node)
  have g: "heap_ok (glue bl ?t)" "heap_ok (glue br ?t)" "heap_ok (glue lt ?b)" "heap_ok (glue rt ?b)" using Nodes l(1,2) k(1,2) by blast+
  have pg: "prios (glue u v) = prios u \<union> prios v" for u v by (simp add: glue_set image_Un)
  have pt: "prios ?t = prios lt \<union> prios rt \<union> {n_prio d}" "prios ?b = prios bl \<union> prios br \<union> {n_prio e}" by (rule prios_Node)+
  show ?case
  proof (cases "n_prio d < n_prio e")
    case True
    then have "\<forall>p \<in> prios ?t. p \<le> n_prio e" unfolding pt using below_le [OF l(3)] by simp
    then show ?thesis unfolding glue_Node Let_def using True g(1,2) k by (simp add: heap_Node pg del: shape.simps) blast
  next
    case False
    then have "\<forall>p \<in> prios ?b. p \<le> n_prio d" unfolding pt using below_le [OF k(3)] by simp
    then show ?thesis unfolding glue_Node Let_def using False g(3,4) l by (simp add: heap_Node pg del: shape.simps) blast
  qed
qed (simp_all add: glue_Null)

text \<open>Two treaps of which one lies before the other, given in either order.\<close>

lemma glue_shape:
  "(ord (shape t @ shape b) \<longrightarrow> shape (glue t b) = shape t @ shape b) \<and> (ord (shape b @ shape t) \<longrightarrow> shape (glue t b) = shape b @ shape t)"
proof (induction t b rule: glue_cases_induct)
  case (Nodes lt a d rt bl x e br)
  let ?t = "Node lt a d rt" and ?b = "Node bl x e br"
  have 1: "shape (glue ?t ?b) = shape ?t @ shape ?b" if o: "ord (shape ?t @ shape ?b)"
  proof -
    have s: "hr_start (n_range d) < hr_start (n_range e)" "ord (shape rt @ shape ?b)" "ord (shape ?t @ shape bl)"
      using o by (auto simp: ord_append ord_Cons)
    then have "shape (glue rt ?b) = shape rt @ shape ?b" "shape (glue bl ?t) = shape ?t @ shape bl" using Nodes.IH by blast+
    then show ?thesis unfolding glue_Node Let_def using s(1) less_not_sym [OF s(1)] by simp
  qed
  have 2: "shape (glue ?t ?b) = shape ?b @ shape ?t" if o: "ord (shape ?b @ shape ?t)"
  proof -
    have s: "hr_start (n_range e) < hr_start (n_range d)" "ord (shape ?b @ shape lt)" "ord (shape br @ shape ?t)"
      using o by (auto simp: ord_append ord_Cons)
    then have "shape (glue lt ?b) = shape ?b @ shape lt" "shape (glue br ?t) = shape br @ shape ?t" using Nodes.IH by blast+
    then show ?thesis unfolding glue_Node Let_def using s(1) less_not_sym [OF s(1)] by simp
  qed
  show ?case using 1 2 by blast
qed (simp_all add: glue_Null)

section \<open>The invariant of the tree\<close>

definition treap_ok :: "treap \<Rightarrow> bool" where
  "treap_ok t \<longleftrightarrow> sep (shape t) \<and> distinct (map fst (shape t)) \<and> 0 \<notin> fst ` set (shape t) \<and> long_ok t \<and> heap_ok t"

text \<open>The tree that \<open>Remove\<close> leaves behind.\<close>

definition removed :: "frame list \<Rightarrow> treap \<Rightarrow> u64 \<Rightarrow> map_node \<Rightarrow> treap \<Rightarrow> treap" where
  "removed fs l n d r =
     (let old = Node l n (d\<lparr>n_longest := max (longest_of l) (longest_of r)\<rparr>) r
      in case fix_frames fs old of [] \<Rightarrow> glue l r | f # fs' \<Rightarrow> plug fs' (set_link f (n_range d) old (glue l r)))"

lemma removed_plug:
  assumes o: "ord (shape (plug fs (Node l n d r)))"
  shows "removed fs l n d r = plug (fix_frames fs (Node l n (d\<lparr>n_longest := max (longest_of l) (longest_of r)\<rparr>) r)) (glue l r)"
proof (cases fs)
  case Nil
  then show ?thesis by (simp add: removed_def)
next
  case (Cons f gs)
  have b: "ord (before_hole fs @ (shape l @ (n, n_range d, n_prio d) # shape r) @ after_hole fs)" using o by (simp add: shape_plug)
  show ?thesis
  proof (cases f)
    case (In_Left a e t)
    then have "hr_start (n_range d) < hr_start (n_range e)" using b Cons by (simp add: ord_append ord_Cons)
    then show ?thesis using Cons In_Left by (simp add: removed_def)
  next
    case (In_Right t a e)
    then have "hr_start (n_range e) < hr_start (n_range d)" using b Cons by (simp add: ord_append ord_Cons)
    then have "\<not> hr_start (n_range d) < hr_start (n_range e)" by (rule less_not_sym)
    then show ?thesis using Cons In_Right by (simp add: removed_def)
  qed
qed

lemma removed_ok:
  assumes ok: "treap_ok (plug fs (Node l n d r))"
  shows "shape (removed fs l n d r) = before_hole fs @ shape l @ shape r @ after_hole fs" "long_ok (removed fs l n d r)" "heap_ok (removed fs l n d r)"
proof -
  let ?old = "Node l n (d\<lparr>n_longest := max (longest_of l) (longest_of r)\<rparr>) r"
  have o: "ord (shape (plug fs (Node l n d r)))" using ok sep_ord by (simp add: treap_ok_def)
  have e: "removed fs l n d r = plug (fix_frames fs ?old) (glue l r)" by (rule removed_plug [OF o])
  have "ord (shape l @ shape r)" using o by (simp add: shape_plug ord_append ord_Cons)
  then have g: "shape (glue l r) = shape l @ shape r" using glue_shape by blast
  show "shape (removed fs l n d r) = before_hole fs @ shape l @ shape r @ after_hole fs" unfolding e by (simp add: shape_plug hole_fix_frames g)
  have l: "long_ok l" "long_ok r" "sib_long fs" using ok frames_long_sib by (auto simp: treap_ok_def long_plug)
  have "longest_of (glue l r) = longest_of ?old" by (simp add: glue_longest)
  then show "long_ok (removed fs l n d r)" unfolding e long_plug using frames_long_fix [OF l(3), of ?old] glue_long [OF l(1,2)] by simp
  have h: "heap_ok l" "heap_ok r" "frames_heap fs (prios (Node l n d r))" using ok by (auto simp: treap_ok_def heap_plug heap_Node simp del: shape.simps)
  have "frames_heap fs (prios (glue l r))" by (rule frames_heap_mono [OF h(3)]) (simp only: prios_Node, simp only: g set_append image_Un, blast)
  then show "heap_ok (removed fs l n d r)" unfolding e heap_plug frames_heap_fix using glue_heap [OF h(1,2)] by blast
qed

section \<open>The invariant of the map\<close>

definition lpages :: "item list \<Rightarrow> nat set" where
  "lpages xs = (\<Union>x \<in> set xs. pages_of (rg x))"

lemma lpages_simps: "lpages [] = {}" "lpages (x # xs) = pages_of (rg x) \<union> lpages xs" "lpages (xs @ ys) = lpages xs \<union> lpages ys"
  by (simp_all add: lpages_def)

definition mpages :: "huge_address_map \<Rightarrow> nat set" where
  "mpages m = lpages (shape (hm_root m))"

lemma sep_card: "sep xs \<Longrightarrow> finite (lpages xs) \<and> card (lpages xs) = sum_list (map (\<lambda>x. unat (hr_len (rg x))) xs)"
proof (induction xs)
  case (Cons x xs)
  have "pages_of (rg x) \<inter> lpages xs = {}" using Cons.prems unfolding sep_Cons by (fastforce simp: pages_of_def lpages_def)
  moreover have "card (pages_of (rg x)) = unat (hr_len (rg x))" by (simp add: pages_of_def r_end_def)
  ultimately show ?case using Cons by (simp add: lpages_simps sep_Cons card_Un_disjoint pages_of_def)
qed (simp add: lpages_simps)

lemma lpages_bound: "sep xs \<Longrightarrow> lpages xs \<subseteq> {..< 2 ^ 43}"
  by (auto simp: sep_def lpages_def pages_of_def dest!: range_okD(2))

lemma sep_sum_bound: "sep xs \<Longrightarrow> sum_list (map (\<lambda>x. unat (hr_len (rg x))) xs) \<le> 2 ^ 43"
  using sep_card [of xs] lpages_bound [of xs] by (metis card_lessThan card_mono finite_lessThan)

text \<open>The nodes in use and the free nodes, and all but the count of pages.\<close>

definition core_inv :: "huge_address_map \<Rightarrow> bool" where
  "core_inv m \<longleftrightarrow> treap_ok (hm_root m) \<and> used_nodes m = of_nat (length (shape (hm_root m)))
     \<and> distinct (map fst (shape (hm_root m)) @ freelist m) \<and> 0 \<notin> set (freelist m)
     \<and> freelist_size m = of_nat (length (freelist m)) \<and> total_nodes m = used_nodes m + freelist_size m"

definition map_inv :: "huge_address_map \<Rightarrow> bool" where
  "map_inv m \<longleftrightarrow> core_inv m \<and> unat (total_size m) = card (mpages m)"

lemma core_invD:
  assumes "core_inv m"
  shows "sep (shape (hm_root m))" "distinct (map fst (shape (hm_root m)))" "0 \<notin> fst ` set (shape (hm_root m))" "treap_ok (hm_root m)"
    "used_nodes m = of_nat (length (shape (hm_root m)))" "long_ok (hm_root m)" "heap_ok (hm_root m)"
  using assms by (auto simp: core_inv_def treap_ok_def)

lemma freelist_bound:
  assumes "distinct (xs :: u64 list)" and "0 \<notin> set xs"
  shows "length xs < 2 ^ 64"
proof -
  have "set xs \<subset> UNIV" using assms(2) by auto
  then have "card (set xs) < card (UNIV :: u64 set)" by (intro psubset_card_mono) simp_all
  then show ?thesis using distinct_card [OF assms(1)] by (simp add: card_word)
qed

lemma freelist_empty:
  assumes "core_inv m"
  shows "freelist_size m = 0 \<longleftrightarrow> freelist m = []"
proof -
  have "length (freelist m) < 2 ^ 64" using assms by (intro freelist_bound) (auto simp: core_inv_def)
  then have "unat (of_nat (length (freelist m)) :: u64) = length (freelist m)" by (simp add: unsigned_of_nat take_bit_nat_eq_self)
  then have "(of_nat (length (freelist m)) :: u64) = 0 \<longleftrightarrow> freelist m = []" by (metis length_0_conv unat_eq_zero)
  then show ?thesis using assms by (simp add: core_inv_def)
qed

lemma Remove_core:
  assumes inv: "core_inv m" and s: "shape (hm_root m) = us @ (n, x, p) # vs" and size: "hr_len x \<le> total_size m"
  shows "\<exists>m'. Remove n m = Inr m' \<and> core_inv m' \<and> shape (hm_root m') = us @ vs \<and> total_size m' = total_size m - hr_len x"
proof -
  note c = core_invD [OF inv]
  have n: "n \<noteq> 0" using c(3) s by auto
  obtain fs l d r where at: "at n (hm_root m) = Inr (fs, l, d, r)" "plug fs (Node l n d r) = hm_root m" "n_range d = x"
      "us = before_hole fs @ shape l" "vs = shape r @ after_hole fs"
    using at_ok [OF s c(2) n] by blast
  let ?t = "removed fs l n d r"
  let ?m = "Put n (m\<lparr>total_size := total_size m - hr_len x, hm_root := ?t\<rparr>)"
  have R: "Remove n m = Inr ?m"
    using at(1,3) size by (simp add: Remove_def hp_minus_def removed_def Let_def del: bind_res_Inr_iff)
  note rm = removed_ok [of fs l n d r, unfolded at(2), OF c(4)]
  have sh: "shape ?t = us @ vs" using rm(1) at(4,5) by simp
  have "sep (us @ vs)" using c(1) s by (auto simp: sep_append sep_Cons)
  then have "treap_ok ?t" using rm(2,3) c(2,3) s by (auto simp: treap_ok_def sh)
  moreover have "used_nodes m - 1 = of_nat (length (us @ vs))" using c(5) s by simp
  ultimately have "core_inv ?m" using inv s n by (auto simp: core_inv_def Put_def sh)
  then show ?thesis using R sh by (intro exI [of _ ?m]) (auto simp: Put_def)
qed

lemma update_fix_core:
  assumes inv: "core_inv m" and s: "shape (hm_root m) = us @ (b, x, p) # vs" and sep: "sep (us @ (b, y, p) # vs)"
    and f: "\<And>d. n_range d = x \<Longrightarrow> \<exists>d'. f d = Inr d' \<and> n_range d' = y \<and> n_prio d' = n_prio d"
  shows "\<exists>m'. update_fix b f m = Inr m' \<and> core_inv m' \<and> shape (hm_root m') = us @ (b, y, p) # vs \<and> total_size m' = total_size m"
proof -
  note c = core_invD [OF inv]
  have n: "b \<noteq> 0" using c(3) s by auto
  obtain fs l d r where at: "at b (hm_root m) = Inr (fs, l, d, r)" "plug fs (Node l b d r) = hm_root m" "n_range d = x" "n_prio d = p"
      "us = before_hole fs @ shape l" "vs = shape r @ after_hole fs"
    using at_ok [OF s c(2) n] by blast
  obtain d' where d': "f d = Inr d'" "n_range d' = y" "n_prio d' = p" using f [OF at(3)] at(4) by blast
  let ?t = "fix_up fs (fix_node l b d' r)"
  have "long_ok ?t" using c(6) frames_long_sib at(2) long_plug [of fs "Node l b d r"] by (intro long_fix_up) auto
  moreover have "heap_ok ?t"
    using c(7) unfolding at(2) [symmetric] heap_plug heap_fix_up prios_fix_node prios_Node using d'(3) at(4) by (simp add: heap_Node)
  moreover have sh: "shape ?t = us @ (b, y, p) # vs" using at(5,6) d'(2,3) by (simp add: shape_fix_up)
  ultimately have "treap_ok ?t" using c(2,3) s sep by (auto simp: treap_ok_def)
  then have "core_inv (m\<lparr>hm_root := ?t\<rparr>)" using inv s by (auto simp: core_inv_def sh)
  then show ?thesis using at(1) d'(1) sh by (simp add: update_fix_def)
qed

section \<open>Insertion\<close>

lemma disjoint_ranges:
  assumes "range_ok x" and "range_ok y" and "pages_of x \<inter> pages_of y = {}" and "hr_start x \<le> hr_start y"
  shows "r_end x \<le> unat (hr_start y)"
proof (rule ccontr)
  assume "\<not> r_end x \<le> unat (hr_start y)"
  then have "unat (hr_start y) \<in> pages_of x \<inter> pages_of y"
    using assms(4) range_okD(1) [OF assms(2)] by (simp add: pages_of_def word_le_nat_alt)
  then show False using assms(3) by simp
qed

lemma range_at_ok:
  assumes "core_inv m" and "shape (hm_root m) = us @ (a, x, p) # vs"
  shows "range_at a m = Inr (Some x)"
proof -
  note c = core_invD [OF assms(1)]
  have "a \<noteq> 0" using c(3) assms(2) by auto
  then show ?thesis using at_ok [OF assms(2) c(2)] by (auto simp: range_at_def)
qed

text \<open>The neighbours of a page in the tree.\<close>

lemma Predecessor_ok:
  assumes "core_inv m" and "shape (hm_root m) = us @ vs" and "\<forall>x \<in> set us. hr_start (rg x) \<le> p" and "\<forall>x \<in> set vs. p < hr_start (rg x)"
  shows "Predecessor p m = last_addr us 0"
proof -
  have "filter (\<lambda>x. hr_start (rg x) \<le> p) (us @ vs) = us" using assms(3,4) by (auto simp: filter_id_conv filter_empty_conv)
  then show ?thesis using pred_loop_ok [OF core_invD(1) [OF assms(1)], of p 0] assms(2) by (simp add: Predecessor_def)
qed

lemma after_ok:
  assumes inv: "core_inv m" and s: "shape (hm_root m) = us @ vs"
  shows "(if last_addr us 0 \<noteq> 0 then next_node (last_addr us 0) (hm_root m) else Inr (first_node m)) = Inr (hd_addr vs)"
proof (cases us rule: rev_cases)
  case Nil
  then show ?thesis using s by (simp add: last_addr_def first_node_def leftmost_shape)
next
  case (snoc us' b)
  obtain a x q where b: "b = (a, x, q)" by (metis prod.exhaust)
  note c = core_invD [OF inv]
  have s': "shape (hm_root m) = us' @ (a, x, q) # vs" using s snoc b by simp
  have "a \<noteq> 0" using c(3) s' by auto
  then show ?thesis using next_node_ok [OF s' c(2)] snoc b by (simp add: last_addr_def)
qed

lemma neighbour_ranges:
  assumes inv: "core_inv m" and s: "shape (hm_root m) = us @ vs"
  shows "range_at (last_addr us 0) m = Inr (if us = [] then None else Some (rg (last us)))"
    "range_at (hd_addr vs) m = Inr (if vs = [] then None else Some (rg (hd vs)))"
proof -
  show "range_at (last_addr us 0) m = Inr (if us = [] then None else Some (rg (last us)))"
  proof (cases us rule: rev_cases)
    case (snoc us' b)
    then have "shape (hm_root m) = us' @ (fst b, rg b, prio b) # vs" using s by simp
    from range_at_ok [OF inv this] show ?thesis using snoc by (simp add: last_addr_def)
  qed (simp add: last_addr_def range_at_def)
  show "range_at (hd_addr vs) m = Inr (if vs = [] then None else Some (rg (hd vs)))"
  proof (cases vs)
    case (Cons a vs')
    then have "shape (hm_root m) = us @ (fst a, rg a, prio a) # vs'" using s by simp
    from range_at_ok [OF inv this] show ?thesis using Cons by simp
  qed (simp add: range_at_def)
qed

text \<open>The four ways an insertion goes on, each with the list it leaves.\<close>

lemma Merge_before:
  assumes inv: "core_inv m" and s: "shape (hm_root m) = us @ (b, x, p) # vs" and r: "range_ok r" "r_end x = unat (hr_start r)"
    and v: "\<forall>y \<in> set vs. r_end r < unat (hr_start (rg y))"
  shows "\<exists>m' j. Merge env b r 0 m = Inr m' \<and> core_inv m' \<and> shape (hm_root m') = us @ (b, j, p) # vs \<and> total_size m' = total_size m
    \<and> pages_of j = pages_of x \<union> pages_of r"
proof -
  note c = core_invD [OF inv]
  have x: "range_ok x" "sep us" "sep vs" "\<forall>u \<in> set us. r_end (rg u) < unat (hr_start x)" using c(1) s by (auto simp: sep_append sep_Cons)
  obtain j where j: "Join x r = Inr j" "range_ok j" "hr_start j = hr_start x" "r_end j = r_end r" "pages_of j = pages_of x \<union> pages_of r"
    using Join_ok [OF x(1) r] by blast
  have "\<forall>u \<in> set us. \<forall>y \<in> set vs. r_end (rg u) < unat (hr_start (rg y))" using c(1) s by (simp add: sep_append)
  then have "sep (us @ (b, j, p) # vs)" using x j v by (auto simp: sep_append sep_Cons)
  from update_fix_core [OF inv s this, of "\<lambda>d. bind_res (Join (n_range d) r) (\<lambda>j.
      Inr (d\<lparr>n_when := merge_when env (n_range d) (n_when d) r (Now env), n_range := j\<rparr>))"]
  show ?thesis using j by (auto simp: Merge_def)
qed

lemma Merge_after:
  assumes inv: "core_inv m" and s: "shape (hm_root m) = us @ (a, x, p) # vs" and r: "range_ok r" "r_end r = unat (hr_start x)"
    and v: "\<forall>y \<in> set us. r_end (rg y) < unat (hr_start r)"
  shows "\<exists>m' j. Merge env 0 r a m = Inr m' \<and> core_inv m' \<and> shape (hm_root m') = us @ (a, j, p) # vs \<and> total_size m' = total_size m
    \<and> pages_of j = pages_of r \<union> pages_of x"
proof -
  note c = core_invD [OF inv]
  have a: "a \<noteq> 0" using c(3) s by auto
  have x: "range_ok x" "sep us" "sep vs" "\<forall>y \<in> set vs. r_end x < unat (hr_start (rg y))" using c(1) s by (auto simp: sep_append sep_Cons)
  obtain j where j: "Join r x = Inr j" "range_ok j" "hr_start j = hr_start r" "r_end j = r_end x" "pages_of j = pages_of r \<union> pages_of x"
    using Join_ok [OF r(1) x(1) r(2)] by blast
  have "\<forall>u \<in> set us. \<forall>y \<in> set vs. r_end (rg u) < unat (hr_start (rg y))" using c(1) s by (simp add: sep_append)
  then have "sep (us @ (a, j, p) # vs)" using x j v by (auto simp: sep_append sep_Cons)
  from update_fix_core [OF inv s this, of "\<lambda>d. bind_res (Join r (n_range d)) (\<lambda>j.
      Inr (d\<lparr>n_when := merge_when env r (Now env) (n_range d) (n_when d), n_range := j\<rparr>))"]
  show ?thesis using j a by (auto simp: Merge_def)
qed

lemma core_total [simp]: "core_inv (m\<lparr>total_size := k\<rparr>) = core_inv m"
  by (simp add: core_inv_def)

lemma Merge_both:
  assumes inv: "core_inv m" and s: "shape (hm_root m) = us @ (b, x, p) # (a, y, q) # vs" and r: "range_ok r" "r_end x = unat (hr_start r)" "r_end r = unat (hr_start y)"
    and t: "unat (total_size m) < 2 ^ 63"
  shows "\<exists>m' j. Merge env b r a m = Inr m' \<and> core_inv m' \<and> shape (hm_root m') = us @ (b, j, p) # vs \<and> total_size m' = total_size m
    \<and> pages_of j = pages_of x \<union> pages_of r \<union> pages_of y"
proof -
  note c = core_invD [OF inv]
  have ab: "a \<noteq> 0" "b \<noteq> 0" using c(3) s by auto
  have x: "range_ok x" "range_ok y" "sep us" "sep vs" "\<forall>u \<in> set us. r_end (rg u) < unat (hr_start x)" "\<forall>v \<in> set vs. r_end y < unat (hr_start (rg v))"
      "\<forall>u \<in> set us. \<forall>v \<in> set vs. r_end (rg u) < unat (hr_start (rg v))"
    using c(1) s by (auto simp: sep_append sep_Cons)
  obtain i where i: "Join r y = Inr i" "range_ok i" "hr_start i = hr_start r" "r_end i = r_end y" "pages_of i = pages_of r \<union> pages_of y"
    using Join_ok [OF r(1) x(2) r(3)] by blast
  have xi: "r_end x = unat (hr_start i)" using r(2) i(3) by simp
  obtain j where j: "Join x i = Inr j" "range_ok j" "hr_start j = hr_start x" "r_end j = r_end i" "pages_of j = pages_of x \<union> pages_of i"
    using Join_ok [OF x(1) i(2) xi] by blast
  have s': "shape (hm_root m) = (us @ [(b, x, p)]) @ (a, y, q) # vs" using s by simp
  obtain fa la da ra where a: "at a (hm_root m) = Inr (fa, la, da, ra)" "n_range da = y" using at_ok [OF s' c(2) ab(1)] by blast
  obtain fb lb db rb where b: "at b (hm_root m) = Inr (fb, lb, db, rb)" "n_range db = x" using at_ok [OF s c(2) ab(2)] by blast
  let ?m = "m\<lparr>total_size := total_size m + hr_len y\<rparr>"
  have "unat (hr_len y) < 2 ^ 43" using range_okD(2) [OF x(2)] by (simp add: r_end_def)
  then have "hr_len y \<le> total_size ?m" using t by (simp add: word_le_nat_alt unat_word_ariths)
  then obtain m1 where m1: "Remove a ?m = Inr m1" "core_inv m1" "shape (hm_root m1) = us @ (b, x, p) # vs" "total_size m1 = total_size m"
    using Remove_core [of ?m "us @ [(b, x, p)]" a y q vs] inv s' by auto
  have "sep (us @ (b, j, p) # vs)" using x j i by (auto simp: sep_append sep_Cons)
  note u = update_fix_core [OF m1(2,3) this]
  let ?f = "\<lambda>d. Inr (d\<lparr>n_range := j, n_when := merge_when env x (n_when db) i (merge_when env r (Now env) y (n_when da))\<rparr>)"
  obtain m' where m': "update_fix b ?f m1 = Inr m'" "core_inv m'" "shape (hm_root m') = us @ (b, j, p) # vs" "total_size m' = total_size m1"
    using u [of ?f] by auto
  have "Merge env b r a m = Inr m'" using ab a b i(1) j(1) m1(1) m'(1) by (simp add: Merge_def Let_def del: bind_res_Inr_iff)
  then show ?thesis using m' m1(4) j(5) i(5) by (intro exI [of _ m'] exI [of _ j]) (simp add: Un_assoc)
qed

text \<open>What \<open>Get\<close> hands out: a node that is not in the tree.\<close>

definition fresh_meta :: "map_env \<Rightarrow> huge_address_map \<Rightarrow> bool" where
  "fresh_meta env m \<longleftrightarrow> meta env \<noteq> 0 \<and> meta env \<notin> fst ` set (shape (hm_root m)) \<and> meta env \<notin> set (freelist m)"

lemma insert_alone:
  assumes inv: "core_inv m" and s: "shape (hm_root m) = us @ vs" and r: "range_ok r" "\<forall>y \<in> set us. r_end (rg y) < unat (hr_start r)"
      "\<forall>y \<in> set vs. r_end r < unat (hr_start (rg y))" and f: "fresh_meta env m"
  shows "\<exists>m' n p. bind_res (Get env r m) (\<lambda>(n, d, m'). Inr (m'\<lparr>hm_root := add_node n d (hm_root m')\<rparr>)) = Inr m' \<and> core_inv m'
    \<and> shape (hm_root m') = us @ (n, r, p) # vs \<and> total_size m' = total_size m"
proof -
  note c = core_invD [OF inv]
  obtain p sd where rnd: "rand_r env (hm_seed m) = (p, sd)" by fastforce
  let ?d = "\<lparr>n_range = r, n_prio = p, n_longest = 0, n_when = Now env\<rparr>"
  have "hr_start (rg y) < hr_start r" if "y \<in> set us" for y
  proof -
    have "range_ok (rg y)" using c(1) s that by (auto simp: sep_def)
    from range_okD(1) [OF this] show ?thesis using r(2) that by (fastforce simp: word_less_nat_alt)
  qed
  moreover have "\<not> hr_start (rg y) < hr_start r" if "y \<in> set vs" for y
    using range_okD(1) [OF r(1)] r(3) that by (fastforce simp: word_less_nat_alt)
  ultimately have f2: "starts_before (hr_start r) (us @ vs) = us" "starts_after (hr_start r) (us @ vs) = vs"
    using filter_ord [of us "hr_start r" vs] by blast+
  have add: "shape (add_node n ?d (hm_root m)) = us @ (n, r, p) # vs" "long_ok (add_node n ?d (hm_root m))" "heap_ok (add_node n ?d (hm_root m))" for n
    using add_node_ok [OF sep_ord [OF c(1)] c(6,7), of n ?d] f2 s by simp_all
  have sep: "sep (us @ (n, r, p) # vs)" for n using c(1) s r by (auto simp: sep_append sep_Cons)
  have ok: "treap_ok (add_node n ?d (hm_root m))" if "n \<noteq> 0" "n \<notin> fst ` set (us @ vs)" for n
    using that c(2,3) s sep add [of n] by (auto simp: treap_ok_def)
  show ?thesis
  proof (cases "freelist m")
    case Nil
    let ?m = "m\<lparr>used_nodes := used_nodes m + 1, hm_seed := sd, total_nodes := total_nodes m + 1, hm_root := add_node (meta env) ?d (hm_root m)\<rparr>"
    have "bind_res (Get env r m) (\<lambda>(n, d, m'). Inr (m'\<lparr>hm_root := add_node n d (hm_root m')\<rparr>)) = Inr ?m"
      using Nil freelist_empty [OF inv] rnd by (simp add: Get_def Let_def del: bind_res_Inr_iff)
    moreover have "core_inv ?m" using inv s f ok [of "meta env"] Nil by (auto simp: core_inv_def add fresh_meta_def)
    ultimately show ?thesis using add(1) [of "meta env"] by (intro exI [of _ ?m] exI [of _ "meta env"] exI [of _ p]) simp
  next
    case (Cons n ns)
    let ?m = "m\<lparr>used_nodes := used_nodes m + 1, hm_seed := sd, freelist_size := freelist_size m - 1, freelist := ns, hm_root := add_node n ?d (hm_root m)\<rparr>"
    have "bind_res (Get env r m) (\<lambda>(n, d, m'). Inr (m'\<lparr>hm_root := add_node n d (hm_root m')\<rparr>)) = Inr ?m"
      using Cons freelist_empty [OF inv] rnd by (simp add: Get_def Let_def del: bind_res_Inr_iff)
    moreover have "core_inv ?m" using inv s ok [of n] Cons by (auto simp: core_inv_def add)
    ultimately show ?thesis using add(1) [of n] by (intro exI [of _ ?m] exI [of _ n] exI [of _ p]) simp
  qed
qed

lemma Insert_cases:
  assumes inv: "core_inv m" and s: "shape (hm_root m) = us @ vs" and o: "\<forall>x \<in> set us. hr_start (rg x) \<le> hr_start r" "\<forall>x \<in> set vs. hr_start r < hr_start (rg x)"
  shows "Insert env r m = (let m1 = m\<lparr>total_size := total_size m + hr_len r\<rparr> in
     if (us \<noteq> [] \<and> intersects (rg (last us)) r) \<or> (vs \<noteq> [] \<and> intersects (rg (hd vs)) r) then Inl Assert_Failed
     else if us \<noteq> [] \<and> precedes (rg (last us)) r
     then Merge env (last_addr us 0) r (if vs \<noteq> [] \<and> precedes r (rg (hd vs)) then hd_addr vs else 0) m1
     else if vs \<noteq> [] \<and> precedes r (rg (hd vs)) then Merge env 0 r (hd_addr vs) m1
     else bind_res (Get env r m1) (\<lambda>(n, d, m'). Inr (m'\<lparr>hm_root := add_node n d (hm_root m')\<rparr>)))"
proof -
  let ?m = "m\<lparr>total_size := total_size m + hr_len r\<rparr>"
  have inv': "core_inv ?m" and s': "shape (hm_root ?m) = us @ vs" using inv s by simp_all
  note p = Predecessor_ok [OF inv' s' o] and a = after_ok [OF inv' s'] and n = neighbour_ranges [OF inv' s']
  show ?thesis unfolding Insert_def Let_def p a n bind_res.simps
    by (cases "us = []"; cases "vs = []") (simp_all del: bind_res_Inr_iff)
qed

lemma sep_last_bound:
  assumes "sep us" and "us \<noteq> [] \<Longrightarrow> r_end (rg (last us)) < k" and "y \<in> set us"
  shows "r_end (rg y) < k"
proof (cases us rule: rev_cases)
  case (snoc us' b)
  have "y = b \<or> r_end (rg y) < unat (hr_start (rg b))" "range_ok (rg b)" using assms(1,3) snoc by (auto simp: sep_append sep_Cons)
  then show ?thesis using assms(2) snoc range_okD(1) [of "rg b"] by auto
qed (use assms in simp)

lemma sep_hd_bound:
  assumes "sep vs" and "vs \<noteq> [] \<Longrightarrow> k < unat (hr_start (rg (hd vs)))" and "y \<in> set vs"
  shows "k < unat (hr_start (rg y))"
proof (cases vs)
  case (Cons a vs')
  have "y = a \<or> r_end (rg a) < unat (hr_start (rg y))" "range_ok (rg a)" using assms(1,3) Cons by (auto simp: sep_Cons)
  then show ?thesis using assms(2) Cons range_okD(1) [of "rg a"] by auto
qed (use assms in simp)

text \<open>An insertion that overlaps the map runs into one of the two neighbours.\<close>

lemma overlap_found:
  assumes "sep (us @ vs)" and r: "range_ok r" and o: "\<forall>x \<in> set us. hr_start (rg x) \<le> hr_start r" "\<forall>x \<in> set vs. hr_start r < hr_start (rg x)"
  shows "pages_of r \<inter> lpages (us @ vs) = {} \<longleftrightarrow> \<not> (us \<noteq> [] \<and> intersects (rg (last us)) r) \<and> \<not> (vs \<noteq> [] \<and> intersects (rg (hd vs)) r)"
proof
  assume d: "pages_of r \<inter> lpages (us @ vs) = {}"
  have "\<not> intersects (rg x) r" if "x \<in> set (us @ vs)" for x
  proof -
    have "range_ok (rg x)" using assms(1) that by (auto simp: sep_def)
    then show ?thesis using d that intersects_iff [OF _ r] by (fastforce simp: lpages_def)
  qed
  then show "\<not> (us \<noteq> [] \<and> intersects (rg (last us)) r) \<and> \<not> (vs \<noteq> [] \<and> intersects (rg (hd vs)) r)"
    by (metis Un_iff set_append hd_in_set last_in_set)
next
  assume n: "\<not> (us \<noteq> [] \<and> intersects (rg (last us)) r) \<and> \<not> (vs \<noteq> [] \<and> intersects (rg (hd vs)) r)"
  have s: "sep us" "sep vs" using assms(1) by (simp_all add: sep_append)
  have "r_end (rg (last us)) < Suc (unat (hr_start r))" if "us \<noteq> []"
  proof -
    have l: "range_ok (rg (last us))" "hr_start (rg (last us)) \<le> hr_start r" using s(1) that o(1) by (auto simp: sep_def)
    then have "pages_of (rg (last us)) \<inter> pages_of r = {}" using n that intersects_iff [OF l(1) r] by blast
    from disjoint_ranges [OF l(1) r this l(2)] show ?thesis by simp
  qed
  note a = sep_last_bound [OF s(1) this]
  have "r_end r - 1 < unat (hr_start (rg (hd vs)))" if "vs \<noteq> []"
  proof -
    have l: "range_ok (rg (hd vs))" "hr_start r \<le> hr_start (rg (hd vs))" using s(2) that o(2) by (auto simp: sep_def less_imp_le)
    then have "pages_of r \<inter> pages_of (rg (hd vs)) = {}" using n that intersects_iff [OF l(1) r] by blast
    from disjoint_ranges [OF r l(1) this l(2)] show ?thesis using range_okD(1) [OF r] by simp
  qed
  note b = sep_hd_bound [OF s(2) this]
  show "pages_of r \<inter> lpages (us @ vs) = {}" using a b by (fastforce simp: lpages_def pages_of_def)
qed

text \<open>The count of pages after an insertion.\<close>

lemma insert_counts:
  assumes inv: "map_inv m" and r: "range_ok r" and d: "pages_of r \<inter> mpages m = {}" and c': "core_inv m'" and p: "mpages m' = mpages m \<union> pages_of r"
    and t: "total_size m' = total_size m + hr_len r"
  shows "map_inv m'"
proof -
  have c: "core_inv m" "unat (total_size m) = card (mpages m)" using inv by (simp_all add: map_inv_def)
  have f: "finite (mpages m)" using sep_card [OF core_invD(1) [OF c(1)]] by (simp add: mpages_def)
  have "card (pages_of r) = unat (hr_len r)" "finite (pages_of r)" by (simp_all add: pages_of_def r_end_def)
  then have k: "card (mpages m') = unat (total_size m) + unat (hr_len r)" unfolding p using d f c(2) by (simp add: card_Un_disjoint Int_commute)
  have "card (mpages m') \<le> 2 ^ 43"
    using lpages_bound [OF core_invD(1) [OF c']] card_mono [of "{..< 2 ^ 43 :: nat}" "mpages m'"] by (simp add: mpages_def)
  then have "unat (total_size m') = unat (total_size m) + unat (hr_len r)" unfolding t using k by (simp add: unat_word_ariths)
  then show ?thesis using c' k by (simp add: map_inv_def)
qed

lemma lpages_butlast: "us \<noteq> [] \<Longrightarrow> lpages us = lpages (butlast us) \<union> pages_of (rg (last us))"
  by (metis append_butlast_last_id lpages_simps Un_empty_right)

lemma lpages_tl: "vs \<noteq> [] \<Longrightarrow> lpages vs = pages_of (rg (hd vs)) \<union> lpages (tl vs)"
  by (cases vs) (simp_all add: lpages_simps)

lemma total_bound:
  assumes "map_inv m" and "range_ok r"
  shows "unat (total_size (m\<lparr>total_size := total_size m + hr_len r\<rparr>)) < 2 ^ 63"
proof -
  have c: "core_inv m" "unat (total_size m) = card (mpages m)" using assms(1) by (simp_all add: map_inv_def)
  have "unat (total_size m) \<le> 2 ^ 43"
    using c(2) lpages_bound [OF core_invD(1) [OF c(1)]] card_mono [of "{..< 2 ^ 43 :: nat}" "mpages m"] by (simp add: mpages_def)
  moreover have "unat (hr_len r) < 2 ^ 43" using range_okD(2) [OF assms(2)] by (simp add: r_end_def)
  ultimately show ?thesis by (simp add: unat_word_ariths)
qed

lemma Insert_disjoint:
  assumes inv: "map_inv m" and r: "range_ok r" and d: "pages_of r \<inter> mpages m = {}" and f: "fresh_meta env m"
  shows "\<exists>m'. Insert env r m = Inr m' \<and> map_inv m' \<and> mpages m' = mpages m \<union> pages_of r"
proof -
  have ci: "core_inv m" "unat (total_size m) = card (mpages m)" using inv by (simp_all add: map_inv_def)
  note c = core_invD [OF ci(1)]
  obtain us vs where s: "shape (hm_root m) = us @ vs" and o: "\<forall>x \<in> set us. hr_start (rg x) \<le> hr_start r" "\<forall>x \<in> set vs. hr_start r < hr_start (rg x)"
    using ord_split [OF sep_ord [OF c(1)], where p = "hr_start r"] by blast
  let ?m = "m\<lparr>total_size := total_size m + hr_len r\<rparr>"
  have m: "core_inv ?m" "shape (hm_root ?m) = us @ vs" "fresh_meta env ?m" using ci s f by (simp_all add: fresh_meta_def)
  have sep: "sep us" "sep vs" "sep (us @ vs)" using c(1) s by (simp_all add: sep_append)
  have ni: "\<not> (us \<noteq> [] \<and> intersects (rg (last us)) r)" "\<not> (vs \<noteq> [] \<and> intersects (rg (hd vs)) r)"
    using overlap_found [OF sep(3) r o] d s by (simp_all add: mpages_def)
  have bl: "r_end (rg (last us)) \<le> unat (hr_start r)" "range_ok (rg (last us))" if "us \<noteq> []"
  proof -
    show k: "range_ok (rg (last us))" using sep(1) that by (simp add: sep_def)
    have "pages_of (rg (last us)) \<inter> pages_of r = {}" using ni(1) that intersects_iff [OF k r] by blast
    then show "r_end (rg (last us)) \<le> unat (hr_start r)" using o(1) that by (intro disjoint_ranges [OF k r]) simp_all
  qed
  have ar: "r_end r \<le> unat (hr_start (rg (hd vs)))" "range_ok (rg (hd vs))" if "vs \<noteq> []"
  proof -
    show k: "range_ok (rg (hd vs))" using sep(2) that by (simp add: sep_def)
    have "pages_of r \<inter> pages_of (rg (hd vs)) = {}" using ni(2) that intersects_iff [OF k r] by blast
    then show "r_end r \<le> unat (hr_start (rg (hd vs)))" using o(2) that by (intro disjoint_ranges [OF r k]) (simp_all add: less_imp_le)
  qed
  define jb where "jb \<longleftrightarrow> us \<noteq> [] \<and> precedes (rg (last us)) r"
  define ja where "ja \<longleftrightarrow> vs \<noteq> [] \<and> precedes r (rg (hd vs))"
  have jb: "jb \<longleftrightarrow> us \<noteq> [] \<and> r_end (rg (last us)) = unat (hr_start r)" using precedes_iff [OF bl(2) r] by (auto simp: jb_def)
  have ja: "ja \<longleftrightarrow> vs \<noteq> [] \<and> r_end r = unat (hr_start (rg (hd vs)))" using precedes_iff [OF r ar(2)] by (auto simp: ja_def)
  have I: "Insert env r m = (if jb then Merge env (last_addr us 0) r (if ja then hd_addr vs else 0) ?m else if ja then Merge env 0 r (hd_addr vs) ?m
      else bind_res (Get env r ?m) (\<lambda>(n, d, m'). Inr (m'\<lparr>hm_root := add_node n d (hm_root m')\<rparr>)))"
    using Insert_cases [OF ci(1) s o, of env] ni by (simp add: Let_def jb_def ja_def del: bind_res_Inr_iff)
  have ub: "r_end (rg y) < unat (hr_start r)" if "\<not> jb" "y \<in> set us" for y
    using sep_last_bound [OF sep(1) _ that(2)] bl(1) jb that(1) by fastforce
  have va: "r_end r < unat (hr_start (rg y))" if "\<not> ja" "y \<in> set vs" for y
    using sep_hd_bound [OF sep(2) _ that(2)] ar(1) ja that(1) by fastforce
  have U: "us = butlast us @ [(fst (last us), rg (last us), prio (last us))]" "last_addr us 0 = fst (last us)" if jb using that jb by (simp_all add: last_addr_def)
  have V: "vs = (fst (hd vs), rg (hd vs), prio (hd vs)) # tl vs" "hd_addr vs = fst (hd vs)" if ja using that ja by (cases vs; simp)+
  have pg: "mpages m = lpages us \<union> lpages vs" by (simp add: mpages_def s lpages_simps)
  have "\<exists>m'. Insert env r m = Inr m' \<and> core_inv m' \<and> mpages m' = mpages m \<union> pages_of r \<and> total_size m' = total_size ?m"
  proof (cases jb; cases ja)
    assume j: jb ja
    have e: "shape (hm_root ?m) = butlast us @ (fst (last us), rg (last us), prio (last us)) # (fst (hd vs), rg (hd vs), prio (hd vs)) # tl vs"
      using m(2) U(1) [OF j(1)] V(1) [OF j(2)] by simp
    show ?thesis
      using Merge_both [OF m(1) e r _ _ total_bound [OF inv r], of env] I j U [OF j(1)] V [OF j(2)] jb ja pg
      by (auto simp: mpages_def lpages_simps lpages_butlast [of us] lpages_tl [of vs])
  next
    assume j: jb "\<not> ja"
    have e: "shape (hm_root ?m) = butlast us @ (fst (last us), rg (last us), prio (last us)) # vs" using m(2) U(1) [OF j(1)] by simp
    show ?thesis
      using Merge_before [OF m(1) e r, of env] I j U(2) [OF j(1)] jb va pg by (auto simp: mpages_def lpages_simps lpages_butlast [of us])
  next
    assume j: "\<not> jb" ja
    have e: "shape (hm_root ?m) = us @ (fst (hd vs), rg (hd vs), prio (hd vs)) # tl vs" using m(2) V(1) [OF j(2)] by simp
    show ?thesis
      using Merge_after [OF m(1) e r, of env] I j V(2) [OF j(2)] ja ub pg by (auto simp: mpages_def lpages_simps lpages_tl [of vs])
  next
    assume j: "\<not> jb" "\<not> ja"
    have "\<forall>y \<in> set us. r_end (rg y) < unat (hr_start r)" "\<forall>y \<in> set vs. r_end r < unat (hr_start (rg y))" using ub va j by blast+
    from insert_alone [OF m(1,2) r this m(3)] show ?thesis using I j pg by (auto simp: mpages_def lpages_simps simp del: bind_res_Inr_iff)
  qed
  then show ?thesis using insert_counts [OF inv r d] by auto
qed

text \<open>C30: \<open>Insert\<close> of a range adds exactly its pages, whether it stands alone or is joined with the range before it, the
  range after it or both, keeps the treap ordered, heap-ordered and its summaries exact, and never runs into a failed check. A range
  that overlaps the map fails a check.\<close>

theorem huge_map_insert:
  assumes inv: "map_inv m" and r: "range_ok r" and f: "fresh_meta env m"
  shows "if pages_of r \<inter> mpages m = {} then \<exists>m'. Insert env r m = Inr m' \<and> map_inv m' \<and> mpages m' = mpages m \<union> pages_of r
    else Insert env r m = Inl Assert_Failed"
proof (cases "pages_of r \<inter> mpages m = {}")
  case True
  then show ?thesis using Insert_disjoint [OF inv r True f] by simp
next
  case False
  have c: "core_inv m" using inv by (simp add: map_inv_def)
  obtain us vs where s: "shape (hm_root m) = us @ vs" and o: "\<forall>x \<in> set us. hr_start (rg x) \<le> hr_start r" "\<forall>x \<in> set vs. hr_start r < hr_start (rg x)"
    using ord_split [OF sep_ord [OF core_invD(1) [OF c]], where p = "hr_start r"] by blast
  have "(us \<noteq> [] \<and> intersects (rg (last us)) r) \<or> (vs \<noteq> [] \<and> intersects (rg (hd vs)) r)"
    using overlap_found [OF _ r o] core_invD(1) [OF c] s False by (simp add: mpages_def)
  then show ?thesis using Insert_cases [OF c s o, of env] False by (simp add: Let_def)
qed

definition empty_map :: huge_address_map where
  "empty_map = \<lparr>hm_root = Null, used_nodes = 0, total_size = 0, freelist = [], freelist_size = 0, total_nodes = 0, hm_seed = 0\<rparr>"

lemma empty_map_inv: "map_inv empty_map" "mpages empty_map = {}"
  by (simp_all add: map_inv_def core_inv_def treap_ok_def empty_map_def mpages_def lpages_simps)

definition demo_env :: map_env where
  "demo_env = \<lparr>Now = 0, rand_r = (\<lambda>s. (0, s)), meta = 4096, merge_when = (\<lambda>_ _ _ _. 0)\<rparr>"

theorem huge_map_insert_witness:
  "\<exists>m'. Insert demo_env \<lparr>hr_start = 7, hr_len = 3\<rparr> empty_map = Inr m' \<and> map_inv m' \<and> mpages m' = {7 ..< 10}"
proof -
  have "range_ok \<lparr>hr_start = 7, hr_len = 3\<rparr>" "pages_of \<lparr>hr_start = 7, hr_len = 3\<rparr> = {7 ..< 10}" by (simp_all add: range_ok_def pages_of_def r_end_def)
  moreover have "fresh_meta demo_env empty_map" by (simp add: fresh_meta_def demo_env_def empty_map_def)
  ultimately show ?thesis using huge_map_insert [OF empty_map_inv(1), of "\<lparr>hr_start = 7, hr_len = 3\<rparr>" demo_env] by (simp add: empty_map_inv(2))
qed

text \<open>C31: \<open>Remove\<close> of a node of the map takes out exactly the pages of its range and keeps the map consistent; the node goes to the free list.\<close>

theorem huge_map_remove:
  assumes inv: "map_inv m" and n: "(n, x, p) \<in> set (shape (hm_root m))"
  shows "\<exists>m'. Remove n m = Inr m' \<and> map_inv m' \<and> mpages m' = mpages m - pages_of x \<and> pages_of x \<subseteq> mpages m"
proof -
  have c: "core_inv m" "unat (total_size m) = card (mpages m)" using inv by (simp_all add: map_inv_def)
  obtain us vs where s: "shape (hm_root m) = us @ (n, x, p) # vs" using n by (meson split_list)
  have p: "mpages m = pages_of x \<union> lpages (us @ vs)" by (auto simp: mpages_def s lpages_simps)
  have "sep (us @ (n, x, p) # vs)" using core_invD(1) [OF c(1)] s by simp
  then have "pages_of x \<inter> lpages us = {}" "pages_of x \<inter> lpages vs = {}" unfolding sep_append sep_Cons by (fastforce simp: lpages_def pages_of_def)+
  then have d: "pages_of x \<inter> lpages (us @ vs) = {}" by (simp add: lpages_simps Int_Un_distrib)
  have "sep (us @ vs)" using core_invD(1) [OF c(1)] s by (auto simp: sep_append sep_Cons)
  then have k: "card (mpages m) = unat (hr_len x) + card (lpages (us @ vs))"
    unfolding p using d sep_card by (subst card_Un_disjoint) (auto simp: pages_of_def r_end_def)
  then have le: "hr_len x \<le> total_size m" using c(2) by (simp add: word_le_nat_alt)
  obtain m' where m': "Remove n m = Inr m'" "core_inv m'" "shape (hm_root m') = us @ vs" "total_size m' = total_size m - hr_len x"
    using Remove_core [OF c(1) s le] by blast
  have "unat (total_size m') = card (lpages (us @ vs))" using k c(2) le m'(4) by (simp add: unat_sub)
  then have "map_inv m'" using m'(2,3) by (simp add: map_inv_def mpages_def)
  moreover have "mpages m' = mpages m - pages_of x" using d p m'(3) by (auto simp: mpages_def)
  ultimately show ?thesis using m'(1) p by blast
qed

definition one_range :: huge_address_map where
  "one_range = \<lparr>hm_root = Node Null 4096 \<lparr>n_range = \<lparr>hr_start = 7, hr_len = 3\<rparr>, n_prio = 0, n_longest = 3, n_when = 0\<rparr> Null,
     used_nodes = 1, total_size = 3, freelist = [], freelist_size = 0, total_nodes = 1, hm_seed = 0\<rparr>"

theorem huge_map_remove_witness: "\<exists>m'. Remove 4096 one_range = Inr m' \<and> map_inv m' \<and> mpages m' = {}"
proof -
  have s: "shape (hm_root one_range) = [(4096, \<lparr>hr_start = 7, hr_len = 3\<rparr>, 0)]" by (simp add: one_range_def)
  have p: "pages_of \<lparr>hr_start = 7, hr_len = 3\<rparr> = {7 ..< 10}" "mpages one_range = {7 ..< 10}"
    by (simp_all add: mpages_def s lpages_simps pages_of_def r_end_def)
  have "treap_ok (hm_root one_range)" unfolding treap_ok_def s by (simp add: sep_Cons range_ok_def one_range_def heap_Node max_def)
  then have "map_inv one_range" unfolding map_inv_def core_inv_def s p by (simp add: one_range_def)
  then show ?thesis using huge_map_remove [of one_range 4096 "\<lparr>hr_start = 7, hr_len = 3\<rparr>" 0] by (simp add: s p)
qed

section \<open>The consistency check\<close>

lemma page_addr_less:
  assumes "range_ok x" and "range_ok y" and "r_end x < unat (hr_start y)"
  shows "hr_end_addr x < hr_start_addr y" "hr_start x < hr_start y"
proof -
  note a = range_okD [OF assms(1)] and b = range_okD [OF assms(2)]
  have "unat (hr_end_addr x) = r_end x * 2 ^ 21" "unat (hr_start_addr y) = unat (hr_start y) * 2 ^ 21"
    using a b unat_page_addr [of "hr_start x + hr_len x"] unat_page_addr [of "hr_start y"] by (simp_all add: hr_end_addr_def hr_start_addr_def)
  then show "hr_end_addr x < hr_start_addr y" using assms(3) by (simp add: word_less_nat_alt)
  show "hr_start x < hr_start y" using assms(3) a(1) by (simp add: word_less_nat_alt)
qed

lemma check_node_ok:
  "sep (shape t) \<Longrightarrow> long_ok t \<Longrightarrow> heap_ok t \<Longrightarrow>
     check_node t c = Inr (fst c + of_nat (length (shape t)), snd c + sum_list (map (\<lambda>x. hr_len (rg x)) (shape t)))"
proof (induction t arbitrary: c)
  case (Node l a d r)
  let ?c = "(fst c + 1, snd c + hr_len (n_range d))"
  have s: "sep (shape l)" "sep (shape r)" "range_ok (n_range d)" "\<forall>x \<in> set (shape l). r_end (rg x) < unat (hr_start (n_range d))"
      "\<forall>x \<in> set (shape r). r_end (n_range d) < unat (hr_start (rg x))"
    using Node.prems(1) by (auto simp: sep_append sep_Cons)
  have ok: "\<forall>x \<in> set (shape l) \<union> set (shape r). range_ok (rg x)" using Node.prems(1) by (auto simp: sep_def)
  have g: "long_ok l" "long_ok r" "n_longest d = max (max (longest_of l) (longest_of r)) (hr_len (n_range d))" using Node.prems(2) by simp_all
  have h: "heap_ok l" "heap_ok r" "\<forall>p \<in> prios l \<union> prios r. p \<le> n_prio d" using Node.prems(3) by (simp_all add: heap_Node)
  note IH = Node.IH(1) [OF s(1) g(1) h(1)] Node.IH(2) [OF s(2) g(2) h(2)]
  have L: "(case l of Null \<Rightarrow> Inr (hr_len (n_range d), ?c)
      | Node ll b e lr \<Rightarrow> if hr_start (n_range e) < hr_start (n_range d) \<and> hr_end_addr (n_range e) < hr_start_addr (n_range d) \<and> n_prio e \<le> n_prio d
           then bind_res (check_node l ?c) (\<lambda>c'. Inr (max (hr_len (n_range d)) (n_longest e), c')) else Inl Assert_Failed)
      = Inr (max (hr_len (n_range d)) (longest_of l), fst ?c + of_nat (length (shape l)), snd ?c + sum_list (map (\<lambda>x. hr_len (rg x)) (shape l)))"
  proof (cases l)
    case Null
    then show ?thesis by (simp add: max_def)
  next
    case (Node ll b e lr)
    have "r_end (n_range e) < unat (hr_start (n_range d))" "range_ok (n_range e)" "n_prio e \<le> n_prio d" using s(4) ok h(3) Node by auto
    then show ?thesis using page_addr_less [of "n_range e" "n_range d"] s(3) IH(1) [of ?c] Node by (simp del: check_node.simps)
  qed
  have R: "(case r of Null \<Rightarrow> Inr (k, c1)
      | Node rl b e rr \<Rightarrow> if hr_start (n_range e) > hr_start (n_range d) \<and> hr_start_addr (n_range e) > hr_end_addr (n_range d) \<and> n_prio e \<le> n_prio d
           then bind_res (check_node r c1) (\<lambda>c'. Inr (max k (n_longest e), c')) else Inl Assert_Failed)
      = Inr (max k (longest_of r), fst c1 + of_nat (length (shape r)), snd c1 + sum_list (map (\<lambda>x. hr_len (rg x)) (shape r)))" for k c1
  proof (cases r)
    case Null
    then show ?thesis by (simp add: max_def)
  next
    case (Node rl b e rr)
    have "r_end (n_range d) < unat (hr_start (n_range e))" "range_ok (n_range e)" "n_prio e \<le> n_prio d" using s(5) ok h(3) Node by auto
    then show ?thesis using page_addr_less [of "n_range d" "n_range e"] s(3) IH(2) [of c1] Node by (simp del: check_node.simps)
  qed
  have m: "n_longest d = max (max (hr_len (n_range d)) (longest_of l)) (longest_of r)" using g(3) by (simp add: max.assoc max.commute max.left_commute)
  show ?case unfolding check_node.simps using L R m by (simp del: bind_res_Inr_iff check_node.simps add: algebra_simps)
qed simp

text \<open>A consistent map passes its own check.\<close>

lemma Check_passes:
  assumes inv: "map_inv m"
  shows "Check m = Inr ()"
proof -
  have c: "core_inv m" "unat (total_size m) = card (mpages m)" using inv by (simp_all add: map_inv_def)
  note d = core_invD [OF c(1)]
  let ?xs = "shape (hm_root m)"
  have "card (mpages m) = sum_list (map (\<lambda>x. unat (hr_len (rg x))) ?xs)" using sep_card [OF d(1)] by (simp add: mpages_def)
  moreover have "of_nat (sum_list (map (\<lambda>x. unat (hr_len (rg x))) ys)) = sum_list (map (\<lambda>x. hr_len (rg x)) ys)" for ys :: "item list"
    by (induction ys) simp_all
  moreover have total: "of_nat (unat (total_size m)) = total_size m" by simp
  ultimately have "total_size m = sum_list (map (\<lambda>x. hr_len (rg x)) ?xs)" using c(2) total by metis
  then show ?thesis using check_node_ok [OF d(1,6,7), of "(0, 0)"] d(5) c(1) by (simp add: Check_def nranges_def total_mapped_def core_inv_def)
qed

end
