(* ===== verification/Spec2Isabelle.thy ===== *)
theory Spec2Isabelle
  imports Prelude Bits Const_Math Bitvec_Atomics Slab_Size_Classes Obj_Slab Slab_Allocation Free_Cache
    Slab_Manager Object_Allocator Allocator_Invariant Allocator_Steps Allocator_Correctness Size_Class_Tables
    Runtime_Size_Classes Experiments Size_Map Rseq_Machine Rseq_Alloc Rseq_Cas Rseq_Cache Rseq_Send Bitmap Range_Tracker
    Args Linked_Lists Block_List Huge_Pages Huge_Address_Map Huge_Map_Invariant
begin

text \<open>
  A verification development of NCMalloc, a memory allocator whose fast paths are restartable
  sequences (rseq): short pieces of assembly that work on the data of the core a thread runs on, and
  that the kernel restarts when it interrupts them.

  \<^bold>\<open>The allocator.\<close> One mapping holds an array of managers, one for each size class and core, and
  behind it a region of slabs. A slab is a header with two bit vectors, the blocks its owning core
  may hand out and the blocks that any core has freed, and a payload of equal blocks. A manager is a
  list of slabs with blocks left and a small cache of freed pointers. \<open>_allocate\<close> pops the cache of
  its core, or takes the lowest block of the first slab of the list; a slab found full takes its freed
  blocks back, or is given up until someone frees a block of it; an empty list gets a new slab from
  the region. \<open>_free\<close> pushes the pointer onto the cache, or sets its bit in the slab and sends
  the slab to the list of its own core when the slab had been given up.

  \<^bold>\<open>Theories\<close>, with the files under \<open>src/\<close> they translate:

  \<^item> \<open>Prelude\<close>: words, faults as values (\<open>result\<close> with \<open>bind_res\<close>), decimal numerals.
  \<^item> \<open>Bits\<close>, \<open>Const_Math\<close>, \<open>Bitvec_Atomics\<close>: \<open>lib/optimized/bits.h\<close>, \<open>lib/optimized/const_math.h\<close>,
    \<open>lib/util/const_utils.h\<close>, \<open>lib/concurrency/bitvec_atomics.h\<close>. Scans, powers of two, rounding and
    atomic updates of one bit.
  \<^item> \<open>Slab_Size_Classes\<close>: \<open>allocator/slab_size_classes.h\<close>. The class of a request is the smallest
    that holds it.
  \<^item> \<open>Obj_Slab\<close>, \<open>Slab_Allocation\<close>, \<open>Free_Cache\<close>, \<open>Slab_Manager\<close>, \<open>Object_Allocator\<close>: the headers
    of the same names under \<open>allocator/\<close>, each with its record and its operations. \<open>Free_Cache\<close>
    interprets the contract \<open>bounded_stack\<close>, \<open>Slab_Manager\<close> the contract \<open>slab_queue\<close>.
  \<^item> \<open>Allocator_Invariant\<close>, \<open>Allocator_Steps\<close>, \<open>Allocator_Correctness\<close>: the invariant that relates a
    state to who holds which block and which slab is on which list, what one round of
    \<open>_allocate_inner\<close> and one \<open>_free\<close> do to it, and runs of a program that allocates and frees on
    any cores (\<open>heap_run\<close>). The properties of this theory are about such runs.
  \<^item> \<open>Rseq_Machine\<close>, \<open>Rseq_Alloc\<close>, \<open>Rseq_Cache\<close>, \<open>Rseq_Cas\<close>, \<open>Rseq_Send\<close>: the assembly of the
    restartable sections, framed by \<open>lib/concurrency/rseq/rseq_asm_defs.h\<close>, as programs of a machine
    in which a thread can be interrupted, migrated and overtaken before each instruction. The contract
    \<open>rseq_section\<close> reduces a section with a single committing store to an annotation of its
    instructions; four sections satisfy it and so refine one atomic operation, which is how
    \<open>Object_Allocator\<close> runs them. \<open>_send_slab\<close> has two visible stores and does not.
  \<^item> \<open>Linked_Lists\<close>, \<open>Block_List\<close>: \<open>lib/container/block_list.h\<close>, the container of the tests. Its
    two lists interpret the contract \<open>block_links\<close>.
  \<^item> \<open>Args\<close>: \<open>lib/util/arg.h\<close> and \<open>arg.cc\<close>, the command line parser; the end of the process is a value.
  \<^item> \<open>Size_Class_Tables\<close>, \<open>Size_Map\<close>, \<open>Runtime_Size_Classes\<close>, \<open>Experiments\<close>: the size classes of the
    tcmalloc under \<open>tcmalloc-src/tcmalloc\<close> that NCMalloc is measured against: the 24 static tables,
    \<open>SizeMap\<close> of \<open>common.h\<close> and \<open>common.cc\<close>, the parser of tables given at run time, and the selection
    of experiments.
  \<^item> \<open>Huge_Pages\<close>, \<open>Huge_Address_Map\<close>, \<open>Huge_Map_Invariant\<close>: \<open>huge_pages.h\<close> and \<open>huge_address_map.cc\<close> of tcmalloc,
    ranges of huge pages and the treap of free ranges, which refines a set of pages.
  \<^item> \<open>Bitmap\<close>, \<open>Range_Tracker\<close>: \<open>internal/range_tracker.h\<close> of tcmalloc, allocation of ranges by best
    fit in a bitmap.

  \<^bold>\<open>State and faults.\<close> A struct is a record, memory of slabs and blocks a map from addresses; integers
  have the width of the source, so that additions wrap. A failed assertion, an access out of bounds or
  through null, a division by zero and \<open>__builtin_unreachable\<close> are values of \<open>fault\<close>, and properties
  state that they do not occur, or when they do. What the system provides is a parameter: \<open>mmap\<close>,
  the address \<open>calloc\<close> returns, the cores a thread observes, the environment, the clock, \<open>rand_r\<close>
  and computations in floating point.

  \<^bold>\<open>Loops.\<close> The loop of \<open>_allocate_inner\<close> runs once for each element of a list of observed cores;
  \<open>allocate_returns\<close> shows how many are enough. The walks over linked structures and the scan of
  \<open>FindAndMark\<close> are \<open>partial_function\<close>s, and their properties show that they return. The other loops
  are total functions. A section of the machine has no bound on its steps: its properties hold for
  every interleaving.

  \<^bold>\<open>What the properties show.\<close> The allocator never faults, held blocks never overlap, a returned
  block is new and large enough, the loop ends, null means that the region is used up, freed
  blocks are reused, construction and \<open>reset\<close> give the initial state; the sections are atomic under
  interruption and migration; the parts have the behaviour their callers rely on, up to the
  parsers, the block list, the size map, the range
  tracker and the map of huge pages.

  \<^bold>\<open>Not modelled.\<close> Two threads inside \<open>_free\<close> and \<open>_try_release\<close> of one slab at the same time: the
  operations on a slab outside the restartable sections run one after the other. Printers that change no state, clocks,
  statistics in floating point, signal handlers and the discovery of system constants
  (\<open>lib/system/sys_info.h\<close>), which are input and output. Of tcmalloc, the page heaps, caches and
  profiling, which NCMalloc does not contain but is compared with, and the installed gperftools.
\<close>

section \<open>Properties of the allocator\<close>







text \<open>
  C4: the loop of \<open>_allocate_inner\<close> ends when the thread is not migrated: two rounds more than
  there are slabs in the core's list are enough for \<open>_allocate\<close> to return.
\<close>

theorem allocate_returns:
  assumes "fresh_allocator mmap len reserve st0" and "heap_run st0 st L" and "valid_size sz" and "c < NPROCS"
  shows "\<exists>xs. walk_slabs (slabs st) (available_slabs_head (slab_managers st ! unat (size_to_idx sz) ! unat c)) = Some xs
    \<and> (\<forall>n \<ge> length xs + 2. \<exists>p st'. allocate c (replicate n (one_core c)) sz st = Inr (Some p, st'))"
proof -
  let ?i = "size_to_idx sz" and ?x = "(unat (size_to_idx sz), unat c)"
  obtain Q C where inv: "alloc_inv st Q C L {}" using heap_run_inv [OF assms(2,1)] by blast
  have i: "unat ?i < 11" by (rule unat_size_idx [OF assms(3)])
  have c: "unat c < 8" using assms(4) by (simp add: layout_consts word_less_nat_alt)
  have "sm_rep (slabs st) (slab_managers st ! unat ?i ! unat c) (Q ?x)"
    using invD(2) [OF inv] i c by (simp add: sms_ok_def sm_ok_def)
  then have "walk_slabs (slabs st) (available_slabs_head (slab_managers st ! unat ?i ! unat c)) = Some (Q ?x)"
    by (intro walk_chain) (simp add: sm_rep_def)
  moreover have "\<exists>p st'. allocate c (replicate n (one_core c)) sz st = Inr (Some p, st')" if n: "length (Q ?x) + 2 \<le> n" for n
  proof -
    obtain p st1 where pop: "try_pop c ?i st = Inr (p, st1)"
        "if C ?x = [] then p = 0 \<and> alloc_inv st1 Q C L {} else p \<in> members C"
      using pop_ok [OF inv i c] by (auto split: if_splits)
    show ?thesis
    proof (cases "C ?x = []")
      case True
      then show ?thesis using pop inner_live [of st1 Q C L ?i c "Q ?x" "[]" n] i assms(4) n by (simp add: allocate_def)
    next
      case False
      then have "1280 \<le> unat p" using pop(2) block_nonzero [OF inv, of p] by simp
      then show ?thesis using pop(1) by (simp add: allocate_def word_less_nat_alt layout_consts)
    qed
  qed
  ultimately show ?thesis by blast
qed

theorem allocate_returns_witness:
  "\<exists>st0 xs p st'. walk_slabs (slabs st0) (available_slabs_head (slab_managers st0 ! unat (size_to_idx 17) ! unat (4 :: u32))) = Some xs
    \<and> allocate 4 (replicate (length xs + 2) (one_core 4)) 17 st0 = Inr (Some p, st')"
proof -
  obtain st0 where f: "fresh_allocator (\<lambda>_ _. Some 65536) 2147483648 False st0" using fresh_exists by blast
  show ?thesis using allocate_returns [OF f heap_run.start, of 17 4] by (fastforce simp: valid_size_def layout_consts)
qed

text \<open>
  C5: \<open>_allocate\<close> returns null only when every slab of the region has been handed out and the
  list of the core it ran on is empty.
\<close>

theorem allocate_null_means_exhausted:
  assumes "fresh_allocator mmap len reserve st0" and "heap_run st0 st L"
    and "valid_size sz" and "c < NPROCS" and "\<forall>ob \<in> set obs. obs_ok ob"
    and "allocate c obs sz st = Inr (Some 0, st')"
  shows "current_slab st' = end_addr st'
    \<and> (\<exists>ob \<in> set obs. \<exists>sm. get_sm (size_to_idx sz) (ob_start ob) st' = Inr sm \<and> available_slabs_head sm = 0)"
proof -
  obtain Q C where inv: "alloc_inv st Q C L {}" using heap_run_inv [OF assms(2,1)] by blast
  show ?thesis by (rule allocate_null [OF inv assms(3-6)])
qed

theorem allocate_null_means_exhausted_witness:
  "\<exists>st0. allocate 1 [one_core 1] 8 st0 = Inr (Some 0, st0) \<and> current_slab st0 = end_addr st0"
proof -
  obtain st0 where d: "fresh_allocator (\<lambda>_ _. Some 65536) 45440 True st0" "allocate 1 [one_core 1] 8 st0 = Inr (Some 0, st0)"
    using demo_exhausted by blast
  have "valid_size 8" "1 < NPROCS" "\<forall>ob \<in> set [one_core 1]. obs_ok ob" by (simp_all add: valid_size_def layout_consts)
  from allocate_null_means_exhausted [OF d(1) heap_run.start this d(2)] show ?thesis using d(2) by blast
qed

text \<open>
  C6: a block freed on a core whose cache has room is the next block of its class that the
  core hands out.
\<close>

theorem free_then_allocate_reuses:
  assumes "fresh_allocator mmap len reserve st0" and "heap_run st0 st L" and "p \<in> L"
    and "c < NPROCS" and "d < NPROCS" and "slabs st (addr_to_slab p) = Some s"
    and "size_to_idx sz = size_to_idx (block_size s)"
    and "get_sm (size_to_idx sz) c st = Inr sm" and "current_idx (fc sm) \<noteq> 13"
  shows "\<exists>st1 st2. free c d p st = Inr st1 \<and> allocate c obs sz st1 = Inr (Some p, st2)"
proof -
  obtain Q C where inv: "alloc_inv st Q C L {}" using heap_run_inv [OF assms(2,1)] by blast
  show ?thesis by (rule free_reuse [OF inv assms(3-9)])
qed

theorem free_then_allocate_reuses_witness:
  "\<exists>st p st1 st2. free 2 6 p st = Inr st1 \<and> allocate 2 [] 20 st1 = Inr (Some p, st2)"
proof -
  obtain st0 st1 p Q where d: "fresh_allocator (\<lambda>_ _. Some 65536) 2147483648 False st0" "heap_run st0 st1 {p}"
      "alloc_inv st1 Q (\<lambda>_. []) {p} {}" "class_of st1 (addr_to_slab p) (unat (size_to_idx 20))"
    using demo_run by blast
  have i: "unat (size_to_idx 20) < 11" by (simp add: unat_size_idx valid_size_def)
  obtain s where s: "slabs st1 (addr_to_slab p) = Some s" "block_size s = slab_sizes ! unat (size_to_idx 20)"
    using d(4) by (auto simp: class_of_def)
  have idx: "size_to_idx 20 = size_to_idx (block_size s)"
    using size_to_idx_slab_sizes [of "unat (size_to_idx 20)"] i s(2) by (simp add: num_size_classes_def)
  obtain sm where sm: "get_sm (size_to_idx 20) 2 st1 = Inr sm" "fc_rep (fc sm) []"
    using get_sm_ok [OF d(3) i, of 2] by (auto simp: sm_ok_def)
  then have "current_idx (fc sm) \<noteq> 13" by (auto simp: fc_rep_def)
  then show ?thesis
    using free_then_allocate_reuses [OF d(1,2) _ _ _ s(1) idx sm(1), where d = 6 and obs = "[]"]
    by (auto simp: layout_consts)
qed



text \<open>
  C8: \<open>reset\<close> brings an allocator back to exactly the state it was constructed in, from any
  point of a run.
\<close>

theorem reset_restores:
  assumes "fresh_allocator mmap len reserve st0" and "heap_run st0 st L"
  shows "reset st = Inr st0"
  using assms heap_run_region reset_region unfolding fresh_allocator_def by blast

theorem reset_restores_witness: "\<exists>st0. reset st0 = Inr st0"
proof -
  obtain st0 where f: "fresh_allocator (\<lambda>_ _. Some 65536) 2147483648 False st0" using fresh_exists by blast
  show ?thesis using reset_restores [OF f heap_run.start] by blast
qed

end
